(* ===== verification/Prelude.thy ===== *)
theory Prelude imports
  Main
  "HOL-Library.Multiset"
  "HOL-Library.Char_ord"
  "HOL-Library.List_Lexorder"
begin

text \<open>
  Shared vocabulary of the development.

  \<^item> Instants and durations. A Go \<^verbatim>\<open>time.Time\<close> is the number of nanoseconds since Go's zero
    time (1 January of year 1, UTC), an unbounded integer, so that \<^verbatim>\<open>t.IsZero()\<close> is \<open>t = 0\<close>;
    \<^verbatim>\<open>Before\<close>, \<^verbatim>\<open>After\<close>, \<^verbatim>\<open>Equal\<close>, \<^verbatim>\<open>Add\<close> and \<^verbatim>\<open>Sub\<close> are the integer operations.
    A \<^verbatim>\<open>time.Duration\<close> is a number of nanoseconds. Reading the clock (\<^verbatim>\<open>time.Now()\<close>) is an
    argument of the operation that reads it.
  \<^item> Byte slices are lists of \<open>byte\<close>, Go strings are HOL strings (lists of bytes), compared
    lexicographically by byte as Go's \<^verbatim>\<open><\<close> does.
  \<^item> Go's counters and sizes of type \<^verbatim>\<open>int\<close> and \<^verbatim>\<open>int64\<close> are integers; where a component can
    reach the end of the machine range its own theory uses words.
  \<^item> An operation that may fail returns a sum, \<open>Inl\<close> of its error or \<open>Inr\<close> of its value,
    beside the state it leaves behind.
\<close>

type_synonym gotime = int
type_synonym duration = int
type_synonym byte = char
type_synonym bytes = "byte list"

abbreviation (input) is_zero_time :: "gotime \<Rightarrow> bool" where
  "is_zero_time t \<equiv> t = 0"

abbreviation (input) nanosecond :: duration where "nanosecond \<equiv> 1"
abbreviation (input) millisecond :: duration where "millisecond \<equiv> 1000000"
abbreviation (input) second :: duration where "second \<equiv> 1000000000"
abbreviation (input) minute :: duration where "minute \<equiv> 60000000000"
abbreviation (input) hour :: duration where "hour \<equiv> 3600000000000"

named_theorems heap_defs "unfolding of the container/heap operations"
named_theorems store_defs "unfolding of the task store operations"
named_theorems cache_defs "unfolding of the memory cache operations"
named_theorems chunk_defs "unfolding of the chunk store operations"
named_theorems body_defs "unfolding of the file body operations"
named_theorems wf_defs "unfolding of the workflow engine operations"

subsection \<open>Association lists\<close>

text \<open>
  A Go map whose iteration order matters to an operation is an association list with distinct
  keys; \<open>alist_del\<close> and \<open>alist_put\<close> are Go's \<^verbatim>\<open>delete(m, k)\<close> and \<^verbatim>\<open>m[k] = v\<close>.
\<close>

definition alist_del :: "'k \<Rightarrow> ('k \<times> 'v) list \<Rightarrow> ('k \<times> 'v) list" where
  "alist_del k m = filter (\<lambda>(k', _). k' \<noteq> k) m"

definition alist_put :: "'k \<Rightarrow> 'v \<Rightarrow> ('k \<times> 'v) list \<Rightarrow> ('k \<times> 'v) list" where
  "alist_put k v m =
     (if k \<in> fst ` set m then map (\<lambda>(k', v'). if k' = k then (k', v) else (k', v')) m
      else m @ [(k, v)])"

lemma map_of_alist_del [simp]: "map_of (alist_del k m) = (map_of m)(k := None)"
  by (induction m) (auto simp: alist_del_def)

lemma keys_alist_del [simp]: "map fst (alist_del k m) = filter (\<lambda>k'. k' \<noteq> k) (map fst m)"
  by (induction m) (auto simp: alist_del_def)

lemma distinct_alist_del [simp]: "distinct (map fst m) \<Longrightarrow> distinct (map fst (alist_del k m))"
  by simp

lemma set_alist_del: "set (alist_del k m) = {(k', v). (k', v) \<in> set m \<and> k' \<noteq> k}"
  by (auto simp: alist_del_def)

lemma map_of_map_replace:
  "k \<in> fst ` set m \<Longrightarrow>
   map_of (map (\<lambda>(k', v'). if k' = k then (k', v) else (k', v')) m) = (map_of m)(k \<mapsto> v)"
proof (induction m)
  case (Cons p m)
  show ?case
  proof (cases "k \<in> fst ` set m")
    case True
    with Cons show ?thesis by (auto simp: fun_eq_iff split: prod.splits)
  next
    case False
    then have "map (\<lambda>(k', v'). if k' = k then (k', v) else (k', v')) m = m"
      by (intro map_idI) (force split: prod.splits)
    with Cons.prems False show ?thesis by (auto simp: fun_eq_iff split: prod.splits)
  qed
qed simp

lemma map_of_alist_put [simp]: "map_of (alist_put k v m) = (map_of m)(k \<mapsto> v)"
proof (cases "k \<in> fst ` set m")
  case True
  then show ?thesis by (simp add: alist_put_def map_of_map_replace)
next
  case False
  then have "map_of m k = None" by (simp add: map_of_eq_None_iff)
  with False show ?thesis
    by (auto simp: alist_put_def map_add_def fun_eq_iff split: option.splits)
qed

lemma keys_alist_put:
  "map fst (alist_put k v m) = (if k \<in> fst ` set m then map fst m else map fst m @ [k])"
  by (auto simp: alist_put_def)

lemma distinct_alist_put [simp]:
  "distinct (map fst m) \<Longrightarrow> distinct (map fst (alist_put k v m))"
  by (auto simp: keys_alist_put)

lemma alist_put_present:
  assumes "distinct (map fst m)" "map_of m k = Some v"
  shows "alist_put k v' m = map (\<lambda>p. if p = (k, v) then (k, v') else p) m"
proof -
  have "(case p of (k', w) \<Rightarrow> if k' = k then (k', v') else (k', w)) = (if p = (k, v) then (k, v') else p)"
    if "p \<in> set m" for p
    by (cases p) (use that assms in \<open>auto dest: eq_key_imp_eq_value\<close>)
  moreover have "k \<in> fst ` set m" using assms by (force dest: map_of_SomeD)
  ultimately show ?thesis by (simp add: alist_put_def)
qed

lemma map_alist_put_same:
  assumes "distinct (map fst m)" "map_of m k = Some v" "f (k, v') = f (k, v)"
  shows "map f (alist_put k v' m) = map f m"
  using assms by (simp add: alist_put_present)

lemma length_filter_alist_put:
  assumes "distinct (map fst m)" "map_of m k = Some v" "P (k, v)" "\<not> P (k, v')"
  shows "length (filter P m) = Suc (length (filter P (alist_put k v' m)))"
  using assms
proof (induction m)
  case (Cons p m)
  show ?case
  proof (cases "p = (k, v)")
    case True
    then have "k \<notin> fst ` set m" using Cons.prems by auto
    then have "map (\<lambda>(k', w). if k' = k then (k', v') else (k', w)) m = m"
      by (intro map_idI) (force split: prod.splits)
    with True Cons.prems show ?thesis by (simp add: alist_put_def)
  next
    case False
    then have ne: "fst p \<noteq> k" and m: "map_of m k = Some v"
      using Cons.prems by (auto split: if_splits dest: map_of_SomeD)
    then have "alist_put k v' (p # m) = p # alist_put k v' m"
      by (auto simp: alist_put_def split: prod.splits)
    with Cons m show ?thesis by simp
  qed
qed simp

text \<open>The sum of an integer measure over the values of a map.\<close>

definition alist_sum :: "('v \<Rightarrow> int) \<Rightarrow> ('k \<times> 'v) list \<Rightarrow> int" where
  "alist_sum f m = (\<Sum>p\<leftarrow>m. f (snd p))"

lemma alist_sum_simps [simp]:
  "alist_sum f [] = 0" "alist_sum f (p # m) = f (snd p) + alist_sum f m"
  "alist_sum f (m @ m') = alist_sum f m + alist_sum f m'"
  by (simp_all add: alist_sum_def)

lemma alist_sum_del:
  "distinct (map fst m) \<Longrightarrow> map_of m k = Some v \<Longrightarrow> alist_sum f (alist_del k m) = alist_sum f m - f v"
proof (induction m)
  case (Cons p m)
  show ?case
  proof (cases "fst p = k")
    case True
    then have "k \<notin> fst ` set m" using Cons.prems by auto
    then have "alist_del k m = m" by (auto simp: alist_del_def filter_id_conv rev_image_eqI)
    with True Cons.prems show ?thesis by (simp add: alist_del_def case_prod_unfold)
  next
    case False
    with Cons show ?thesis by (simp add: alist_del_def case_prod_unfold)
  qed
qed simp

lemma alist_sum_put_new:
  "map_of m k = None \<Longrightarrow> alist_sum f (alist_put k v m) = alist_sum f m + f v"
  by (simp add: alist_put_def map_of_eq_None_iff)

lemma alist_sum_put_present:
  "distinct (map fst m) \<Longrightarrow> map_of m k = Some v \<Longrightarrow>
   alist_sum f (alist_put k v' m) = alist_sum f m - f v + f v'"
proof (induction m)
  case (Cons p m)
  show ?case
  proof (cases "fst p = k")
    case True
    then have "k \<notin> fst ` set m" using Cons.prems by auto
    then have "map (\<lambda>(k', w). if k' = k then (k', v') else (k', w)) m = m"
      by (intro map_idI) (force split: prod.splits)
    with True Cons.prems show ?thesis by (cases p) (simp add: alist_put_def)
  next
    case False
    then have "alist_put k v' (p # m) = p # alist_put k v' m"
      by (auto simp: alist_put_def split: prod.splits)
    with Cons False show ?thesis by simp
  qed
qed simp

lemma alist_sum_nonneg: "(\<And>k v. (k, v) \<in> set m \<Longrightarrow> 0 \<le> f v) \<Longrightarrow> 0 \<le> alist_sum f m"
  by (induction m) force+

subsection \<open>Lists\<close>

lemma distinct_map_remove1: "distinct (map f xs) \<Longrightarrow> distinct (map f (remove1 x xs))"
  by (auto simp: distinct_map inj_on_def)

definition list_swap :: "'a list \<Rightarrow> nat \<Rightarrow> nat \<Rightarrow> 'a list" where
  "list_swap xs i j = xs[i := xs ! j, j := xs ! i]"

lemma length_list_swap [simp]: "length (list_swap xs i j) = length xs"
  by (simp add: list_swap_def)

lemma nth_list_swap:
  "i < length xs \<Longrightarrow> j < length xs \<Longrightarrow> k < length xs \<Longrightarrow>
   list_swap xs i j ! k = (if k = i then xs ! j else if k = j then xs ! i else xs ! k)"
  by (simp add: list_swap_def nth_list_update)

lemma mset_list_swap [simp]:
  "i < length xs \<Longrightarrow> j < length xs \<Longrightarrow> mset (list_swap xs i j) = mset xs"
  by (simp add: list_swap_def mset_swap)

end
