(* ===== verification/Go_Heap.thy ===== *)
theory Go_Heap imports Prelude
begin

text \<open>
  Go's \<^verbatim>\<open>container/heap\<close>, which the task store uses for its three queues: the sift loops
  \<^verbatim>\<open>up\<close> and \<^verbatim>\<open>down\<close>, \<^verbatim>\<open>Init\<close>, \<^verbatim>\<open>Push\<close> and \<^verbatim>\<open>Pop\<close> over a slice and the \<^verbatim>\<open>Less\<close> of its
  elements. The locale \<open>heap_order\<close> is what a \<^verbatim>\<open>Less\<close> must satisfy (a strict weak order);
  under it every operation keeps the heap shape and the root is a least element. What happens to
  the multiset of elements needs no order and is proved outside the locale.
\<close>

function heap_up :: "('a \<Rightarrow> 'a \<Rightarrow> bool) \<Rightarrow> 'a list \<Rightarrow> nat \<Rightarrow> 'a list" where
  "heap_up lt h j =
     (let i = (j - 1) div 2
      in if i = j \<or> \<not> lt (h ! j) (h ! i) then h
         else heap_up lt (list_swap h i j) i)"
  by pat_completeness auto
termination
  by (relation "measure (\<lambda>(lt, h, j). j)") auto

function heap_down :: "('a \<Rightarrow> 'a \<Rightarrow> bool) \<Rightarrow> 'a list \<Rightarrow> nat \<Rightarrow> nat \<Rightarrow> 'a list" where
  "heap_down lt h i n =
     (let j1 = 2 * i + 1
      in if n \<le> j1 then h
         else let j = (if j1 + 1 < n \<and> lt (h ! (j1 + 1)) (h ! j1) then j1 + 1 else j1)
              in if \<not> lt (h ! j) (h ! i) then h
                 else heap_down lt (list_swap h i j) j n)"
  by pat_completeness auto
termination
  by (relation "measure (\<lambda>(lt, h, i, n). n - i)") (auto simp: Let_def split: if_splits)

declare heap_up.simps [simp del] heap_down.simps [simp del]

definition heap_push :: "('a \<Rightarrow> 'a \<Rightarrow> bool) \<Rightarrow> 'a list \<Rightarrow> 'a \<Rightarrow> 'a list" where
  "heap_push lt h x = heap_up lt (h @ [x]) (length h)"

text \<open>\<^verbatim>\<open>heap.Pop\<close> on an empty heap indexes out of range and panics: \<open>None\<close>.\<close>

definition heap_pop :: "('a \<Rightarrow> 'a \<Rightarrow> bool) \<Rightarrow> 'a list \<Rightarrow> ('a \<times> 'a list) option" where
  "heap_pop lt h =
     (if h = [] then None
      else let n = length h - 1; h' = heap_down lt (list_swap h 0 n) 0 n
           in Some (last h', butlast h'))"

fun heap_init_from :: "('a \<Rightarrow> 'a \<Rightarrow> bool) \<Rightarrow> 'a list \<Rightarrow> nat \<Rightarrow> 'a list" where
  "heap_init_from lt h 0 = h"
| "heap_init_from lt h (Suc i) = heap_init_from lt (heap_down lt h i (length h)) i"

definition heap_init :: "('a \<Rightarrow> 'a \<Rightarrow> bool) \<Rightarrow> 'a list \<Rightarrow> 'a list" where
  "heap_init lt h = heap_init_from lt h (length h div 2)"

text \<open>The heap shape: no element is less than its parent.\<close>

definition is_heap :: "('a \<Rightarrow> 'a \<Rightarrow> bool) \<Rightarrow> 'a list \<Rightarrow> bool" where
  "is_heap lt h = (\<forall>k < length h. 0 < k \<longrightarrow> \<not> lt (h ! k) (h ! ((k - 1) div 2)))"

lemma is_heap_Nil [simp]: "is_heap lt []"
  by (simp add: is_heap_def)

subsection \<open>Elements\<close>

lemma length_heap_up [simp]: "length (heap_up lt h j) = length h"
  by (induction lt h j rule: heap_up.induct) (subst heap_up.simps, auto simp: Let_def)

lemma mset_heap_up [simp]: "j < length h \<Longrightarrow> mset (heap_up lt h j) = mset h"
proof (induction lt h j rule: heap_up.induct)
  case (1 lt h j)
  then show ?case by (subst heap_up.simps) (auto simp: Let_def)
qed

lemma length_heap_down [simp]: "length (heap_down lt h i n) = length h"
  by (induction lt h i n rule: heap_down.induct) (subst heap_down.simps, auto simp: Let_def)

lemma mset_heap_down [simp]: "n \<le> length h \<Longrightarrow> mset (heap_down lt h i n) = mset h"
proof (induction lt h i n rule: heap_down.induct)
  case (1 lt h i n)
  then show ?case by (subst heap_down.simps) (auto simp: Let_def)
qed

lemma heap_down_Nil_iff [simp]: "heap_down lt h i n = [] \<longleftrightarrow> h = []"
  by (metis length_0_conv length_heap_down)

lemma list_swap_Nil_iff [simp]: "list_swap h i j = [] \<longleftrightarrow> h = []"
  by (simp add: list_swap_def)

lemma heap_down_beyond: "n \<le> length h \<Longrightarrow> n \<le> k \<Longrightarrow> heap_down lt h i n ! k = h ! k"
proof (induction lt h i n rule: heap_down.induct)
  case (1 lt h i n)
  then show ?case
    by (subst heap_down.simps) (auto simp: Let_def list_swap_def)
qed

lemma mset_heap_push [simp]: "mset (heap_push lt h x) = add_mset x (mset h)"
  by (simp add: heap_push_def)

lemma set_heap_push [simp]: "set (heap_push lt h x) = insert x (set h)"
  by (metis mset_heap_push set_mset_add_mset_insert set_mset_mset)

lemma heap_pop_None [simp]: "heap_pop lt h = None \<longleftrightarrow> h = []"
  by (simp add: heap_pop_def Let_def)

lemma heap_pop_Nil [simp]: "heap_pop lt [] = None"
  by simp

lemma heap_pop_root:
  assumes "heap_pop lt h = Some (x, h')"
  shows "x = h ! 0"
proof -
  from assms have ne: "h \<noteq> []" by (metis heap_pop_None option.distinct(1))
  let ?n = "length h - 1"
  let ?d = "heap_down lt (list_swap h 0 ?n) 0 ?n"
  from assms ne have "x = last ?d" by (simp add: heap_pop_def Let_def)
  also have "\<dots> = ?d ! ?n" using ne by (subst last_conv_nth) auto
  also have "\<dots> = list_swap h 0 ?n ! ?n" by (rule heap_down_beyond) simp_all
  also have "\<dots> = h ! 0" using ne by (subst nth_list_swap) auto
  finally show ?thesis .
qed

lemma heap_pop_mset:
  assumes "heap_pop lt h = Some (x, h')"
  shows "mset h = add_mset x (mset h')"
proof -
  from assms have ne: "h \<noteq> []" by (metis heap_pop_None option.distinct(1))
  let ?n = "length h - 1"
  let ?d = "heap_down lt (list_swap h 0 ?n) 0 ?n"
  from assms ne have x: "x = last ?d" and h': "h' = butlast ?d"
    by (simp_all add: heap_pop_def Let_def)
  have "?d = h' @ [x]" using ne by (simp add: x h')
  then have "mset ?d = add_mset x (mset h')" by simp
  moreover have "mset ?d = mset h" using ne by simp
  ultimately show ?thesis by simp
qed

lemma heap_pop_set: "heap_pop lt h = Some (x, h') \<Longrightarrow> set h = insert x (set h')"
  by (metis heap_pop_mset set_mset_add_mset_insert set_mset_mset)

lemma heap_pop_length: "heap_pop lt h = Some (x, h') \<Longrightarrow> length h = Suc (length h')"
  by (metis heap_pop_mset size_add_mset size_mset)

lemma heap_init_Nil [simp]: "heap_init lt [] = []"
  by (simp add: heap_init_def)

subsection \<open>Order\<close>

locale heap_order =
  fixes lt :: "'a \<Rightarrow> 'a \<Rightarrow> bool"
  assumes lt_asym: "lt a b \<Longrightarrow> \<not> lt b a"
    and nlt_trans: "\<not> lt b a \<Longrightarrow> \<not> lt c b \<Longrightarrow> \<not> lt c a"
begin

lemma nlt_refl: "\<not> lt a a"
  using lt_asym by blast

lemma is_heap_root_least: "is_heap lt h \<Longrightarrow> k < length h \<Longrightarrow> \<not> lt (h ! k) (h ! 0)"
proof (induction k rule: less_induct)
  case (less k)
  show ?case
  proof (cases "k = 0")
    case True
    then show ?thesis by (simp add: nlt_refl)
  next
    case False
    then have "(k - 1) div 2 < k" by linarith
    with less have "\<not> lt (h ! ((k - 1) div 2)) (h ! 0)" by simp
    moreover from less.prems False have "\<not> lt (h ! k) (h ! ((k - 1) div 2))"
      by (simp add: is_heap_def)
    ultimately show ?thesis by (rule nlt_trans)
  qed
qed

text \<open>The heap shape but for the element at \<open>j\<close>, which may be less than its parent.\<close>

definition heap_but_up :: "'a list \<Rightarrow> nat \<Rightarrow> bool" where
  "heap_but_up h j =
     (\<forall>k < length h. 0 < k \<longrightarrow>
        (k \<noteq> j \<longrightarrow> \<not> lt (h ! k) (h ! ((k - 1) div 2))) \<and>
        ((k - 1) div 2 = j \<longrightarrow> 0 < j \<longrightarrow> \<not> lt (h ! k) (h ! ((j - 1) div 2))))"

lemma heap_but_up_swap:
  assumes ok: "heap_but_up h j" and j: "j < length h" "0 < j"
    and lt: "lt (h ! j) (h ! ((j - 1) div 2))"
  shows "heap_but_up (list_swap h ((j - 1) div 2) j) ((j - 1) div 2)"
  unfolding heap_but_up_def length_list_swap
proof (intro allI impI)
  let ?i = "(j - 1) div 2"
  let ?h = "list_swap h ?i j"
  fix k assume k: "k < length h" "0 < k"
  have i: "?i < length h" "?i < j" using j by linarith+
  have pk: "(k - 1) div 2 < length h" "(k - 1) div 2 < k" using k by linarith+
  have nlt: "\<not> lt (h ! ?i) (h ! j)" using lt by (rule lt_asym)
  have keep: "k \<noteq> j \<Longrightarrow> \<not> lt (h ! k) (h ! ((k - 1) div 2))"
    using ok k by (simp add: heap_but_up_def)
  have below: "(k - 1) div 2 = j \<Longrightarrow> \<not> lt (h ! k) (h ! ?i)"
    using ok k j by (simp add: heap_but_up_def)
  have "k \<noteq> ?i \<Longrightarrow> \<not> lt (?h ! k) (?h ! ((k - 1) div 2))"
    using keep below nlt pk k i j nlt_trans [OF nlt, of "h ! k"]
    by (auto simp: nth_list_swap)
  moreover have "\<not> lt (?h ! k) (?h ! ((?i - 1) div 2))" if "(k - 1) div 2 = ?i" "0 < ?i"
  proof -
    have gp: "\<not> lt (h ! ?i) (h ! ((?i - 1) div 2))"
      using ok i that(2) unfolding heap_but_up_def by auto
    have "(?i - 1) div 2 < ?i" using that(2) by linarith
    then have gpn: "?h ! ((?i - 1) div 2) = h ! ((?i - 1) div 2)"
      using i j by (subst nth_list_swap) auto
    show ?thesis
    proof (cases "k = j")
      case True
      then show ?thesis using gp gpn i j by (subst (1) nth_list_swap) auto
    next
      case False
      then have "?h ! k = h ! k" using pk that i j k by (subst nth_list_swap) auto
      moreover have "\<not> lt (h ! k) (h ! ?i)" using keep [OF False] that(1) by simp
      ultimately show ?thesis using nlt_trans [OF gp] gpn by simp
    qed
  qed
  ultimately show "(k \<noteq> ?i \<longrightarrow> \<not> lt (?h ! k) (?h ! ((k - 1) div 2))) \<and>
      ((k - 1) div 2 = ?i \<longrightarrow> 0 < ?i \<longrightarrow> \<not> lt (?h ! k) (?h ! ((?i - 1) div 2)))"
    by blast
qed

lemma is_heap_heap_up: "j < length h \<Longrightarrow> heap_but_up h j \<Longrightarrow> is_heap lt (heap_up lt h j)"
proof (induction j arbitrary: h rule: less_induct)
  case (less j)
  let ?i = "(j - 1) div 2"
  show ?case
  proof (cases "?i = j \<or> \<not> lt (h ! j) (h ! ?i)")
    case True
    then have "heap_up lt h j = h" by (subst heap_up.simps) (auto simp: Let_def)
    moreover have "is_heap lt h" unfolding is_heap_def
    proof (intro allI impI)
      fix k assume k: "k < length h" "0 < k"
      show "\<not> lt (h ! k) (h ! ((k - 1) div 2))"
      proof (cases "k = j")
        case True
        with k \<open>?i = j \<or> \<not> lt (h ! j) (h ! ?i)\<close> show ?thesis by auto
      next
        case False
        with k less.prems show ?thesis by (simp add: heap_but_up_def)
      qed
    qed
    ultimately show ?thesis by simp
  next
    case False
    then have j: "0 < j" by (cases j) auto
    from False have "heap_up lt h j = heap_up lt (list_swap h ?i j) ?i"
      by (subst heap_up.simps) (auto simp: Let_def)
    moreover have "is_heap lt (heap_up lt (list_swap h ?i j) ?i)"
      using j less.prems False by (intro less.IH heap_but_up_swap) auto
    ultimately show ?thesis by simp
  qed
qed

lemma is_heap_push: "is_heap lt h \<Longrightarrow> is_heap lt (heap_push lt h x)"
  unfolding heap_push_def
  by (rule is_heap_heap_up) (auto simp: is_heap_def heap_but_up_def nth_append)

text \<open>The first \<open>n\<close> elements have the heap shape but for the children of \<open>i\<close>.\<close>

definition heap_but_down :: "'a list \<Rightarrow> nat \<Rightarrow> nat \<Rightarrow> bool" where
  "heap_but_down h i n =
     (\<forall>k < n. 0 < k \<longrightarrow>
        ((k - 1) div 2 \<noteq> i \<longrightarrow> \<not> lt (h ! k) (h ! ((k - 1) div 2))) \<and>
        ((k - 1) div 2 = i \<longrightarrow> 0 < i \<longrightarrow> \<not> lt (h ! k) (h ! ((i - 1) div 2))))"

lemma heap_but_down_swap:
  assumes ok: "heap_but_down h i n" and n: "n \<le> length h"
    and j: "j < n" "0 < j" "(j - 1) div 2 = i" and lt: "lt (h ! j) (h ! i)"
    and least: "\<And>k. k < n \<Longrightarrow> 0 < k \<Longrightarrow> (k - 1) div 2 = i \<Longrightarrow> \<not> lt (h ! k) (h ! j)"
  shows "heap_but_down (list_swap h i j) j n"
  unfolding heap_but_down_def
proof (intro allI impI)
  let ?h = "list_swap h i j"
  fix k assume k: "k < n" "0 < k"
  have i: "i < n" "i < j" using j by linarith+
  have pk: "(k - 1) div 2 < length h" "(k - 1) div 2 < k" using k n by linarith+
  have nlt: "\<not> lt (h ! i) (h ! j)" using lt by (rule lt_asym)
  have keep: "(k - 1) div 2 \<noteq> i \<Longrightarrow> \<not> lt (h ! k) (h ! ((k - 1) div 2))"
    using ok k by (simp add: heap_but_down_def)
  have over: "0 < i \<Longrightarrow> \<not> lt (h ! j) (h ! ((i - 1) div 2))"
    using ok j by (simp add: heap_but_down_def)
  have "(k - 1) div 2 \<noteq> j \<Longrightarrow> \<not> lt (?h ! k) (?h ! ((k - 1) div 2))"
    using keep over least [OF k] nlt pk k i j n by (auto simp: nth_list_swap)
  moreover have "\<not> lt (?h ! k) (?h ! ((j - 1) div 2))" if "(k - 1) div 2 = j"
    using keep that pk k i j n by (auto simp: nth_list_swap)
  ultimately show "((k - 1) div 2 \<noteq> j \<longrightarrow> \<not> lt (?h ! k) (?h ! ((k - 1) div 2))) \<and>
      ((k - 1) div 2 = j \<longrightarrow> 0 < j \<longrightarrow> \<not> lt (?h ! k) (?h ! ((j - 1) div 2)))"
    by blast
qed

lemma heap_but_down_stop:
  assumes ok: "heap_but_down h i n"
    and stop: "\<And>k. k < n \<Longrightarrow> 0 < k \<Longrightarrow> (k - 1) div 2 = i \<Longrightarrow> \<not> lt (h ! k) (h ! i)"
    and k: "k < n" "0 < k"
  shows "\<not> lt (h ! k) (h ! ((k - 1) div 2))"
  using assms by (cases "(k - 1) div 2 = i") (auto simp: heap_but_down_def)

lemma heap_down_shape:
  "n \<le> length h \<Longrightarrow> heap_but_down h i n \<Longrightarrow> k < n \<Longrightarrow> 0 < k \<Longrightarrow>
   \<not> lt (heap_down lt h i n ! k) (heap_down lt h i n ! ((k - 1) div 2))"
proof (induction "n - i" arbitrary: h i rule: less_induct)
  case less
  let ?j1 = "2 * i + 1"
  let ?j = "if ?j1 + 1 < n \<and> lt (h ! (?j1 + 1)) (h ! ?j1) then ?j1 + 1 else ?j1"
  have kids: "c = ?j1 \<or> c = ?j1 + 1" if "0 < c" "(c - 1) div 2 = i" for c using that by linarith
  have eq: "heap_down lt h i n = (if n \<le> ?j1 then h else if \<not> lt (h ! ?j) (h ! i) then h
      else heap_down lt (list_swap h i ?j) ?j n)"
    by (subst heap_down.simps) (simp add: Let_def)
  have least: "\<not> lt (h ! c) (h ! ?j)" if "c < n" "0 < c" "(c - 1) div 2 = i" for c
    using kids [OF that(2,3)] that lt_asym nlt_refl by auto
  consider (leaf) "n \<le> ?j1" | (stop) "\<not> n \<le> ?j1" "\<not> lt (h ! ?j) (h ! i)"
    | (swap) "\<not> n \<le> ?j1" "lt (h ! ?j) (h ! i)" by blast
  then show ?case
  proof cases
    case leaf
    then have "heap_down lt h i n = h" by (simp only: eq if_True)
    moreover have "\<not> lt (h ! c) (h ! i)" if "c < n" "0 < c" "(c - 1) div 2 = i" for c
      using kids [OF that(2,3)] that leaf by linarith
    ultimately show ?thesis using heap_but_down_stop less.prems by simp
  next
    case stop
    then have "heap_down lt h i n = h" by (simp only: eq if_True if_False if_cancel simp_thms)
    moreover have "\<not> lt (h ! c) (h ! i)" if "c < n" "0 < c" "(c - 1) div 2 = i" for c
      using least [OF that] stop(2) by (rule nlt_trans [rotated])
    ultimately show ?thesis using heap_but_down_stop less.prems by simp
  next
    case swap
    then have "heap_down lt h i n = heap_down lt (list_swap h i ?j) ?j n"
      by (simp only: eq if_False simp_thms)
    moreover have "heap_but_down (list_swap h i ?j) ?j n"
      using less.prems swap least by (intro heap_but_down_swap) auto
    moreover have "n - ?j < n - i" using swap(1) by auto
    ultimately show ?thesis using less.hyps [of ?j "list_swap h i ?j"] less.prems by simp
  qed
qed

lemma is_heap_pop:
  assumes heap: "is_heap lt h" and pop: "heap_pop lt h = Some (x, h')"
  shows "is_heap lt h'"
proof -
  from pop have ne: "h \<noteq> []" by (metis heap_pop_None option.distinct(1))
  let ?n = "length h - 1"
  let ?d = "heap_down lt (list_swap h 0 ?n) 0 ?n"
  from pop ne have h': "h' = butlast ?d" by (simp add: heap_pop_def Let_def)
  have "heap_but_down (list_swap h 0 ?n) 0 ?n"
    using heap ne by (auto simp: heap_but_down_def is_heap_def nth_list_swap)
  then have "\<not> lt (?d ! k) (?d ! ((k - 1) div 2))" if "k < ?n" "0 < k" for k
    using heap_down_shape that by simp
  moreover have "(k - 1) div 2 < ?n" if "k < ?n" for k :: nat using that by linarith
  ultimately show ?thesis unfolding is_heap_def h' by (simp add: nth_butlast)
qed

lemma heap_pop_least:
  assumes "is_heap lt h" "heap_pop lt h = Some (x, h')" "y \<in> set h"
  shows "\<not> lt y x"
  using assms heap_pop_root is_heap_root_least by (metis in_set_conv_nth)

end

end
