(* ===== verification/Task_Types.thy ===== *)
theory Task_Types imports Go_Heap
begin

text \<open>
  The public types of \<^verbatim>\<open>providers/tasks\<close> (\<^verbatim>\<open>tasks.go\<close>): life-cycle states, tasks, the store's
  record of a task, the error values, and the per-queue summary.
\<close>

datatype task_state =
  StatePending | StateScheduled | StateRunning | StateCompleted | StateFailed | StateCancelled

record task =
  t_id :: string
  t_type :: string
  t_payload :: bytes
  t_queue :: string
  t_priority :: int
  t_max_retries :: "int option"
  t_timeout :: duration
  t_deadline :: gotime
  t_delay_until :: gotime
  t_unique_key :: string
  t_tags :: "string \<rightharpoonup> string"

definition Retries :: "int \<Rightarrow> int option" where
  "Retries n = Some n"

record task_record =
  r_task :: task
  r_state :: task_state
  r_attempts :: nat
  r_enqueued_at :: gotime
  r_started_at :: gotime
  r_completed_at :: gotime
  r_last_error :: string
  r_next_attempt :: gotime
  r_owner_worker :: string
  r_visibility_at :: gotime

datatype task_error =
  ErrNotFound | ErrNotOwner | ErrAlreadyTerminal | ErrUniqueViolation | ErrQueueClosed

record queue_stats =
  qs_pending :: nat
  qs_scheduled :: nat
  qs_running :: nat
  qs_failed :: nat
  qs_oldest_pending_age :: duration

definition terminal_state :: "task_state \<Rightarrow> bool" where
  "terminal_state st \<longleftrightarrow> st = StateCompleted \<or> st = StateFailed \<or> st = StateCancelled"

end
