(* ===== verification/Task_Memory.thy ===== *)
theory Task_Memory imports Task_Types
begin

text \<open>
  The in-memory task store (\<^verbatim>\<open>providers/tasks/memory.go\<close>). The store's mutex makes every
  operation atomic, so an operation is a function from the store to its result and the new store;
  the clock readings and the identifier it draws are arguments. Heap items point to records by
  task identifier, as in the source, and go stale rather than being removed.
  The maps of queues and of dedup keys are partial functions; the map of records, which
  \<^verbatim>\<open>QueueStats\<close> and \<^verbatim>\<open>PurgeOlderThan\<close> iterate over, is an association list with distinct keys.
\<close>

subsection \<open>Heap items and their orders\<close>

record pending_item =
  p_id :: string
  p_priority :: int
  p_enqueued_at :: gotime

record time_item =
  ti_id :: string
  ti_when :: gotime

definition pending_less :: "pending_item \<Rightarrow> pending_item \<Rightarrow> bool" where
  "pending_less a b =
     (if p_priority a \<noteq> p_priority b then p_priority a > p_priority b
      else if p_enqueued_at a \<noteq> p_enqueued_at b then p_enqueued_at a < p_enqueued_at b
      else p_id a < p_id b)"

definition time_less :: "time_item \<Rightarrow> time_item \<Rightarrow> bool" where
  "time_less a b =
     (if ti_when a \<noteq> ti_when b then ti_when a < ti_when b else ti_id a < ti_id b)"

interpretation pending: heap_order pending_less
  by unfold_locales (auto simp: pending_less_def split: if_splits)

interpretation timed: heap_order time_less
  by unfold_locales (auto simp: time_less_def split: if_splits)

subsection \<open>The store\<close>

record mem_queue =
  q_pending :: "pending_item list"
  q_scheduled :: "time_item list"
  q_running :: "time_item list"

record memory_store =
  s_dedup_window :: duration
  s_queues :: "string \<rightharpoonup> mem_queue"
  s_records :: "(string \<times> task_record) list"
  s_dedup :: "string \<rightharpoonup> gotime"
  s_closed :: bool

definition NewMemoryStore :: "duration \<Rightarrow> memory_store" where
  "NewMemoryStore window =
     \<lparr>s_dedup_window = window, s_queues = Map.empty, s_records = [], s_dedup = Map.empty,
      s_closed = False\<rparr>"

definition newMemQueue :: mem_queue where
  "newMemQueue =
     \<lparr>q_pending = heap_init pending_less [], q_scheduled = heap_init time_less [],
      q_running = heap_init time_less []\<rparr>"

definition queue_name :: "string \<Rightarrow> string" where
  "queue_name name = (if name = '''' then ''default'' else name)"

text \<open>\<open>queueLocked\<close> creates the queue when it is missing; \<open>put_queue\<close> is the write through the
  pointer it returns.\<close>

definition queueLocked :: "memory_store \<Rightarrow> string \<Rightarrow> mem_queue \<times> memory_store" where
  "queueLocked s name =
     (case s_queues s (queue_name name) of
        Some q \<Rightarrow> (q, s)
      | None \<Rightarrow> (newMemQueue, s\<lparr>s_queues := (s_queues s)(queue_name name \<mapsto> newMemQueue)\<rparr>))"

definition put_queue :: "memory_store \<Rightarrow> string \<Rightarrow> mem_queue \<Rightarrow> memory_store" where
  "put_queue s name q = s\<lparr>s_queues := (s_queues s)(queue_name name \<mapsto> q)\<rparr>"

definition put_record :: "memory_store \<Rightarrow> string \<Rightarrow> task_record \<Rightarrow> memory_store" where
  "put_record s tid r = s\<lparr>s_records := alist_put tid r (s_records s)\<rparr>"

definition push_scheduled :: "memory_store \<Rightarrow> string \<Rightarrow> time_item \<Rightarrow> memory_store" where
  "push_scheduled s name it =
     (let (q, s') = queueLocked s name
      in put_queue s' name (q\<lparr>q_scheduled := heap_push time_less (q_scheduled q) it\<rparr>))"

definition push_running :: "memory_store \<Rightarrow> string \<Rightarrow> time_item \<Rightarrow> memory_store" where
  "push_running s name it =
     (let (q, s') = queueLocked s name
      in put_queue s' name (q\<lparr>q_running := heap_push time_less (q_running q) it\<rparr>))"

definition push_pending :: "memory_store \<Rightarrow> string \<Rightarrow> pending_item \<Rightarrow> memory_store" where
  "push_pending s name it =
     (let (q, s') = queueLocked s name
      in put_queue s' name (q\<lparr>q_pending := heap_push pending_less (q_pending q) it\<rparr>))"

abbreviation record_of :: "memory_store \<Rightarrow> string \<Rightarrow> task_record option" where
  "record_of s \<equiv> map_of (s_records s)"

subsection \<open>Enqueue\<close>

definition evictDedupExpiredLocked :: "gotime \<Rightarrow> memory_store \<Rightarrow> memory_store" where
  "evictDedupExpiredLocked now s =
     s\<lparr>s_dedup := (\<lambda>k. case s_dedup s k of
                          Some expiresAt \<Rightarrow> if expiresAt < now then None else Some expiresAt
                        | None \<Rightarrow> None)\<rparr>"

text \<open>The task as stored (identifier and queue filled in), its fresh record, and the insertion
  into the heap its delay asks for.\<close>

definition fill_task :: "string \<Rightarrow> task \<Rightarrow> task" where
  "fill_task newid t =
     t\<lparr>t_id := (if t_id t = '''' then newid else t_id t), t_queue := queue_name (t_queue t)\<rparr>"

definition new_record :: "gotime \<Rightarrow> task_state \<Rightarrow> task \<Rightarrow> task_record" where
  "new_record now st t =
     \<lparr>r_task = t, r_state = st, r_attempts = 0, r_enqueued_at = now, r_started_at = 0,
      r_completed_at = 0, r_last_error = '''', r_next_attempt = 0, r_owner_worker = '''',
      r_visibility_at = 0\<rparr>"

definition insert_task :: "gotime \<Rightarrow> memory_store \<Rightarrow> task \<Rightarrow> task_record \<times> memory_store" where
  "insert_task now s t =
     (if \<not> is_zero_time (t_delay_until t) \<and> t_delay_until t > now then
        let r = new_record now StateScheduled t
        in (r, push_scheduled (put_record s (t_id t) r) (t_queue t)
                 \<lparr>ti_id = t_id t, ti_when = t_delay_until t\<rparr>)
      else
        let r = new_record now StatePending t
        in (r, push_pending (put_record s (t_id t) r) (t_queue t)
                 \<lparr>p_id = t_id t, p_priority = t_priority t, p_enqueued_at = now\<rparr>))"

text \<open>\<open>now0\<close> is the clock at the dedup check and \<open>now\<close> the clock at insertion; \<open>newid\<close> is what
  \<^verbatim>\<open>newID()\<close> returns.\<close>

definition Enqueue ::
  "gotime \<Rightarrow> gotime \<Rightarrow> string \<Rightarrow> memory_store \<Rightarrow> task \<Rightarrow> (task_error + task_record) \<times> memory_store"
where
  "Enqueue now0 now newid s t =
     (if s_closed s then (Inl ErrQueueClosed, s)
      else if t_unique_key t \<noteq> '''' \<and> s_dedup_window s > 0 then
        let s1 = evictDedupExpiredLocked now0 s
        in case s_dedup s1 (t_unique_key t) of
             Some _ \<Rightarrow> (Inl ErrUniqueViolation, s1)
           | None \<Rightarrow>
               let s2 = s1\<lparr>s_dedup := (s_dedup s1)(t_unique_key t \<mapsto> now0 + s_dedup_window s1)\<rparr>;
                   (r, s3) = insert_task now s2 (fill_task newid t)
               in (Inr r, s3)
      else
        let (r, s3) = insert_task now s (fill_task newid t) in (Inr r, s3))"

definition ScheduleAt ::
  "gotime \<Rightarrow> gotime \<Rightarrow> string \<Rightarrow> memory_store \<Rightarrow> gotime \<Rightarrow> task
   \<Rightarrow> (task_error + task_record) \<times> memory_store"
where
  "ScheduleAt now0 now newid s when t = Enqueue now0 now newid s (t\<lparr>t_delay_until := when\<rparr>)"

subsection \<open>Claim\<close>

text \<open>The lazy-delete loop: pop until the record behind the item is pending.\<close>

function claim_pop ::
  "(string \<times> task_record) list \<Rightarrow> pending_item list
   \<Rightarrow> (string \<times> task_record) option \<times> pending_item list"
where
  "claim_pop recs h =
     (case heap_pop pending_less h of
        None \<Rightarrow> (None, h)
      | Some (it, h') \<Rightarrow>
          (case map_of recs (p_id it) of
             None \<Rightarrow> claim_pop recs h'
           | Some r \<Rightarrow> if r_state r \<noteq> StatePending then claim_pop recs h'
                       else (Some (p_id it, r), h')))"
  by pat_completeness auto
termination
  by (relation "measure (\<lambda>(recs, h). length h)") (auto dest: heap_pop_length)

declare claim_pop.simps [simp del]

definition claimed_record :: "gotime \<Rightarrow> string \<Rightarrow> duration \<Rightarrow> task_record \<Rightarrow> task_record" where
  "claimed_record now workerID visibility r =
     r\<lparr>r_state := StateRunning, r_attempts := r_attempts r + 1, r_owner_worker := workerID,
       r_visibility_at := now + visibility,
       r_started_at := (if is_zero_time (r_started_at r) then now else r_started_at r)\<rparr>"

definition Claim ::
  "gotime \<Rightarrow> memory_store \<Rightarrow> string \<Rightarrow> string \<Rightarrow> duration
   \<Rightarrow> (task_error + task_record option) \<times> memory_store"
where
  "Claim now s queue workerID visibility =
     (if s_closed s then (Inl ErrQueueClosed, s)
      else case s_queues s (queue_name queue) of
        None \<Rightarrow> (Inr None, s)
      | Some q \<Rightarrow>
          if q_pending q = [] then (Inr None, s)
          else (case claim_pop (s_records s) (q_pending q) of
              (None, h) \<Rightarrow> (Inr None, put_queue s queue (q\<lparr>q_pending := h\<rparr>))
            | (Some (tid, r), h) \<Rightarrow>
                let r' = claimed_record now workerID visibility r
                in (Inr (Some r'),
                    put_queue (put_record s tid r') queue
                      (q\<lparr>q_pending := h,
                         q_running := heap_push time_less (q_running q)
                           \<lparr>ti_id = t_id (r_task r'), ti_when = r_visibility_at r'\<rparr>\<rparr>))))"

subsection \<open>Heartbeat, Complete, Fail, Cancel, Inspect\<close>

definition Heartbeat ::
  "gotime \<Rightarrow> memory_store \<Rightarrow> string \<Rightarrow> string \<Rightarrow> duration \<Rightarrow> (task_error + unit) \<times> memory_store"
where
  "Heartbeat now s tid workerID ext =
     (case record_of s tid of
        None \<Rightarrow> (Inl ErrNotFound, s)
      | Some r \<Rightarrow>
          if r_owner_worker r \<noteq> workerID \<or> r_state r \<noteq> StateRunning then (Inl ErrNotOwner, s)
          else let r' = r\<lparr>r_visibility_at := now + ext\<rparr>
               in (Inr (), push_running (put_record s tid r') (t_queue (r_task r'))
                             \<lparr>ti_id = tid, ti_when = r_visibility_at r'\<rparr>))"

definition Complete ::
  "gotime \<Rightarrow> memory_store \<Rightarrow> string \<Rightarrow> string \<Rightarrow> (task_error + unit) \<times> memory_store"
where
  "Complete now s tid workerID =
     (case record_of s tid of
        None \<Rightarrow> (Inl ErrNotFound, s)
      | Some r \<Rightarrow>
          if r_state r \<noteq> StateRunning then (Inl ErrAlreadyTerminal, s)
          else if r_owner_worker r \<noteq> workerID then (Inl ErrNotOwner, s)
          else (Inr (), put_record s tid
                  (r\<lparr>r_state := StateCompleted, r_completed_at := now, r_owner_worker := ''''\<rparr>)))"

definition may_retry :: "task_record \<Rightarrow> gotime option \<Rightarrow> bool" where
  "may_retry r next =
     (case next of
        None \<Rightarrow> False
      | Some at \<Rightarrow> is_zero_time (t_deadline (r_task r)) \<or> at < t_deadline (r_task r))"

definition Fail ::
  "gotime \<Rightarrow> memory_store \<Rightarrow> string \<Rightarrow> string \<Rightarrow> string \<Rightarrow> gotime option
   \<Rightarrow> (task_error + unit) \<times> memory_store"
where
  "Fail now s tid workerID errMsg nextAttemptAt =
     (case record_of s tid of
        None \<Rightarrow> (Inl ErrNotFound, s)
      | Some r \<Rightarrow>
          if r_state r \<noteq> StateRunning then (Inl ErrAlreadyTerminal, s)
          else if r_owner_worker r \<noteq> workerID then (Inl ErrNotOwner, s)
          else let r1 = r\<lparr>r_last_error := errMsg, r_owner_worker := ''''\<rparr>
               in if may_retry r1 nextAttemptAt then
                    let at = the nextAttemptAt;
                        r2 = r1\<lparr>r_state := StateScheduled, r_next_attempt := at\<rparr>
                    in (Inr (), push_scheduled (put_record s tid r2) (t_queue (r_task r2))
                                  \<lparr>ti_id = tid, ti_when = at\<rparr>)
                  else
                    (Inr (), put_record s tid
                       (r1\<lparr>r_state := StateFailed, r_completed_at := now\<rparr>)))"

definition Cancel :: "gotime \<Rightarrow> memory_store \<Rightarrow> string \<Rightarrow> (task_error + unit) \<times> memory_store" where
  "Cancel now s tid =
     (case record_of s tid of
        None \<Rightarrow> (Inl ErrNotFound, s)
      | Some r \<Rightarrow>
          (case r_state r of
             StatePending \<Rightarrow>
               (Inr (), put_record s tid (r\<lparr>r_state := StateCancelled, r_completed_at := now\<rparr>))
           | StateScheduled \<Rightarrow>
               (Inr (), put_record s tid (r\<lparr>r_state := StateCancelled, r_completed_at := now\<rparr>))
           | StateRunning \<Rightarrow>
               (Inr (), put_record s tid (r\<lparr>r_task := (r_task r)\<lparr>t_max_retries := Some 0\<rparr>\<rparr>))
           | _ \<Rightarrow> (Inl ErrAlreadyTerminal, s)))"

definition Inspect :: "memory_store \<Rightarrow> string \<Rightarrow> task_error + task_record" where
  "Inspect s tid = (case record_of s tid of None \<Rightarrow> Inl ErrNotFound | Some r \<Rightarrow> Inr r)"

subsection \<open>QueueStats\<close>

text \<open>One turn of the loop over the records: the counters and the oldest pending instant.\<close>

definition stats_step ::
  "string \<Rightarrow> queue_stats \<times> gotime \<Rightarrow> task_record \<Rightarrow> queue_stats \<times> gotime"
where
  "stats_step queue st r =
     (let (stats, oldest) = st
      in if t_queue (r_task r) \<noteq> queue then st
         else case r_state r of
             StatePending \<Rightarrow>
               (stats\<lparr>qs_pending := qs_pending stats + 1\<rparr>,
                if is_zero_time oldest \<or> r_enqueued_at r < oldest then r_enqueued_at r else oldest)
           | StateScheduled \<Rightarrow> (stats\<lparr>qs_scheduled := qs_scheduled stats + 1\<rparr>, oldest)
           | StateRunning \<Rightarrow> (stats\<lparr>qs_running := qs_running stats + 1\<rparr>, oldest)
           | StateFailed \<Rightarrow> (stats\<lparr>qs_failed := qs_failed stats + 1\<rparr>, oldest)
           | _ \<Rightarrow> st)"

definition QueueStats :: "gotime \<Rightarrow> memory_store \<Rightarrow> string \<Rightarrow> queue_stats" where
  "QueueStats now s queue =
     (let zero = \<lparr>qs_pending = 0, qs_scheduled = 0, qs_running = 0, qs_failed = 0,
                  qs_oldest_pending_age = 0\<rparr>;
          (stats, oldest) =
            foldl (stats_step (queue_name queue)) (zero, 0) (map snd (s_records s))
      in if \<not> is_zero_time oldest then stats\<lparr>qs_oldest_pending_age := now - oldest\<rparr> else stats)"

subsection \<open>Maintenance: PromoteScheduled, ReclaimExpired, PurgeOlderThan, Close\<close>

function promote_loop ::
  "gotime \<Rightarrow> (string \<times> task_record) list \<Rightarrow> mem_queue \<Rightarrow> nat
   \<Rightarrow> (string \<times> task_record) list \<times> mem_queue \<times> nat"
where
  "promote_loop now recs q promoted =
     (case heap_pop time_less (q_scheduled q) of
        None \<Rightarrow> (recs, q, promoted)
      | Some (_, h') \<Rightarrow>
          let it = q_scheduled q ! 0
          in if ti_when it > now then (recs, q, promoted)
             else
               let q' = q\<lparr>q_scheduled := h'\<rparr>
               in case map_of recs (ti_id it) of
                    None \<Rightarrow> promote_loop now recs q' promoted
                  | Some r \<Rightarrow>
                      if r_state r \<noteq> StateScheduled then promote_loop now recs q' promoted
                      else promote_loop now
                        (alist_put (ti_id it) (r\<lparr>r_state := StatePending\<rparr>) recs)
                        (q'\<lparr>q_pending := heap_push pending_less (q_pending q')
                            \<lparr>p_id = t_id (r_task r), p_priority = t_priority (r_task r),
                             p_enqueued_at = now\<rparr>\<rparr>)
                        (promoted + 1))"
  by pat_completeness auto
termination
  by (relation "measure (\<lambda>(now, recs, q, n). length (q_scheduled q))") (auto dest: heap_pop_length)

declare promote_loop.simps [simp del]

definition PromoteScheduled ::
  "memory_store \<Rightarrow> string \<Rightarrow> gotime \<Rightarrow> nat \<times> memory_store"
where
  "PromoteScheduled s queue now =
     (case s_queues s (queue_name queue) of
        None \<Rightarrow> (0, s)
      | Some q \<Rightarrow>
          let (recs, q', n) = promote_loop now (s_records s) q 0
          in (n, put_queue (s\<lparr>s_records := recs\<rparr>) queue q'))"

function reclaim_loop ::
  "gotime \<Rightarrow> (string \<times> task_record) list \<Rightarrow> mem_queue \<Rightarrow> nat
   \<Rightarrow> (string \<times> task_record) list \<times> mem_queue \<times> nat"
where
  "reclaim_loop now recs q reclaimed =
     (case heap_pop time_less (q_running q) of
        None \<Rightarrow> (recs, q, reclaimed)
      | Some (_, h') \<Rightarrow>
          let it = q_running q ! 0
          in if ti_when it > now then (recs, q, reclaimed)
             else
               let q' = q\<lparr>q_running := h'\<rparr>
               in case map_of recs (ti_id it) of
                    None \<Rightarrow> reclaim_loop now recs q' reclaimed
                  | Some r \<Rightarrow>
                      if r_state r \<noteq> StateRunning \<or> r_visibility_at r \<noteq> ti_when it
                      then reclaim_loop now recs q' reclaimed
                      else reclaim_loop now
                        (alist_put (ti_id it)
                           (r\<lparr>r_state := StatePending, r_owner_worker := ''''\<rparr>) recs)
                        (q'\<lparr>q_pending := heap_push pending_less (q_pending q')
                            \<lparr>p_id = t_id (r_task r), p_priority = t_priority (r_task r),
                             p_enqueued_at = now\<rparr>\<rparr>)
                        (reclaimed + 1))"
  by pat_completeness auto
termination
  by (relation "measure (\<lambda>(now, recs, q, n). length (q_running q))") (auto dest: heap_pop_length)

declare reclaim_loop.simps [simp del]

definition ReclaimExpired ::
  "memory_store \<Rightarrow> string \<Rightarrow> gotime \<Rightarrow> nat \<times> memory_store"
where
  "ReclaimExpired s queue now =
     (case s_queues s (queue_name queue) of
        None \<Rightarrow> (0, s)
      | Some q \<Rightarrow>
          let (recs, q', n) = reclaim_loop now (s_records s) q 0
          in (n, put_queue (s\<lparr>s_records := recs\<rparr>) queue q'))"

definition purgeable :: "gotime \<Rightarrow> task_record \<Rightarrow> bool" where
  "purgeable cutoff r \<longleftrightarrow>
     terminal_state (r_state r) \<and> \<not> is_zero_time (r_completed_at r) \<and> r_completed_at r < cutoff"

definition PurgeOlderThan :: "memory_store \<Rightarrow> gotime \<Rightarrow> nat \<times> memory_store" where
  "PurgeOlderThan s cutoff =
     (length (filter (\<lambda>(_, r). purgeable cutoff r) (s_records s)),
      s\<lparr>s_records := filter (\<lambda>(_, r). \<not> purgeable cutoff r) (s_records s)\<rparr>)"

definition Close :: "memory_store \<Rightarrow> memory_store" where
  "Close s = s\<lparr>s_closed := True, s_queues := Map.empty, s_records := [], s_dedup := Map.empty\<rparr>"

end
