(* ===== verification/Task_Invariant.thy ===== *)
theory Task_Invariant imports Task_Memory
begin

text \<open>
  The invariant of the in-memory task store: the heaps have the heap shape, every heap item whose
  task is still recorded agrees with that record, and every record that is pending, scheduled or
  running is indexed by an item of the matching heap of its own queue. Every operation keeps it
  (for \<open>Enqueue\<close>: when the identifier is new), so it holds in every reachable store, and the
  liveness properties follow from it: no pending task is unclaimable, no due task stays scheduled
  after a promotion pass, no expired lease survives a reclaim pass.
\<close>

subsection \<open>Frame facts\<close>

definition get_queue :: "memory_store \<Rightarrow> string \<Rightarrow> mem_queue" where
  "get_queue s name = (case s_queues s (queue_name name) of Some q \<Rightarrow> q | None \<Rightarrow> newMemQueue)"

lemma queue_name_idem [simp]: "queue_name (queue_name n) = queue_name n"
  by (simp add: queue_name_def)

lemma newMemQueue_simps [simp]:
  "q_pending newMemQueue = []" "q_scheduled newMemQueue = []" "q_running newMemQueue = []"
  by (simp_all add: newMemQueue_def)

lemma put_queue_simps [simp]:
  "s_queues (put_queue s n q) = (s_queues s)(queue_name n \<mapsto> q)"
  "s_records (put_queue s n q) = s_records s"
  "s_dedup (put_queue s n q) = s_dedup s"
  "s_closed (put_queue s n q) = s_closed s"
  "s_dedup_window (put_queue s n q) = s_dedup_window s"
  by (simp_all add: put_queue_def)

lemma put_record_simps [simp]:
  "s_queues (put_record s i r) = s_queues s"
  "s_records (put_record s i r) = alist_put i r (s_records s)"
  "s_dedup (put_record s i r) = s_dedup s"
  "s_closed (put_record s i r) = s_closed s"
  "s_dedup_window (put_record s i r) = s_dedup_window s"
  by (simp_all add: put_record_def)

lemma queueLocked_eq:
  "queueLocked s n = (get_queue s n, s\<lparr>s_queues := (s_queues s)(queue_name n \<mapsto> get_queue s n)\<rparr>)"
  by (auto simp: queueLocked_def get_queue_def fun_upd_idem split: option.splits)

lemma push_pending_simps [simp]:
  "s_queues (push_pending s n it) = (s_queues s)(queue_name n \<mapsto>
     (get_queue s n)\<lparr>q_pending := heap_push pending_less (q_pending (get_queue s n)) it\<rparr>)"
  "s_records (push_pending s n it) = s_records s"
  "s_dedup (push_pending s n it) = s_dedup s"
  "s_closed (push_pending s n it) = s_closed s"
  "s_dedup_window (push_pending s n it) = s_dedup_window s"
  by (simp_all add: push_pending_def queueLocked_eq)

lemma push_scheduled_simps [simp]:
  "s_queues (push_scheduled s n ti) = (s_queues s)(queue_name n \<mapsto>
     (get_queue s n)\<lparr>q_scheduled := heap_push time_less (q_scheduled (get_queue s n)) ti\<rparr>)"
  "s_records (push_scheduled s n ti) = s_records s"
  "s_dedup (push_scheduled s n ti) = s_dedup s"
  "s_closed (push_scheduled s n ti) = s_closed s"
  "s_dedup_window (push_scheduled s n ti) = s_dedup_window s"
  by (simp_all add: push_scheduled_def queueLocked_eq)

lemma push_running_simps [simp]:
  "s_queues (push_running s n ti) = (s_queues s)(queue_name n \<mapsto>
     (get_queue s n)\<lparr>q_running := heap_push time_less (q_running (get_queue s n)) ti\<rparr>)"
  "s_records (push_running s n ti) = s_records s"
  "s_dedup (push_running s n ti) = s_dedup s"
  "s_closed (push_running s n ti) = s_closed s"
  "s_dedup_window (push_running s n ti) = s_dedup_window s"
  by (simp_all add: push_running_def queueLocked_eq)

lemma get_queue_put_record [simp]: "get_queue (put_record s i r) n = get_queue s n"
  by (simp add: get_queue_def)

lemma fill_task_simps [simp]:
  "t_id (fill_task n t) = (if t_id t = '''' then n else t_id t)"
  "t_queue (fill_task n t) = queue_name (t_queue t)"
  "t_priority (fill_task n t) = t_priority t"
  "t_delay_until (fill_task n t) = t_delay_until t"
  "t_unique_key (fill_task n t) = t_unique_key t"
  by (simp_all add: fill_task_def)

lemma new_record_simps [simp]:
  "r_task (new_record now st t) = t" "r_state (new_record now st t) = st"
  "r_attempts (new_record now st t) = 0"
  by (simp_all add: new_record_def)

subsection \<open>The invariant\<close>

definition due_at :: "task_record \<Rightarrow> gotime" where
  "due_at r = (if r_attempts r = 0 then t_delay_until (r_task r) else r_next_attempt r)"

definition queue_inv :: "(string \<rightharpoonup> task_record) \<Rightarrow> string \<Rightarrow> mem_queue \<Rightarrow> bool" where
  "queue_inv recs name q \<longleftrightarrow>
     is_heap pending_less (q_pending q) \<and> is_heap time_less (q_scheduled q) \<and>
     is_heap time_less (q_running q) \<and> distinct (map ti_id (q_scheduled q)) \<and>
     (\<forall>it \<in> set (q_pending q). \<forall>r. recs (p_id it) = Some r \<longrightarrow>
        t_queue (r_task r) = name \<and> p_priority it = t_priority (r_task r)) \<and>
     (\<forall>it \<in> set (q_scheduled q). \<forall>r. recs (ti_id it) = Some r \<longrightarrow>
        t_queue (r_task r) = name \<and>
        (r_state r = StateScheduled \<and> ti_when it = due_at r \<or> terminal_state (r_state r))) \<and>
     (\<forall>it \<in> set (q_running q). \<forall>r. recs (ti_id it) = Some r \<longrightarrow> t_queue (r_task r) = name)"

definition indexed_in :: "mem_queue \<Rightarrow> string \<Rightarrow> task_record \<Rightarrow> bool" where
  "indexed_in q i r \<longleftrightarrow>
     (r_state r = StatePending \<longrightarrow> i \<in> p_id ` set (q_pending q)) \<and>
     (r_state r = StateScheduled \<longrightarrow> \<lparr>ti_id = i, ti_when = due_at r\<rparr> \<in> set (q_scheduled q)) \<and>
     (r_state r = StateRunning \<longrightarrow>
        0 < r_attempts r \<and> \<lparr>ti_id = i, ti_when = r_visibility_at r\<rparr> \<in> set (q_running q))"

definition record_inv :: "(string \<rightharpoonup> mem_queue) \<Rightarrow> string \<Rightarrow> task_record \<Rightarrow> bool" where
  "record_inv qs i r \<longleftrightarrow>
     t_id (r_task r) = i \<and> t_queue (r_task r) \<noteq> '''' \<and>
     (\<exists>q. qs (t_queue (r_task r)) = Some q \<and> indexed_in q i r)"

definition store_inv :: "memory_store \<Rightarrow> bool" where
  "store_inv s \<longleftrightarrow>
     distinct (map fst (s_records s)) \<and>
     (\<forall>name q. s_queues s name = Some q \<longrightarrow> name \<noteq> '''' \<and> queue_inv (record_of s) name q) \<and>
     (\<forall>i r. record_of s i = Some r \<longrightarrow> record_inv (s_queues s) i r)"

definition item_ids :: "mem_queue \<Rightarrow> string set" where
  "item_ids q = p_id ` set (q_pending q) \<union> ti_id ` set (q_scheduled q) \<union> ti_id ` set (q_running q)"

definition fresh_id :: "memory_store \<Rightarrow> string \<Rightarrow> bool" where
  "fresh_id s i \<longleftrightarrow>
     record_of s i = None \<and> (\<forall>name q. s_queues s name = Some q \<longrightarrow> i \<notin> item_ids q)"

lemma store_inv_queueD:
  "store_inv s \<Longrightarrow> s_queues s n = Some q \<Longrightarrow> queue_inv (record_of s) n q \<and> n \<noteq> ''''"
  by (auto simp: store_inv_def)

lemma store_inv_recordD:
  "store_inv s \<Longrightarrow> record_of s i = Some r \<Longrightarrow> record_inv (s_queues s) i r"
  by (auto simp: store_inv_def)

lemma queue_inv_item_queue:
  "queue_inv recs n q \<Longrightarrow> i \<in> item_ids q \<Longrightarrow> recs i = Some r \<Longrightarrow> t_queue (r_task r) = n"
  by (auto simp: queue_inv_def item_ids_def)

lemma queue_inv_upd_other:
  assumes "queue_inv recs n q" "i \<notin> item_ids q"
  shows "queue_inv (recs(i \<mapsto> r)) n q"
  using assms by (force simp: queue_inv_def item_ids_def)

lemma is_heap_upd_queue:
  "is_heap time_less h \<Longrightarrow> is_heap time_less (heap_push time_less h x)"
  "is_heap pending_less h2 \<Longrightarrow> is_heap pending_less (heap_push pending_less h2 y)"
  by (rule timed.is_heap_push pending.is_heap_push; assumption)+

lemma distinct_ids_push [simp]:
  "distinct (map ti_id (heap_push lt h x)) \<longleftrightarrow> ti_id x \<notin> ti_id ` set h \<and> distinct (map ti_id h)"
proof -
  have "mset (map ti_id (heap_push lt h x)) = mset (map ti_id (x # h))"
    by (simp add: mset_map [symmetric] del: mset_map) simp
  then have "distinct (map ti_id (heap_push lt h x)) = distinct (map ti_id (x # h))"
    by (rule mset_eq_imp_distinct_iff)
  then show ?thesis by simp
qed

lemma distinct_ids_pop:
  assumes "heap_pop lt h = Some (x, h')"
  shows "distinct (map ti_id h) \<longleftrightarrow> ti_id x \<notin> ti_id ` set h' \<and> distinct (map ti_id h')"
proof -
  have "mset (map ti_id h) = mset (map ti_id (x # h'))"
    using heap_pop_mset [OF assms] by simp
  then have "distinct (map ti_id h) = distinct (map ti_id (x # h'))"
    by (rule mset_eq_imp_distinct_iff)
  then show ?thesis by simp
qed

text \<open>
  The one shape every mutation has: one record and one queue change. The invariant is kept when
  the new queue is right for the new records, the new record is indexed in it, and the records
  that were indexed in the old queue still are.
\<close>

lemma store_inv_update:
  assumes inv: "store_inv s"
    and recs: "s_records s' = alist_put i r' (s_records s)"
    and qs: "s_queues s' = (s_queues s)(n \<mapsto> q')"
    and n: "n \<noteq> ''''" "t_queue (r_task r') = n" and i: "t_id (r_task r') = i"
    and other: "\<And>m q. m \<noteq> n \<Longrightarrow> s_queues s m = Some q \<Longrightarrow> i \<notin> item_ids q"
    and q': "queue_inv ((record_of s)(i \<mapsto> r')) n q'"
    and r': "indexed_in q' i r'"
    and keep: "\<And>j r q. j \<noteq> i \<Longrightarrow> record_of s j = Some r \<Longrightarrow> t_queue (r_task r) = n \<Longrightarrow>
       s_queues s n = Some q \<Longrightarrow> indexed_in q j r \<Longrightarrow> indexed_in q' j r"
  shows "store_inv s'"
proof -
  have rec_eq: "record_of s' = (record_of s)(i \<mapsto> r')" by (simp add: recs)
  have "distinct (map fst (s_records s'))"
    using inv by (simp add: recs store_inv_def)
  moreover have "m \<noteq> '''' \<and> queue_inv (record_of s') m q" if "s_queues s' m = Some q" for m q
  proof (cases "m = n")
    case True
    then show ?thesis using that qs q' n rec_eq by simp
  next
    case False
    then have "s_queues s m = Some q" using that qs by simp
    then show ?thesis
      using store_inv_queueD [OF inv] other [OF False] by (simp add: rec_eq queue_inv_upd_other)
  qed
  moreover have "record_inv (s_queues s') j r" if "record_of s' j = Some r" for j r
  proof (cases "j = i")
    case True
    then show ?thesis using that rec_eq n i r' qs by (simp add: record_inv_def)
  next
    case False
    then have "record_of s j = Some r" using that rec_eq by simp
    then show ?thesis
      using store_inv_recordD [OF inv] keep [OF False] qs by (fastforce simp: record_inv_def)
  qed
  ultimately show ?thesis by (simp add: store_inv_def)
qed

lemma store_inv_other:
  assumes "store_inv s" "record_of s i = Some r" "m \<noteq> t_queue (r_task r)" "s_queues s m = Some q"
  shows "i \<notin> item_ids q"
  using assms store_inv_queueD queue_inv_item_queue by blast

lemma store_inv_own_queue:
  assumes "store_inv s" "record_of s i = Some r"
  obtains q where "s_queues s (t_queue (r_task r)) = Some q" "indexed_in q i r"
    "queue_inv (record_of s) (t_queue (r_task r)) q" "t_queue (r_task r) \<noteq> ''''"
    "t_id (r_task r) = i"
  using assms store_inv_recordD store_inv_queueD unfolding record_inv_def by metis

lemma queue_name_nonempty [simp]: "n \<noteq> '''' \<Longrightarrow> queue_name n = n"
  by (simp add: queue_name_def)

lemma queue_name_not_Nil [simp]: "queue_name n \<noteq> ''''"
  by (simp add: queue_name_def)

subsection \<open>Changing one record, pushing and popping one item\<close>

lemma queue_inv_upd:
  assumes "queue_inv recs n q" "t_queue (r_task r') = n"
    and "\<And>it. it \<in> set (q_pending q) \<Longrightarrow> p_id it = i \<Longrightarrow> p_priority it = t_priority (r_task r')"
    and "\<And>it. it \<in> set (q_scheduled q) \<Longrightarrow> ti_id it = i \<Longrightarrow>
      r_state r' = StateScheduled \<and> ti_when it = due_at r' \<or> terminal_state (r_state r')"
  shows "queue_inv (recs(i \<mapsto> r')) n q"
  using assms by (simp add: queue_inv_def)

lemma queue_inv_push_pending:
  assumes "queue_inv recs n q"
    and "\<And>r. recs (p_id it) = Some r \<Longrightarrow> t_queue (r_task r) = n \<and> p_priority it = t_priority (r_task r)"
  shows "queue_inv recs n (q\<lparr>q_pending := heap_push pending_less (q_pending q) it\<rparr>)"
  using assms by (simp add: queue_inv_def is_heap_upd_queue)

lemma queue_inv_push_scheduled:
  assumes "queue_inv recs n q" "ti_id it \<notin> ti_id ` set (q_scheduled q)"
    and "\<And>r. recs (ti_id it) = Some r \<Longrightarrow> t_queue (r_task r) = n \<and>
      (r_state r = StateScheduled \<and> ti_when it = due_at r \<or> terminal_state (r_state r))"
  shows "queue_inv recs n (q\<lparr>q_scheduled := heap_push time_less (q_scheduled q) it\<rparr>)"
  using assms by (simp add: queue_inv_def is_heap_upd_queue)

lemma queue_inv_push_running:
  assumes "queue_inv recs n q"
    and "\<And>r. recs (ti_id it) = Some r \<Longrightarrow> t_queue (r_task r) = n"
  shows "queue_inv recs n (q\<lparr>q_running := heap_push time_less (q_running q) it\<rparr>)"
  using assms by (simp add: queue_inv_def is_heap_upd_queue)

lemma queue_inv_pop_pending:
  assumes "queue_inv recs n q" "is_heap pending_less h" "set h \<subseteq> set (q_pending q)"
  shows "queue_inv recs n (q\<lparr>q_pending := h\<rparr>)"
  using assms by (auto simp: queue_inv_def)

lemma queue_inv_pop_scheduled:
  assumes "queue_inv recs n q" "heap_pop time_less (q_scheduled q) = Some (it, h)"
  shows "queue_inv recs n (q\<lparr>q_scheduled := h\<rparr>)"
  using assms heap_pop_set [OF assms(2)] timed.is_heap_pop [OF _ assms(2)]
    distinct_ids_pop [OF assms(2)]
  by (auto simp: queue_inv_def)

lemma queue_inv_pop_running:
  assumes "queue_inv recs n q" "heap_pop time_less (q_running q) = Some (it, h)"
  shows "queue_inv recs n (q\<lparr>q_running := h\<rparr>)"
  using assms heap_pop_set [OF assms(2)] timed.is_heap_pop [OF _ assms(2)]
  by (auto simp: queue_inv_def)

lemma queue_inv_pending_item:
  "queue_inv recs n q \<Longrightarrow> recs i = Some r \<Longrightarrow> it \<in> set (q_pending q) \<Longrightarrow> p_id it = i \<Longrightarrow>
   t_queue (r_task r) = n \<and> p_priority it = t_priority (r_task r)"
  by (simp add: queue_inv_def)

lemma queue_inv_scheduled_item:
  "queue_inv recs n q \<Longrightarrow> recs i = Some r \<Longrightarrow> it \<in> set (q_scheduled q) \<Longrightarrow> ti_id it = i \<Longrightarrow>
   t_queue (r_task r) = n \<and>
   (r_state r = StateScheduled \<and> ti_when it = due_at r \<or> terminal_state (r_state r))"
  by (simp add: queue_inv_def)

lemma queue_inv_running_item:
  "queue_inv recs n q \<Longrightarrow> recs i = Some r \<Longrightarrow> it \<in> set (q_running q) \<Longrightarrow> ti_id it = i \<Longrightarrow>
   t_queue (r_task r) = n"
  by (simp add: queue_inv_def)

lemma queue_inv_not_scheduled:
  assumes "queue_inv recs n q" "recs i = Some r" "r_state r = StateRunning \<or> r_state r = StatePending"
  shows "i \<notin> ti_id ` set (q_scheduled q)"
  using assms queue_inv_scheduled_item by (fastforce simp: terminal_state_def)

lemma indexed_in_push [intro]:
  "indexed_in q j r \<Longrightarrow> indexed_in (q\<lparr>q_pending := heap_push pending_less (q_pending q) pit\<rparr>) j r"
  "indexed_in q j r \<Longrightarrow> indexed_in (q\<lparr>q_scheduled := heap_push time_less (q_scheduled q) ti\<rparr>) j r"
  "indexed_in q j r \<Longrightarrow> indexed_in (q\<lparr>q_running := heap_push time_less (q_running q) ti\<rparr>) j r"
  by (simp_all add: indexed_in_def)

subsection \<open>Complete, Cancel, Fail and Heartbeat keep the invariant\<close>

lemma store_inv_put_record:
  assumes inv: "store_inv s" and r: "record_of s i = Some r"
    and same: "t_id (r_task r') = t_id (r_task r)" "t_queue (r_task r') = t_queue (r_task r)"
      "t_priority (r_task r') = t_priority (r_task r)"
    and st: "terminal_state (r_state r') \<or> r_state r' = r_state r \<and> r_attempts r' = r_attempts r \<and>
       r_visibility_at r' = r_visibility_at r \<and> due_at r' = due_at r"
  shows "store_inv (put_record s i r')"
proof -
  obtain q where q: "s_queues s (t_queue (r_task r)) = Some q" "indexed_in q i r"
    "queue_inv (record_of s) (t_queue (r_task r)) q" "t_queue (r_task r) \<noteq> ''''" "t_id (r_task r) = i"
    using inv r by (rule store_inv_own_queue)
  note item = queue_inv_pending_item [OF q(3) r] queue_inv_scheduled_item [OF q(3) r]
  show ?thesis
  proof (rule store_inv_update [OF inv, of _ i r' "t_queue (r_task r)" q])
    show "queue_inv ((record_of s)(i \<mapsto> r')) (t_queue (r_task r)) q"
      by (rule queue_inv_upd [OF q(3) same(2)]) (use item st same(3) in auto)
    show "indexed_in q i r'"
      using q(2) st by (auto simp: indexed_in_def terminal_state_def)
    show "i \<notin> item_ids q'" if "m \<noteq> t_queue (r_task r)" "s_queues s m = Some q'" for m q'
      using store_inv_other [OF inv r that] .
  qed (use q same in \<open>auto simp: fun_upd_idem\<close>)
qed

lemma store_inv_push_scheduled:
  assumes inv: "store_inv s" and r: "record_of s i = Some r" and run: "r_state r = StateRunning"
    and same: "t_id (r_task r') = t_id (r_task r)" "t_queue (r_task r') = t_queue (r_task r)"
      "t_priority (r_task r') = t_priority (r_task r)"
    and st: "r_state r' = StateScheduled" "due_at r' = at"
  shows "store_inv (push_scheduled (put_record s i r') (t_queue (r_task r)) \<lparr>ti_id = i, ti_when = at\<rparr>)"
proof -
  obtain q where q: "s_queues s (t_queue (r_task r)) = Some q" "indexed_in q i r"
    "queue_inv (record_of s) (t_queue (r_task r)) q" "t_queue (r_task r) \<noteq> ''''" "t_id (r_task r) = i"
    using inv r by (rule store_inv_own_queue)
  let ?q' = "q\<lparr>q_scheduled := heap_push time_less (q_scheduled q) \<lparr>ti_id = i, ti_when = at\<rparr>\<rparr>"
  have none: "i \<notin> ti_id ` set (q_scheduled q)"
    using queue_inv_not_scheduled [OF q(3) r] run by simp
  show ?thesis
  proof (rule store_inv_update [OF inv, of _ i r' "t_queue (r_task r)" ?q'])
    show "queue_inv ((record_of s)(i \<mapsto> r')) (t_queue (r_task r)) ?q'"
      by (intro queue_inv_push_scheduled queue_inv_upd [OF q(3)])
        (use none same st queue_inv_pending_item [OF q(3) r] in auto)
    show "indexed_in ?q' i r'" using st by (simp add: indexed_in_def)
    show "i \<notin> item_ids q'" if "m \<noteq> t_queue (r_task r)" "s_queues s m = Some q'" for m q'
      using store_inv_other [OF inv r that] .
  qed (use q same in \<open>auto simp: get_queue_def\<close>)
qed

lemma store_inv_push_running:
  assumes inv: "store_inv s" and r: "record_of s i = Some r" and run: "r_state r = StateRunning"
    and same: "r_task r' = r_task r" "r_attempts r' = r_attempts r"
    and st: "r_state r' = StateRunning" "r_visibility_at r' = at"
  shows "store_inv (push_running (put_record s i r') (t_queue (r_task r)) \<lparr>ti_id = i, ti_when = at\<rparr>)"
proof -
  obtain q where q: "s_queues s (t_queue (r_task r)) = Some q" "indexed_in q i r"
    "queue_inv (record_of s) (t_queue (r_task r)) q" "t_queue (r_task r) \<noteq> ''''" "t_id (r_task r) = i"
    using inv r by (rule store_inv_own_queue)
  let ?q' = "q\<lparr>q_running := heap_push time_less (q_running q) \<lparr>ti_id = i, ti_when = at\<rparr>\<rparr>"
  have none: "i \<notin> ti_id ` set (q_scheduled q)"
    using queue_inv_not_scheduled [OF q(3) r] run by simp
  show ?thesis
  proof (rule store_inv_update [OF inv, of _ i r' "t_queue (r_task r)" ?q'])
    show "queue_inv ((record_of s)(i \<mapsto> r')) (t_queue (r_task r)) ?q'"
      by (intro queue_inv_push_running queue_inv_upd [OF q(3)])
        (use none same st queue_inv_pending_item [OF q(3) r] in auto)
    show "indexed_in ?q' i r'" using st q(2) run same by (simp add: indexed_in_def)
    show "i \<notin> item_ids q'" if "m \<noteq> t_queue (r_task r)" "s_queues s m = Some q'" for m q'
      using store_inv_other [OF inv r that] .
  qed (use q same in \<open>auto simp: get_queue_def\<close>)
qed

lemma store_inv_Heartbeat: "store_inv s \<Longrightarrow> store_inv (snd (Heartbeat now s i w ext))"
  by (simp add: Heartbeat_def Let_def store_inv_push_running split: option.split)

lemma store_inv_Complete: "store_inv s \<Longrightarrow> store_inv (snd (Complete now s i w))"
  by (simp add: Complete_def terminal_state_def store_inv_put_record split: option.split)

lemma store_inv_Cancel: "store_inv s \<Longrightarrow> store_inv (snd (Cancel now s i))"
  by (simp add: Cancel_def terminal_state_def due_at_def store_inv_put_record
      split: option.split task_state.split)

lemma store_inv_Fail:
  assumes inv: "store_inv s"
  shows "store_inv (snd (Fail now s i w msg nxt))"
proof (cases "record_of s i")
  case (Some r)
  show ?thesis
  proof (cases "r_state r = StateRunning \<and> r_owner_worker r = w")
    case True
    obtain q where "indexed_in q i r" using inv Some by (rule store_inv_own_queue)
    with True have "0 < r_attempts r" by (simp add: indexed_in_def)
    then show ?thesis
      using True Some inv
      by (simp add: Fail_def Let_def terminal_state_def due_at_def store_inv_put_record
          store_inv_push_scheduled)
  qed (use inv Some in \<open>auto simp: Fail_def\<close>)
qed (use inv in \<open>simp add: Fail_def\<close>)

subsection \<open>Enqueue keeps the invariant\<close>

lemma queue_inv_get_queue: "store_inv s \<Longrightarrow> n \<noteq> '''' \<Longrightarrow> queue_inv (record_of s) n (get_queue s n)"
  using store_inv_queueD by (auto simp: get_queue_def queue_inv_def is_heap_def split: option.splits)

lemma store_inv_insert_task:
  assumes inv: "store_inv s" and fresh: "fresh_id s (t_id t)" and q: "t_queue t \<noteq> ''''"
  shows "store_inv (snd (insert_task now s t))"
proof -
  let ?q = "get_queue s (t_queue t)"
  have none: "t_id t \<notin> item_ids ?q"
    using fresh by (auto simp: get_queue_def fresh_id_def item_ids_def split: option.splits)
  note qi = queue_inv_upd_other [OF queue_inv_get_queue [OF inv q] none]
  have other: "t_id t \<notin> item_ids q'" if "s_queues s m = Some q'" for m q'
    using fresh that by (auto simp: fresh_id_def)
  show ?thesis
  proof (cases "t_delay_until t \<noteq> 0 \<and> t_delay_until t > now")
    case True
    let ?r = "new_record now StateScheduled t"
    let ?it = "\<lparr>ti_id = t_id t, ti_when = t_delay_until t\<rparr>"
    let ?q' = "?q\<lparr>q_scheduled := heap_push time_less (q_scheduled ?q) ?it\<rparr>"
    have "queue_inv ((record_of s)(t_id t \<mapsto> ?r)) (t_queue t) ?q'"
      by (rule queue_inv_push_scheduled [OF qi]) (use none in \<open>auto simp: due_at_def item_ids_def\<close>)
    then show ?thesis
      using True q other
      by (intro store_inv_update [OF inv, of _ "t_id t" ?r "t_queue t" ?q'])
        (auto simp: insert_task_def Let_def indexed_in_def due_at_def get_queue_def)
  next
    case False
    let ?r = "new_record now StatePending t"
    let ?it = "\<lparr>p_id = t_id t, p_priority = t_priority t, p_enqueued_at = now\<rparr>"
    let ?q' = "?q\<lparr>q_pending := heap_push pending_less (q_pending ?q) ?it\<rparr>"
    have "queue_inv ((record_of s)(t_id t \<mapsto> ?r)) (t_queue t) ?q'"
      by (rule queue_inv_push_pending [OF qi]) auto
    then show ?thesis
      using False q other
      by (intro store_inv_update [OF inv, of _ "t_id t" ?r "t_queue t" ?q'])
        (auto simp: insert_task_def Let_def indexed_in_def get_queue_def)
  qed
qed

lemma store_inv_dedup [simp]: "store_inv (s\<lparr>s_dedup := d\<rparr>) \<longleftrightarrow> store_inv s"
  by (simp add: store_inv_def)

lemma fresh_id_dedup [simp]: "fresh_id (s\<lparr>s_dedup := d\<rparr>) i \<longleftrightarrow> fresh_id s i"
  by (simp add: fresh_id_def)

lemma store_inv_Enqueue:
  assumes "store_inv s" "fresh_id s (if t_id t = '''' then newid else t_id t)"
  shows "store_inv (snd (Enqueue now0 now newid s t))"
  using assms
  by (simp add: Enqueue_def Let_def evictDedupExpiredLocked_def case_prod_unfold
      store_inv_insert_task split: option.split)

end
