(* ===== verification/Task_Claim.thy ===== *)
theory Task_Claim imports Task_Invariant
begin

text \<open>
  \<open>Claim\<close>, \<open>PromoteScheduled\<close>, \<open>ReclaimExpired\<close>, \<open>PurgeOlderThan\<close> and \<open>Close\<close> of the in-memory
  task store: what their lazy-delete loops compute, and that they keep the invariant.
\<close>

subsection \<open>The claim loop\<close>

definition live :: "(string \<times> task_record) list \<Rightarrow> pending_item \<Rightarrow> bool" where
  "live recs it = (case map_of recs (p_id it) of Some r \<Rightarrow> r_state r = StatePending | None \<Rightarrow> False)"

lemma live_iff [simp]: "map_of recs (p_id it) = Some r \<Longrightarrow> live recs it \<longleftrightarrow> r_state r = StatePending"
  by (simp add: live_def)

lemma claim_pop_cases:
  obtains (empty) "h = []" "claim_pop recs h = (None, [])"
  | (stale) it h' where "heap_pop pending_less h = Some (it, h')" "\<not> live recs it"
      "claim_pop recs h = claim_pop recs h'"
  | (found) it h' r where "heap_pop pending_less h = Some (it, h')" "map_of recs (p_id it) = Some r"
      "r_state r = StatePending" "claim_pop recs h = (Some (p_id it, r), h')"
proof (cases "heap_pop pending_less h")
  case None
  then show thesis using empty claim_pop.simps [of recs h] by simp
next
  case (Some p)
  then obtain it h' where pop: "heap_pop pending_less h = Some (it, h')" by (cases p) auto
  show thesis
  proof (cases "live recs it")
    case True
    then show thesis using pop found claim_pop.simps [of recs h]
      by (auto simp: live_def split: option.splits)
  next
    case False
    then show thesis using pop stale claim_pop.simps [of recs h]
      by (auto simp: live_def split: option.splits)
  qed
qed

lemma claim_pop_heap:
  "is_heap pending_less h \<Longrightarrow> is_heap pending_less (snd (claim_pop recs h))"
proof (induction h rule: measure_induct_rule [where f = length])
  case (less h)
  show ?case
    using less heap_pop_length [of pending_less h] pending.is_heap_pop [of h]
    by (cases rule: claim_pop_cases [of h recs]) auto
qed

lemma claim_pop_subset: "set (snd (claim_pop recs h)) \<subseteq> set h"
proof (induction h rule: measure_induct_rule [where f = length])
  case (less h)
  show ?case
    using less heap_pop_length [of pending_less h] heap_pop_set [of pending_less h]
    by (cases rule: claim_pop_cases [of h recs]) fastforce+
qed

lemma claim_pop_keeps_live:
  "it \<in> set h \<Longrightarrow> live recs it \<Longrightarrow>
   it \<in> set (snd (claim_pop recs h)) \<or> (\<exists>r. fst (claim_pop recs h) = Some (p_id it, r))"
proof (induction h rule: measure_induct_rule [where f = length])
  case (less h)
  show ?case
    using less heap_pop_length [of pending_less h] heap_pop_set [of pending_less h]
    by (cases rule: claim_pop_cases [of h recs]) fastforce+
qed

lemma claim_pop_None: "fst (claim_pop recs h) = None \<Longrightarrow> it \<in> set h \<Longrightarrow> \<not> live recs it"
proof (induction h rule: measure_induct_rule [where f = length])
  case (less h)
  show ?case
    using less heap_pop_length [of pending_less h] heap_pop_set [of pending_less h]
    by (cases rule: claim_pop_cases [of h recs]) fastforce+
qed

lemma claim_pop_SomeD:
  "fst (claim_pop recs h) = Some (i, r) \<Longrightarrow> is_heap pending_less h \<Longrightarrow>
   map_of recs i = Some r \<and> r_state r = StatePending \<and>
   (\<exists>it \<in> set h. p_id it = i \<and> (\<forall>it' \<in> set h. live recs it' \<longrightarrow> \<not> pending_less it' it))"
proof (induction h rule: measure_induct_rule [where f = length])
  case (less h)
  show ?case
  proof (cases rule: claim_pop_cases [of h recs])
    case (stale it h')
    then have "length h' < length h" using heap_pop_length by fastforce
    from less.IH [OF this] stale less.prems pending.is_heap_pop [of h]
    show ?thesis using heap_pop_set [OF stale(1)] by auto
  next
    case (found it h' r')
    then show ?thesis
      using less.prems heap_pop_set [OF found(1)] pending.heap_pop_least [OF less.prems(2) found(1)]
      by auto
  qed (use less in auto)
qed
lemma claimed_record_simps [simp]:
  "r_task (claimed_record now w vis r) = r_task r"
  "r_state (claimed_record now w vis r) = StateRunning"
  "r_attempts (claimed_record now w vis r) = Suc (r_attempts r)"
  "r_owner_worker (claimed_record now w vis r) = w"
  "r_visibility_at (claimed_record now w vis r) = now + vis"
  by (simp_all add: claimed_record_def)

lemma store_inv_put_queue:
  assumes inv: "store_inv s" and n: "n \<noteq> ''''" and q': "queue_inv (record_of s) n q'"
    and keep: "\<And>j r q. record_of s j = Some r \<Longrightarrow> t_queue (r_task r) = n \<Longrightarrow>
       s_queues s n = Some q \<Longrightarrow> indexed_in q j r \<Longrightarrow> indexed_in q' j r"
  shows "store_inv (put_queue s n q')"
proof -
  have "record_inv ((s_queues s)(n \<mapsto> q')) j r" if "record_of s j = Some r" for j r
    using store_inv_recordD [OF inv that] keep [OF that] by (auto simp: record_inv_def)
  then show ?thesis using inv n q' by (auto simp: store_inv_def)
qed

lemma queue_name_put_queue [simp]: "put_queue s (queue_name n) q = put_queue s n q"
  by (simp add: put_queue_def)

text \<open>What \<open>Claim\<close> does on a queue with a claimable task, and on one without.\<close>

lemma Claim_cases:
  assumes inv: "store_inv s" and q: "s_queues s (queue_name queue) = Some q" and opn: "\<not> s_closed s"
  obtains (none) h where "Claim now s queue w vis = (Inr None, put_queue s queue (q\<lparr>q_pending := h\<rparr>))"
      "is_heap pending_less h" "set h \<subseteq> set (q_pending q)"
      "\<And>it. it \<in> set (q_pending q) \<Longrightarrow> \<not> live (s_records s) it"
  | (some) i r h where
      "Claim now s queue w vis =
         (Inr (Some (claimed_record now w vis r)),
          put_queue (put_record s i (claimed_record now w vis r)) queue
            (q\<lparr>q_pending := h, q_running := heap_push time_less (q_running q)
               \<lparr>ti_id = i, ti_when = now + vis\<rparr>\<rparr>))"
      "record_of s i = Some r" "r_state r = StatePending" "t_queue (r_task r) = queue_name queue"
      "is_heap pending_less h" "set h \<subseteq> set (q_pending q)"
      "\<And>it. it \<in> set (q_pending q) \<Longrightarrow> live (s_records s) it \<Longrightarrow> it \<in> set h \<or> p_id it = i"
      "\<exists>it \<in> set (q_pending q). p_id it = i \<and>
         (\<forall>it' \<in> set (q_pending q). live (s_records s) it' \<longrightarrow> \<not> pending_less it' it)"
proof (cases "claim_pop (s_records s) (q_pending q)")
  case (Pair res h)
  have qi: "queue_inv (record_of s) (queue_name queue) q" using inv q store_inv_queueD by blast
  then have heap: "is_heap pending_less (q_pending q)" by (simp add: queue_inv_def)
  have h: "is_heap pending_less h" "set h \<subseteq> set (q_pending q)"
    using claim_pop_heap [OF heap] claim_pop_subset Pair by (metis snd_conv)+
  show thesis
  proof (cases res)
    case None
    have "Claim now s queue w vis = (Inr None, put_queue s queue (q\<lparr>q_pending := h\<rparr>))"
      using Pair None q opn
      by (auto simp: Claim_def put_queue_def fun_upd_idem claim_pop.simps)
    then show thesis
      using none h claim_pop_None Pair None by (metis fst_conv)
  next
    case (Some p)
    then obtain i r where res: "claim_pop (s_records s) (q_pending q) = (Some (i, r), h)"
      using Pair by (cases p) auto
    note D = claim_pop_SomeD [OF _ heap, of "s_records s" i r, unfolded res, simplified]
    have ne: "q_pending q \<noteq> []" using D by auto
    have own: "t_queue (r_task r) = queue_name queue" "t_id (r_task r) = i"
      using D queue_inv_pending_item [OF qi] store_inv_recordD [OF inv, of i r]
      by (auto simp: record_inv_def)
    have keep: "it \<in> set h \<or> p_id it = i" if "it \<in> set (q_pending q)" "live (s_records s) it" for it
      using claim_pop_keeps_live [OF that] res by auto
    show thesis
      by (rule some [where i = i and r = r and h = h])
        (use D ne own q opn res h keep in
          \<open>auto simp: Claim_def Let_def\<close>)
  qed
qed

lemma store_inv_Claim:
  assumes inv: "store_inv s"
  shows "store_inv (snd (Claim now s queue w vis))"
proof (cases "s_closed s \<or> s_queues s (queue_name queue) = None")
  case True
  then show ?thesis using inv by (auto simp: Claim_def)
next
  case False
  then obtain q where q: "s_queues s (queue_name queue) = Some q" and opn: "\<not> s_closed s" by auto
  have qi: "queue_inv (record_of s) (queue_name queue) q" using inv q store_inv_queueD by blast
  show ?thesis
    using inv q opn
  proof (cases rule: Claim_cases [where now = now and w = w and vis = vis])
    case (none h)
    have "store_inv (put_queue s (queue_name queue) (q\<lparr>q_pending := h\<rparr>))"
    proof (rule store_inv_put_queue [OF inv])
      show "queue_inv (record_of s) (queue_name queue) (q\<lparr>q_pending := h\<rparr>)"
        by (rule queue_inv_pop_pending [OF qi none(2,3)])
      show "indexed_in (q\<lparr>q_pending := h\<rparr>) j r"
        if "record_of s j = Some r" "s_queues s (queue_name queue) = Some q'" "indexed_in q' j r"
        for j r q'
        using that q none(4) by (fastforce simp: indexed_in_def)
    qed simp
    then show ?thesis using none(1) by simp
  next
    case (some i r h)
    let ?r = "claimed_record now w vis r"
    let ?q1 = "q\<lparr>q_pending := h\<rparr>" and ?it = "\<lparr>ti_id = i, ti_when = now + vis\<rparr>"
    let ?q2 = "?q1\<lparr>q_running := heap_push time_less (q_running ?q1) ?it\<rparr>"
    have idle: "i \<notin> ti_id ` set (q_scheduled q)"
      by (rule queue_inv_not_scheduled [OF qi some(2)]) (simp add: some)
    have "store_inv (put_queue (put_record s i ?r) queue ?q2)"
    proof (rule store_inv_update [OF inv, of _ i ?r "queue_name queue" ?q2])
      show "queue_inv ((record_of s)(i \<mapsto> ?r)) (queue_name queue) ?q2"
        by (intro queue_inv_push_running queue_inv_upd [OF queue_inv_pop_pending [OF qi some(5,6)]])
          (use some(4,6) idle queue_inv_pending_item [OF qi some(2)] in auto)
      show "t_id (r_task ?r) = i"
        using store_inv_recordD [OF inv some(2)] by (simp add: record_inv_def)
      show "i \<notin> item_ids q'" if "m \<noteq> queue_name queue" "s_queues s m = Some q'" for m q'
        using store_inv_other [OF inv some(2)] that some(4) by simp
      show "indexed_in ?q2 j r'"
        if "j \<noteq> i" "record_of s j = Some r'" "s_queues s (queue_name queue) = Some q'" "indexed_in q' j r'"
        for j r' q'
        using that q some(7) by (fastforce simp: indexed_in_def)
    qed (use some(4) in \<open>auto simp: indexed_in_def\<close>)
    then show ?thesis using some(1) by simp
  qed
qed

end
