(* ===== verification/Task_Maintenance.thy ===== *)
theory Task_Maintenance imports Task_Claim
begin

text \<open>
  The maintenance passes of the in-memory task store. \<open>PromoteScheduled\<close> and \<open>ReclaimExpired\<close>
  walk a heap of possibly stale items; the lemmas here show that, on a store that satisfies the
  invariant, each computes exactly a map over the records, and counts the records it changed.
\<close>

definition due :: "string \<Rightarrow> gotime \<Rightarrow> task_record \<Rightarrow> bool" where
  "due n now r \<longleftrightarrow> r_state r = StateScheduled \<and> t_queue (r_task r) = n \<and> due_at r \<le> now"

definition expired :: "string \<Rightarrow> gotime \<Rightarrow> task_record \<Rightarrow> bool" where
  "expired n now r \<longleftrightarrow> r_state r = StateRunning \<and> t_queue (r_task r) = n \<and> r_visibility_at r \<le> now"

definition promote_records ::
  "string \<Rightarrow> gotime \<Rightarrow> (string \<times> task_record) list \<Rightarrow> (string \<times> task_record) list"
where
  "promote_records n now =
     map (\<lambda>(i, r). (i, if due n now r then r\<lparr>r_state := StatePending\<rparr> else r))"

definition reclaim_records ::
  "string \<Rightarrow> gotime \<Rightarrow> (string \<times> task_record) list \<Rightarrow> (string \<times> task_record) list"
where
  "reclaim_records n now =
     map (\<lambda>(i, r). (i, if expired n now r then r\<lparr>r_state := StatePending, r_owner_worker := ''''\<rparr>
                       else r))"

lemma put_queue_put_queue [simp]: "put_queue (put_queue s n q) n q' = put_queue s n q'"
  by (simp add: put_queue_def)

lemma put_queue_records [simp]:
  "(put_queue s n q)\<lparr>s_records := recs\<rparr> = put_queue (s\<lparr>s_records := recs\<rparr>) n q"
  by (simp add: put_queue_def)

lemma put_queue_idem [simp]:
  "n \<noteq> '''' \<Longrightarrow> s_queues s n = Some q \<Longrightarrow> put_queue s n q = s"
  by (simp add: put_queue_def fun_upd_idem)

lemma put_record_records [simp]: "(put_record s i r)\<lparr>s_records := recs\<rparr> = s\<lparr>s_records := recs\<rparr>"
  by (simp add: put_record_def)

subsection \<open>One turn of a maintenance loop\<close>

text \<open>A stale item is dropped: no record relied on it.\<close>

lemma store_inv_drop_scheduled:
  assumes inv: "store_inv s" and q: "s_queues s n = Some q"
    and pop: "heap_pop time_less (q_scheduled q) = Some (it, h)"
    and stale: "\<And>r. record_of s (ti_id it) = Some r \<Longrightarrow> r_state r \<noteq> StateScheduled"
  shows "store_inv (put_queue s n (q\<lparr>q_scheduled := h\<rparr>))"
proof (rule store_inv_put_queue [OF inv])
  from store_inv_queueD [OF inv q] have "queue_inv (record_of s) n q" ..
  then show "queue_inv (record_of s) n (q\<lparr>q_scheduled := h\<rparr>)" using pop by (rule queue_inv_pop_scheduled)
  show "indexed_in (q\<lparr>q_scheduled := h\<rparr>) j r"
    if "record_of s j = Some r" "s_queues s n = Some q'" "indexed_in q' j r" for j r q'
    using that q stale heap_pop_set [OF pop] by (fastforce simp: indexed_in_def)
qed (use store_inv_queueD [OF inv q] in simp)

lemma store_inv_drop_running:
  assumes inv: "store_inv s" and q: "s_queues s n = Some q"
    and pop: "heap_pop time_less (q_running q) = Some (it, h)"
    and stale: "\<And>r. record_of s (ti_id it) = Some r \<Longrightarrow>
      r_state r \<noteq> StateRunning \<or> r_visibility_at r \<noteq> ti_when it"
  shows "store_inv (put_queue s n (q\<lparr>q_running := h\<rparr>))"
proof (rule store_inv_put_queue [OF inv])
  from store_inv_queueD [OF inv q] have "queue_inv (record_of s) n q" ..
  then show "queue_inv (record_of s) n (q\<lparr>q_running := h\<rparr>)" using pop by (rule queue_inv_pop_running)
  show "indexed_in (q\<lparr>q_running := h\<rparr>) j r"
    if "record_of s j = Some r" "s_queues s n = Some q'" "indexed_in q' j r" for j r q'
    using that q stale heap_pop_set [OF pop] by (fastforce simp: indexed_in_def)
qed (use store_inv_queueD [OF inv q] in simp)

text \<open>A live item is moved to the pending heap. \<open>q1\<close> is the queue after the pop.\<close>

lemma store_inv_requeue:
  assumes inv: "store_inv s" and q: "s_queues s n = Some q"
    and r: "record_of s i = Some r" and n: "t_queue (r_task r) = n"
    and r': "r_task r' = r_task r" "r_state r' = StatePending"
    and q1: "queue_inv (record_of s) n q1" "i \<notin> ti_id ` set (q_scheduled q1)"
    and keep: "\<And>j rj. j \<noteq> i \<Longrightarrow> indexed_in q j rj \<Longrightarrow> indexed_in q1 j rj"
  shows "store_inv (put_queue (put_record s i r') n
    (q1\<lparr>q_pending := heap_push pending_less (q_pending q1)
       \<lparr>p_id = t_id (r_task r), p_priority = t_priority (r_task r), p_enqueued_at = now\<rparr>\<rparr>))"
    (is "store_inv (put_queue _ _ ?q2)")
proof (rule store_inv_update [OF inv, of _ i r' n ?q2])
  have tid: "t_id (r_task r) = i" using store_inv_recordD [OF inv r] by (simp add: record_inv_def)
  then show "t_id (r_task r') = i" using r' by simp
  show "queue_inv ((record_of s)(i \<mapsto> r')) n ?q2"
    by (intro queue_inv_push_pending queue_inv_upd [OF q1(1)])
      (use q1(2) r' n tid queue_inv_pending_item [OF q1(1) r] in auto)
  show "i \<notin> item_ids q'" if "m \<noteq> n" "s_queues s m = Some q'" for m q'
    using store_inv_other [OF inv r] that n by simp
  show "indexed_in ?q2 i r'" using r' tid by (simp add: indexed_in_def)
  show "indexed_in ?q2 j rj" if "j \<noteq> i" "s_queues s n = Some q'" "indexed_in q' j rj" for j rj q'
    using keep [OF that(1)] that q by (auto intro: indexed_in_push)
qed (use store_inv_queueD [OF inv q] r' n in auto)

lemma store_inv_promote_one:
  assumes inv: "store_inv s" and q: "s_queues s n = Some q"
    and pop: "heap_pop time_less (q_scheduled q) = Some (it, h)"
    and r: "record_of s (ti_id it) = Some r" "r_state r = StateScheduled"
  shows "store_inv (put_queue (put_record s (ti_id it) (r\<lparr>r_state := StatePending\<rparr>)) n
    (q\<lparr>q_scheduled := h, q_pending := heap_push pending_less (q_pending q)
       \<lparr>p_id = t_id (r_task r), p_priority = t_priority (r_task r), p_enqueued_at = now\<rparr>\<rparr>))"
proof -
  from store_inv_queueD [OF inv q] have qi: "queue_inv (record_of s) n q" ..
  have it: "it \<in> set (q_scheduled q)" using heap_pop_set [OF pop] by simp
  have "ti_id it \<notin> ti_id ` set h"
    using qi distinct_ids_pop [OF pop] by (simp add: queue_inv_def)
  then show ?thesis
    using store_inv_requeue [OF inv q r(1), of "r\<lparr>r_state := StatePending\<rparr>" "q\<lparr>q_scheduled := h\<rparr>" now]
      queue_inv_pop_scheduled [OF qi pop] queue_inv_scheduled_item [OF qi r(1) it] heap_pop_set [OF pop]
    by (fastforce simp: indexed_in_def)
qed

lemma store_inv_reclaim_one:
  assumes inv: "store_inv s" and q: "s_queues s n = Some q"
    and pop: "heap_pop time_less (q_running q) = Some (it, h)"
    and r: "record_of s (ti_id it) = Some r" "r_state r = StateRunning"
  shows "store_inv (put_queue
    (put_record s (ti_id it) (r\<lparr>r_state := StatePending, r_owner_worker := ''''\<rparr>)) n
    (q\<lparr>q_running := h, q_pending := heap_push pending_less (q_pending q)
       \<lparr>p_id = t_id (r_task r), p_priority = t_priority (r_task r), p_enqueued_at = now\<rparr>\<rparr>))"
proof -
  from store_inv_queueD [OF inv q] have qi: "queue_inv (record_of s) n q" ..
  have it: "it \<in> set (q_running q)" using heap_pop_set [OF pop] by simp
  have "ti_id it \<notin> ti_id ` set (q_scheduled q)"
    by (rule queue_inv_not_scheduled [OF qi r(1)]) (simp add: r)
  then show ?thesis
    using store_inv_requeue [OF inv q r(1), of "r\<lparr>r_state := StatePending, r_owner_worker := ''''\<rparr>"
        "q\<lparr>q_running := h\<rparr>" now]
      queue_inv_pop_running [OF qi pop] queue_inv_running_item [OF qi r(1) it] heap_pop_set [OF pop]
    by (fastforce simp: indexed_in_def)
qed
subsection \<open>The loops\<close>

lemma promote_loop_cases:
  obtains (stop) "promote_loop now recs q k = (recs, q, k)"
      "q_scheduled q = [] \<or> ti_when (q_scheduled q ! 0) > now"
  | (stale) it h where "heap_pop time_less (q_scheduled q) = Some (it, h)" "ti_when it \<le> now"
      "\<And>r. map_of recs (ti_id it) = Some r \<Longrightarrow> r_state r \<noteq> StateScheduled"
      "promote_loop now recs q k = promote_loop now recs (q\<lparr>q_scheduled := h\<rparr>) k"
  | (live) it h r where "heap_pop time_less (q_scheduled q) = Some (it, h)" "ti_when it \<le> now"
      "map_of recs (ti_id it) = Some r" "r_state r = StateScheduled"
      "promote_loop now recs q k =
         promote_loop now (alist_put (ti_id it) (r\<lparr>r_state := StatePending\<rparr>) recs)
           (q\<lparr>q_scheduled := h, q_pending := heap_push pending_less (q_pending q)
              \<lparr>p_id = t_id (r_task r), p_priority = t_priority (r_task r), p_enqueued_at = now\<rparr>\<rparr>)
           (Suc k)"
proof (cases "heap_pop time_less (q_scheduled q)")
  case None
  then show thesis using stop promote_loop.simps [of now recs q k] by simp
next
  case (Some p)
  then obtain it h where pop: "heap_pop time_less (q_scheduled q) = Some (it, h)" by (cases p) auto
  note it = heap_pop_root [OF pop]
  note eq = promote_loop.simps [of now recs q k]
  consider "ti_when it > now" | "ti_when it \<le> now" "\<And>r. map_of recs (ti_id it) = Some r \<Longrightarrow> r_state r \<noteq> StateScheduled"
    | r where "ti_when it \<le> now" "map_of recs (ti_id it) = Some r" "r_state r = StateScheduled"
    by fastforce
  then show thesis
  proof cases
    case 1 then show thesis using stop eq pop it by simp
  next
    case 2 then show thesis using stale eq pop it by (simp add: Let_def split: option.splits)
  next
    case 3 then show thesis using live eq pop it by (simp add: Let_def)
  qed
qed

lemma reclaim_loop_cases:
  obtains (stop) "reclaim_loop now recs q k = (recs, q, k)"
      "q_running q = [] \<or> ti_when (q_running q ! 0) > now"
  | (stale) it h where "heap_pop time_less (q_running q) = Some (it, h)" "ti_when it \<le> now"
      "\<And>r. map_of recs (ti_id it) = Some r \<Longrightarrow> r_state r \<noteq> StateRunning \<or> r_visibility_at r \<noteq> ti_when it"
      "reclaim_loop now recs q k = reclaim_loop now recs (q\<lparr>q_running := h\<rparr>) k"
  | (live) it h r where "heap_pop time_less (q_running q) = Some (it, h)" "ti_when it \<le> now"
      "map_of recs (ti_id it) = Some r" "r_state r = StateRunning" "r_visibility_at r = ti_when it"
      "reclaim_loop now recs q k =
         reclaim_loop now
           (alist_put (ti_id it) (r\<lparr>r_state := StatePending, r_owner_worker := ''''\<rparr>) recs)
           (q\<lparr>q_running := h, q_pending := heap_push pending_less (q_pending q)
              \<lparr>p_id = t_id (r_task r), p_priority = t_priority (r_task r), p_enqueued_at = now\<rparr>\<rparr>)
           (Suc k)"
proof (cases "heap_pop time_less (q_running q)")
  case None
  then show thesis using stop reclaim_loop.simps [of now recs q k] by simp
next
  case (Some p)
  then obtain it h where pop: "heap_pop time_less (q_running q) = Some (it, h)" by (cases p) auto
  note it = heap_pop_root [OF pop]
  note eq = reclaim_loop.simps [of now recs q k]
  consider "ti_when it > now"
    | "ti_when it \<le> now" "\<And>r. map_of recs (ti_id it) = Some r \<Longrightarrow>
         r_state r \<noteq> StateRunning \<or> r_visibility_at r \<noteq> ti_when it"
    | r where "ti_when it \<le> now" "map_of recs (ti_id it) = Some r" "r_state r = StateRunning"
        "r_visibility_at r = ti_when it"
    by fastforce
  then show thesis
  proof cases
    case 1 then show thesis using stop eq pop it by simp
  next
    case 2 then show thesis using stale eq pop it by (simp add: Let_def split: option.splits)
  next
    case 3 then show thesis using live eq pop it by (simp add: Let_def)
  qed
qed

text \<open>When the root of the heap is not due, nothing is.\<close>

lemma time_heap_none_due:
  assumes "is_heap time_less h" "h = [] \<or> ti_when (h ! 0) > now" "it \<in> set h"
  shows "ti_when it > now"
proof -
  from assms(3) obtain k where "k < length h" "it = h ! k" by (auto simp: in_set_conv_nth)
  then have "\<not> time_less it (h ! 0)" using timed.is_heap_root_least [OF assms(1)] by simp
  then show ?thesis using assms(2,3) by (auto simp: time_less_def split: if_splits)
qed

lemma none_due:
  assumes inv: "store_inv s" and q: "s_queues s n = Some q" and r: "record_of s i = Some r"
    and stop: "q_scheduled q = [] \<or> ti_when (q_scheduled q ! 0) > now"
  shows "\<not> due n now r"
proof
  assume d: "due n now r"
  from store_inv_recordD [OF inv r] d q have "\<lparr>ti_id = i, ti_when = due_at r\<rparr> \<in> set (q_scheduled q)"
    by (auto simp: record_inv_def indexed_in_def due_def)
  moreover have "is_heap time_less (q_scheduled q)"
    using store_inv_queueD [OF inv q] by (simp add: queue_inv_def)
  ultimately show False using time_heap_none_due [OF _ stop] d by (fastforce simp: due_def)
qed

lemma none_expired:
  assumes inv: "store_inv s" and q: "s_queues s n = Some q" and r: "record_of s i = Some r"
    and stop: "q_running q = [] \<or> ti_when (q_running q ! 0) > now"
  shows "\<not> expired n now r"
proof
  assume d: "expired n now r"
  from store_inv_recordD [OF inv r] d q
  have "\<lparr>ti_id = i, ti_when = r_visibility_at r\<rparr> \<in> set (q_running q)"
    by (auto simp: record_inv_def indexed_in_def expired_def)
  moreover have "is_heap time_less (q_running q)"
    using store_inv_queueD [OF inv q] by (simp add: queue_inv_def)
  ultimately show False using time_heap_none_due [OF _ stop] d by (fastforce simp: expired_def)
qed

lemma store_inv_distinct: "store_inv s \<Longrightarrow> distinct (map fst (s_records s))"
  by (simp add: store_inv_def)

lemma no_hits:
  assumes "distinct (map fst recs)" "\<And>i r. map_of recs i = Some r \<Longrightarrow> \<not> P r"
  shows "filter (\<lambda>(i, r). P r) recs = []" "map (\<lambda>(i, r). (i, if P r then g r else r)) recs = recs"
  using assms by (auto simp: filter_empty_conv intro!: map_idI)

lemma promote_records_put:
  assumes "distinct (map fst recs)" "map_of recs i = Some r" "due n now r"
  shows "promote_records n now (alist_put i (r\<lparr>r_state := StatePending\<rparr>) recs) = promote_records n now recs"
    "length (filter (\<lambda>(i, r). due n now r) recs) =
     Suc (length (filter (\<lambda>(i, r). due n now r) (alist_put i (r\<lparr>r_state := StatePending\<rparr>) recs)))"
  unfolding promote_records_def
  by (rule map_alist_put_same [OF assms(1,2)] length_filter_alist_put [OF assms(1,2)];
      use assms(3) in \<open>simp add: due_def\<close>)+

lemma reclaim_records_put:
  assumes "distinct (map fst recs)" "map_of recs i = Some r" "expired n now r"
  shows "reclaim_records n now (alist_put i (r\<lparr>r_state := StatePending, r_owner_worker := ''''\<rparr>) recs) =
      reclaim_records n now recs"
    "length (filter (\<lambda>(i, r). expired n now r) recs) =
     Suc (length (filter (\<lambda>(i, r). expired n now r)
       (alist_put i (r\<lparr>r_state := StatePending, r_owner_worker := ''''\<rparr>) recs)))"
  unfolding reclaim_records_def
  by (rule map_alist_put_same [OF assms(1,2)] length_filter_alist_put [OF assms(1,2)];
      use assms(3) in \<open>simp add: expired_def\<close>)+

lemma promote_loop_spec:
  assumes "store_inv s" "s_queues s n = Some q"
    "promote_loop now (s_records s) q k = (recs, q', k')"
  shows "store_inv (put_queue (s\<lparr>s_records := recs\<rparr>) n q') \<and> recs = promote_records n now (s_records s) \<and>
    k' = k + length (filter (\<lambda>(i, r). due n now r) (s_records s))"
  using assms
proof (induction "length (q_scheduled q)" arbitrary: s q k rule: less_induct)
  case less
  note inv = less.prems(1) and q = less.prems(2)
  have n: "n \<noteq> ''''" using store_inv_queueD [OF inv q] ..
  show ?case
  proof (cases rule: promote_loop_cases [of now "s_records s" q k])
    case stop
    then show ?thesis
      using no_hits [OF store_inv_distinct [OF inv] none_due [OF inv q]] less.prems n
      by (simp add: promote_records_def)
  next
    case (stale it h)
    let ?s = "put_queue s n (q\<lparr>q_scheduled := h\<rparr>)"
    have "store_inv ?s" by (rule store_inv_drop_scheduled [OF inv q stale(1,3)])
    with less.hyps [of "q\<lparr>q_scheduled := h\<rparr>" ?s k] heap_pop_length [OF stale(1)] stale(4) less.prems n
    show ?thesis by auto
  next
    case (live it h r)
    let ?r = "r\<lparr>r_state := StatePending\<rparr>"
    let ?q = "q\<lparr>q_scheduled := h, q_pending := heap_push pending_less (q_pending q)
      \<lparr>p_id = t_id (r_task r), p_priority = t_priority (r_task r), p_enqueued_at = now\<rparr>\<rparr>"
    let ?s = "put_queue (put_record s (ti_id it) ?r) n ?q"
    from store_inv_queueD [OF inv q] have qi: "queue_inv (record_of s) n q" ..
    have "due n now r"
      using live queue_inv_scheduled_item [OF qi live(3), of it] heap_pop_set [OF live(1)]
      by (auto simp: due_def terminal_state_def)
    note recs = promote_records_put [OF store_inv_distinct [OF inv] live(3) this]
    have "store_inv ?s" by (rule store_inv_promote_one [OF inv q live(1,3,4)])
    with less.hyps [of ?q ?s "Suc k"] heap_pop_length [OF live(1)] live less.prems n recs
    show ?thesis by auto
  qed
qed

lemma reclaim_loop_spec:
  assumes "store_inv s" "s_queues s n = Some q"
    "reclaim_loop now (s_records s) q k = (recs, q', k')"
  shows "store_inv (put_queue (s\<lparr>s_records := recs\<rparr>) n q') \<and> recs = reclaim_records n now (s_records s) \<and>
    k' = k + length (filter (\<lambda>(i, r). expired n now r) (s_records s))"
  using assms
proof (induction "length (q_running q)" arbitrary: s q k rule: less_induct)
  case less
  note inv = less.prems(1) and q = less.prems(2)
  have n: "n \<noteq> ''''" using store_inv_queueD [OF inv q] ..
  show ?case
  proof (cases rule: reclaim_loop_cases [of now "s_records s" q k])
    case stop
    then show ?thesis
      using no_hits [OF store_inv_distinct [OF inv] none_expired [OF inv q]] less.prems n
      by (simp add: reclaim_records_def)
  next
    case (stale it h)
    let ?s = "put_queue s n (q\<lparr>q_running := h\<rparr>)"
    have "store_inv ?s" by (rule store_inv_drop_running [OF inv q stale(1,3)])
    with less.hyps [of "q\<lparr>q_running := h\<rparr>" ?s k] heap_pop_length [OF stale(1)] stale(4) less.prems n
    show ?thesis by auto
  next
    case (live it h r)
    let ?r = "r\<lparr>r_state := StatePending, r_owner_worker := ''''\<rparr>"
    let ?q = "q\<lparr>q_running := h, q_pending := heap_push pending_less (q_pending q)
      \<lparr>p_id = t_id (r_task r), p_priority = t_priority (r_task r), p_enqueued_at = now\<rparr>\<rparr>"
    let ?s = "put_queue (put_record s (ti_id it) ?r) n ?q"
    from store_inv_queueD [OF inv q] have qi: "queue_inv (record_of s) n q" ..
    have "expired n now r"
      using live queue_inv_running_item [OF qi live(3), of it] heap_pop_set [OF live(1)]
      by (auto simp: expired_def)
    note recs = reclaim_records_put [OF store_inv_distinct [OF inv] live(3) this]
    have "store_inv ?s" by (rule store_inv_reclaim_one [OF inv q live(1,3,4)])
    with less.hyps [of ?q ?s "Suc k"] heap_pop_length [OF live(1)] live less.prems n recs
    show ?thesis by auto
  qed
qed

subsection \<open>The operations\<close>

lemma record_has_queue: "store_inv s \<Longrightarrow> record_of s i = Some r \<Longrightarrow> s_queues s (t_queue (r_task r)) \<noteq> None"
  using store_inv_recordD by (fastforce simp: record_inv_def)

lemma no_queue_no_hits:
  assumes inv: "store_inv s" and q: "s_queues s n = None"
    and P: "\<And>r. P r \<Longrightarrow> t_queue (r_task r) = n"
  shows "filter (\<lambda>(i, r). P r) (s_records s) = []"
    "map (\<lambda>(i, r). (i, if P r then g r else r)) (s_records s) = s_records s"
proof -
  have none: "\<not> P r" if "record_of s i = Some r" for i r
    using record_has_queue [OF inv that] q P by metis
  show "filter (\<lambda>(i, r). P r) (s_records s) = []"
    "map (\<lambda>(i, r). (i, if P r then g r else r)) (s_records s) = s_records s"
    by (rule no_hits [OF store_inv_distinct [OF inv] none]; assumption)+
qed

lemma PromoteScheduled_spec:
  assumes inv: "store_inv s"
  shows "store_inv (snd (PromoteScheduled s queue now)) \<and>
    s_records (snd (PromoteScheduled s queue now)) = promote_records (queue_name queue) now (s_records s) \<and>
    fst (PromoteScheduled s queue now) =
      length (filter (\<lambda>(i, r). due (queue_name queue) now r) (s_records s))"
proof (cases "s_queues s (queue_name queue)")
  case None
  have "t_queue (r_task r) = queue_name queue" if "due (queue_name queue) now r" for r
    using that by (simp add: due_def)
  from no_queue_no_hits [OF inv None this] show ?thesis
    using None inv by (simp add: PromoteScheduled_def promote_records_def)
next
  case (Some q)
  obtain recs q' k where "promote_loop now (s_records s) q 0 = (recs, q', k)"
    by (cases "promote_loop now (s_records s) q 0") auto
  with promote_loop_spec [OF inv Some this] Some show ?thesis
    by (auto simp: PromoteScheduled_def)
qed

lemma ReclaimExpired_spec:
  assumes inv: "store_inv s"
  shows "store_inv (snd (ReclaimExpired s queue now)) \<and>
    s_records (snd (ReclaimExpired s queue now)) = reclaim_records (queue_name queue) now (s_records s) \<and>
    fst (ReclaimExpired s queue now) =
      length (filter (\<lambda>(i, r). expired (queue_name queue) now r) (s_records s))"
proof (cases "s_queues s (queue_name queue)")
  case None
  have "t_queue (r_task r) = queue_name queue" if "expired (queue_name queue) now r" for r
    using that by (simp add: expired_def)
  from no_queue_no_hits [OF inv None this] show ?thesis
    using None inv by (simp add: ReclaimExpired_def reclaim_records_def)
next
  case (Some q)
  obtain recs q' k where "reclaim_loop now (s_records s) q 0 = (recs, q', k)"
    by (cases "reclaim_loop now (s_records s) q 0") auto
  with reclaim_loop_spec [OF inv Some this] Some show ?thesis
    by (auto simp: ReclaimExpired_def)
qed

lemma map_of_filter_values:
  "distinct (map fst m) \<Longrightarrow>
   map_of (filter (\<lambda>(_, v). P v) m) k = (case map_of m k of Some v \<Rightarrow> if P v then Some v else None | None \<Rightarrow> None)"
  by (induction m) (auto simp: map_of_eq_None_iff dest: map_of_SomeD split: option.splits)

lemma record_of_PurgeOlderThan:
  "store_inv s \<Longrightarrow> record_of (snd (PurgeOlderThan s cutoff)) i =
   (case record_of s i of Some r \<Rightarrow> if purgeable cutoff r then None else Some r | None \<Rightarrow> None)"
  by (auto simp: PurgeOlderThan_def map_of_filter_values store_inv_distinct split: option.splits)

lemma store_inv_PurgeOlderThan:
  assumes inv: "store_inv s"
  shows "store_inv (snd (PurgeOlderThan s cutoff))"
proof -
  let ?s = "snd (PurgeOlderThan s cutoff)"
  have sub: "record_of s i = Some r" if "record_of ?s i = Some r" for i r
    using that record_of_PurgeOlderThan [OF inv, of cutoff i] by (auto split: option.splits if_splits)
  have qs: "s_queues ?s = s_queues s" by (simp add: PurgeOlderThan_def)
  have "queue_inv (record_of ?s) n q" if "s_queues s n = Some q" for n q
    using store_inv_queueD [OF inv that] sub unfolding queue_inv_def by blast
  moreover have "distinct (map fst (s_records ?s))"
    using store_inv_distinct [OF inv] by (simp add: PurgeOlderThan_def distinct_map_filter)
  ultimately show ?thesis
    using store_inv_queueD [OF inv] store_inv_recordD [OF inv] sub qs unfolding store_inv_def by metis
qed

lemma store_inv_Close: "store_inv (Close s)"
  by (simp add: store_inv_def Close_def)

lemma store_inv_NewMemoryStore: "store_inv (NewMemoryStore window)"
  by (simp add: store_inv_def NewMemoryStore_def)

end
