(* ===== verification/Task_Store.thy ===== *)
theory Task_Store imports Task_Maintenance
begin

text \<open>
  The in-memory task store as a transition system: one rule per operation of the \<^verbatim>\<open>Store\<close>
  interface, run on behalf of any worker at any clock reading. The invariant holds in every
  reachable store, and every record moves along the life cycle of \<^verbatim>\<open>tasks.go\<close>.
\<close>

inductive store_step :: "memory_store \<Rightarrow> memory_store \<Rightarrow> bool" where
  step_Enqueue: "fresh_id s (if t_id t = '''' then newid else t_id t) \<Longrightarrow>
     store_step s (snd (Enqueue now0 now newid s t))"
| step_ScheduleAt: "fresh_id s (if t_id t = '''' then newid else t_id t) \<Longrightarrow>
     store_step s (snd (ScheduleAt now0 now newid s at t))"
| step_Claim: "store_step s (snd (Claim now s queue w vis))"
| step_Heartbeat: "store_step s (snd (Heartbeat now s i w ext))"
| step_Complete: "store_step s (snd (Complete now s i w))"
| step_Fail: "store_step s (snd (Fail now s i w msg next_at))"
| step_Cancel: "store_step s (snd (Cancel now s i))"
| step_Promote: "store_step s (snd (PromoteScheduled s queue now))"
| step_Reclaim: "store_step s (snd (ReclaimExpired s queue now))"
| step_Purge: "store_step s (snd (PurgeOlderThan s cutoff))"
| step_Close: "store_step s (Close s)"

definition reachable :: "duration \<Rightarrow> memory_store \<Rightarrow> bool" where
  "reachable window s \<longleftrightarrow> store_step\<^sup>*\<^sup>* (NewMemoryStore window) s"

lemma store_inv_ScheduleAt:
  assumes "store_inv s" "fresh_id s (if t_id t = '''' then newid else t_id t)"
  shows "store_inv (snd (ScheduleAt now0 now newid s at t))"
  using store_inv_Enqueue [of s "t\<lparr>t_delay_until := at\<rparr>"] assms by (simp add: ScheduleAt_def cong: if_cong)

lemmas store_inv_ops =
  store_inv_Enqueue store_inv_ScheduleAt store_inv_Claim store_inv_Heartbeat store_inv_Complete store_inv_Fail
  store_inv_Cancel store_inv_PurgeOlderThan store_inv_Close store_inv_NewMemoryStore

lemma store_step_inv: "store_step s s' \<Longrightarrow> store_inv s \<Longrightarrow> store_inv s'"
  by (induction rule: store_step.induct)
    (simp_all only: store_inv_ops PromoteScheduled_spec ReclaimExpired_spec)


subsection \<open>The life cycle\<close>

definition may_become :: "task_state \<Rightarrow> task_state \<Rightarrow> bool" where
  "may_become a b \<longleftrightarrow> a = b \<or>
     (a, b) \<in> {(StatePending, StateRunning), (StatePending, StateCancelled),
               (StateScheduled, StatePending), (StateScheduled, StateCancelled),
               (StateRunning, StatePending), (StateRunning, StateScheduled),
               (StateRunning, StateCompleted), (StateRunning, StateFailed)}"

definition record_step :: "task_record \<Rightarrow> task_record \<Rightarrow> bool" where
  "record_step r r' \<longleftrightarrow>
     may_become (r_state r) (r_state r') \<and>
     r_attempts r' = r_attempts r +
       (if r_state r = StatePending \<and> r_state r' = StateRunning then 1 else 0) \<and>
     (r_task r')\<lparr>t_max_retries := None\<rparr> = (r_task r)\<lparr>t_max_retries := None\<rparr> \<and>
     (terminal_state (r_state r) \<longrightarrow> r' = r)"

lemmas record_step_defs = record_step_def may_become_def terminal_state_def

lemma record_step_refl [simp]: "record_step r r"
  by (simp add: record_step_defs)

definition records_kept :: "memory_store \<Rightarrow> memory_store \<Rightarrow> bool" where
  "records_kept s s' \<longleftrightarrow>
     (\<forall>i r. record_of s i = Some r \<longrightarrow> (\<exists>r'. record_of s' i = Some r' \<and> record_step r r'))"

lemma records_kept_same: "s_records s' = s_records s \<Longrightarrow> records_kept s s'"
  by (simp add: records_kept_def)

lemma records_kept_put:
  "record_of s j = Some r \<Longrightarrow> record_step r r' \<Longrightarrow> s_records s' = alist_put j r' (s_records s) \<Longrightarrow>
   records_kept s s'"
  by (simp add: records_kept_def)

lemma records_kept_puts:
  assumes "record_of s j = Some r" "record_step r r'"
  shows "records_kept s (put_record s j r')" "records_kept s (push_running (put_record s j r') n it)"
    "records_kept s (push_scheduled (put_record s j r') n it)"
  using records_kept_put [OF assms] by simp_all

lemma s_records_insert_task:
  "s_records (snd (insert_task now s t)) = alist_put (t_id t) (fst (insert_task now s t)) (s_records s)"
  by (simp add: insert_task_def Let_def)

lemma records_kept_new:
  "record_of s j = None \<Longrightarrow> s_records s' = alist_put j r' (s_records s) \<Longrightarrow> records_kept s s'"
  by (fastforce simp: records_kept_def)

lemma records_kept_Enqueue:
  assumes "fresh_id s (if t_id t = '''' then newid else t_id t)"
  shows "records_kept s (snd (Enqueue now0 now newid s t))"
proof -
  let ?s = "snd (Enqueue now0 now newid s t)" and ?i = "if t_id t = '''' then newid else t_id t"
  have "s_records ?s = s_records s \<or> (\<exists>r'. s_records ?s = alist_put ?i r' (s_records s))"
    by (auto simp: Enqueue_def Let_def evictDedupExpiredLocked_def s_records_insert_task
        case_prod_unfold split: option.split)
  moreover have "record_of s ?i = None" using assms by (simp add: fresh_id_def)
  ultimately show ?thesis by (elim disjE exE) (rule records_kept_same records_kept_new; assumption)+
qed

lemma records_kept_ScheduleAt:
  assumes "fresh_id s (if t_id t = '''' then newid else t_id t)"
  shows "records_kept s (snd (ScheduleAt now0 now newid s at t))"
  using records_kept_Enqueue [of s "t\<lparr>t_delay_until := at\<rparr>"] assms
  by (simp add: ScheduleAt_def cong: if_cong)

lemma records_kept_Claim:
  assumes inv: "store_inv s"
  shows "records_kept s (snd (Claim now s queue w vis))"
proof (cases "s_closed s \<or> s_queues s (queue_name queue) = None")
  case True
  then show ?thesis by (auto simp: Claim_def intro: records_kept_same)
next
  case False
  then obtain q where "s_queues s (queue_name queue) = Some q" "\<not> s_closed s" by auto
  with inv show ?thesis
  proof (cases rule: Claim_cases [where now = now and w = w and vis = vis])
    case (some j rj h)
    have "record_step rj (claimed_record now w vis rj)" using some(3) by (simp add: record_step_defs)
    then show ?thesis using some(1) by (simp add: records_kept_put [OF some(2)])
  qed (simp add: records_kept_same)
qed

lemma records_kept_Heartbeat: "records_kept s (snd (Heartbeat now s j w ext))"
  by (simp add: Heartbeat_def Let_def records_kept_same records_kept_puts record_step_defs
      split: option.split)

lemma records_kept_Complete: "records_kept s (snd (Complete now s j w))"
  by (simp add: Complete_def records_kept_same records_kept_puts record_step_defs split: option.split)

lemma records_kept_Fail: "records_kept s (snd (Fail now s j w msg next_at))"
  by (simp add: Fail_def Let_def records_kept_same records_kept_puts record_step_defs
      split: option.split)

lemma records_kept_Cancel: "records_kept s (snd (Cancel now s j))"
  by (simp add: Cancel_def records_kept_same records_kept_puts record_step_defs
      split: option.split task_state.split)

lemmas records_kept_ops =
  records_kept_Enqueue records_kept_ScheduleAt records_kept_Claim records_kept_Heartbeat
  records_kept_Complete records_kept_Fail records_kept_Cancel

lemma records_kept_case:
  "records_kept s s' \<Longrightarrow> record_of s i = Some r \<Longrightarrow>
   case record_of s' i of Some r' \<Rightarrow> record_step r r' | None \<Rightarrow> X"
  by (fastforce simp: records_kept_def)

lemma map_of_promote_records:
  "map_of (promote_records n now recs) i =
   map_option (\<lambda>r. if due n now r then r\<lparr>r_state := StatePending\<rparr> else r) (map_of recs i)"
  by (simp add: promote_records_def map_of_map)

lemma map_of_reclaim_records:
  "map_of (reclaim_records n now recs) i =
   map_option (\<lambda>r. if expired n now r then r\<lparr>r_state := StatePending, r_owner_worker := ''''\<rparr> else r)
     (map_of recs i)"
  by (simp add: reclaim_records_def map_of_map)


subsection \<open>Claiming\<close>

definition waiting :: "memory_store \<Rightarrow> string \<Rightarrow> string \<Rightarrow> task_record \<Rightarrow> bool" where
  "waiting s queue i r \<longleftrightarrow>
     record_of s i = Some r \<and> r_state r = StatePending \<and> t_queue (r_task r) = queue_name queue"

lemma waiting_item:
  assumes "store_inv s" "waiting s queue i r" "s_queues s (queue_name queue) = Some q"
  obtains it where "it \<in> set (q_pending q)" "p_id it = i" "live (s_records s) it"
    "p_priority it = t_priority (r_task r)"
proof -
  from store_inv_recordD [OF assms(1), of i r] assms(2,3) have "i \<in> p_id ` set (q_pending q)"
    by (auto simp: waiting_def record_inv_def indexed_in_def)
  then obtain it where it: "it \<in> set (q_pending q)" "p_id it = i" by auto
  with that assms(2) queue_inv_pending_item [of "record_of s" "queue_name queue" q i r it]
    store_inv_queueD [OF assms(1,3)]
  show thesis by (auto simp: waiting_def)
qed

lemma waiting_queue:
  assumes "store_inv s" "waiting s queue i r"
  obtains q where "s_queues s (queue_name queue) = Some q"
  using record_has_queue [of s i r] assms by (auto simp: waiting_def)

lemma Claim_picks:
  assumes inv: "store_inv s" and opn: "\<not> s_closed s" and w: "waiting s queue i r"
  shows "\<exists>j rj. waiting s queue j rj \<and> t_priority (r_task r) \<le> t_priority (r_task rj) \<and>
    fst (Claim now s queue worker vis) = Inr (Some (claimed_record now worker vis rj)) \<and>
    record_of (snd (Claim now s queue worker vis)) = (record_of s)(j \<mapsto> claimed_record now worker vis rj)"
proof -
  obtain q where q: "s_queues s (queue_name queue) = Some q" using waiting_queue [OF inv w] .
  obtain it where it: "it \<in> set (q_pending q)" "p_id it = i" "live (s_records s) it"
    "p_priority it = t_priority (r_task r)" using waiting_item [OF inv w q] .
  from inv q opn show ?thesis
  proof (cases rule: Claim_cases [where now = now and w = worker and vis = vis])
    case none
    then show ?thesis using it by blast
  next
    case (some j rj h)
    then obtain jt where jt: "jt \<in> set (q_pending q)" "p_id jt = j" "\<not> pending_less it jt"
      using it by blast
    from store_inv_queueD [OF inv q] have "queue_inv (record_of s) (queue_name queue) q" ..
    from queue_inv_pending_item [OF this some(2) jt(1,2)]
    have "p_priority jt = t_priority (r_task rj)" ..
    then have "t_priority (r_task r) \<le> t_priority (r_task rj)"
      using jt(3) it(4) by (auto simp: pending_less_def split: if_splits)
    then show ?thesis
      using some(1-4) by (intro exI [of _ j] exI [of _ rj]) (simp add: waiting_def)
  qed
qed

lemma Claim_nothing:
  assumes inv: "store_inv s" and opn: "\<not> s_closed s" and none: "\<And>i r. \<not> waiting s queue i r"
  shows "fst (Claim now s queue worker vis) = Inr None \<and>
    s_records (snd (Claim now s queue worker vis)) = s_records s"
proof (cases "s_queues s (queue_name queue)")
  case None
  then show ?thesis using opn by (simp add: Claim_def)
next
  case (Some q)
  from inv Some opn show ?thesis
  proof (cases rule: Claim_cases [where now = now and w = worker and vis = vis])
    case (some j rj h)
    then show ?thesis using none [of j rj] by (simp add: waiting_def)
  qed simp
qed

text \<open>C2: Claim never starves a queue and never hands a task out twice. On an open store with a
  task pending in the queue, \<open>Claim\<close> returns a task that was pending in that queue (so it is not
  held by any other worker), of the highest priority among the pending ones, now running, owned by
  the caller, leased for the visibility period and with one more attempt; no other record changes.\<close>

theorem Claim_highest_priority:
  assumes "store_inv s" "\<not> s_closed s" "\<exists>i r. waiting s queue i r"
  shows "\<exists>j rj. waiting s queue j rj \<and>
    (\<forall>i r. waiting s queue i r \<longrightarrow> t_priority (r_task r) \<le> t_priority (r_task rj)) \<and>
    fst (Claim now s queue worker vis) = Inr (Some (claimed_record now worker vis rj)) \<and>
    record_of (snd (Claim now s queue worker vis)) = (record_of s)(j \<mapsto> claimed_record now worker vis rj)"
proof -
  obtain i r where "waiting s queue i r" using assms(3) by blast
  from Claim_picks [OF assms(1,2) this] obtain j rj where
    res: "fst (Claim now s queue worker vis) = Inr (Some (claimed_record now worker vis rj))"
      "record_of (snd (Claim now s queue worker vis)) = (record_of s)(j \<mapsto> claimed_record now worker vis rj)"
    and j: "waiting s queue j rj" by blast
  have "r_task rk = r_task rj" if "Inr (Some (claimed_record now worker vis rk)) =
      (Inr (Some (claimed_record now worker vis rj)) :: task_error + task_record option)" for rk
    using that by (metis claimed_record_simps(1) option.inject sum.inject(2))
  then have "\<forall>i r. waiting s queue i r \<longrightarrow> t_priority (r_task r) \<le> t_priority (r_task rj)"
    using Claim_picks [OF assms(1,2)] res(1) by metis
  with res j show ?thesis by blast
qed

text \<open>On an open store \<open>Claim\<close> reports an empty queue exactly when no task is pending in it,
  however many stale heap items it has to skip.\<close>

theorem Claim_None_iff:
  assumes "store_inv s" "\<not> s_closed s"
  shows "fst (Claim now s queue worker vis) = Inr None \<longleftrightarrow> (\<forall>i r. \<not> waiting s queue i r)"
proof
  assume "fst (Claim now s queue worker vis) = Inr None"
  with Claim_picks [OF assms, of queue _ _ now worker vis] show "\<forall>i r. \<not> waiting s queue i r"
    by fastforce
qed (use Claim_nothing [OF assms] in blast)

subsection \<open>Ownership\<close>

definition holds_lease :: "memory_store \<Rightarrow> string \<Rightarrow> string \<Rightarrow> bool" where
  "holds_lease s i worker =
     (case record_of s i of
        Some r \<Rightarrow> r_state r = StateRunning \<and> r_owner_worker r = worker
      | None \<Rightarrow> False)"


text \<open>C8: A worker that completes a task after its lease was reclaimed gets \<open>ErrAlreadyTerminal\<close>, not
  the \<open>ErrNotOwner\<close> the interface announces, although the task is pending and will run again.\<close>

theorem late_Complete_error:
  assumes "store_inv s" "record_of s i = Some r" "expired (queue_name queue) now r"
  shows "let s' = snd (ReclaimExpired s queue now)
    in fst (Complete now' s' i worker) = Inl ErrAlreadyTerminal \<and>
       (\<exists>r'. record_of s' i = Some r' \<and> r_state r' = StatePending)"
  using assms ReclaimExpired_spec [OF assms(1), of queue now]
  by (simp add: Let_def Complete_def map_of_reclaim_records)

text \<open>C9: Cancelling a running task does not stop its retry: after a successful \<open>Cancel\<close>, a \<open>Fail\<close> by
  the owner that carries a next attempt (on a task with no deadline) schedules the task again.\<close>

theorem Cancel_running_still_retries:
  assumes "record_of s i = Some r" "r_state r = StateRunning" "t_deadline (r_task r) = 0"
  shows "let s1 = snd (Cancel now s i); (res, s2) = Fail now' s1 i (r_owner_worker r) msg (Some at)
    in res = Inr () \<and> map_option r_state (record_of s2 i) = Some StateScheduled \<and>
       map_option r_next_attempt (record_of s2 i) = Some at"
  using assms by (simp add: Cancel_def Fail_def Let_def may_retry_def)

subsection \<open>Maintenance passes\<close>

lemma pending_not_hit [simp]:
  "r_state r = StatePending \<Longrightarrow> \<not> due n now r" "r_state r = StatePending \<Longrightarrow> \<not> expired n now r"
  by (simp_all add: due_def expired_def)

lemma requeued_differs:
  "due n now r \<Longrightarrow> r = r\<lparr>r_state := StatePending\<rparr> \<Longrightarrow> False"
  "expired n now r \<Longrightarrow> r = r\<lparr>r_state := StatePending, r_owner_worker := w\<rparr> \<Longrightarrow> False"
  by (drule arg_cong [of _ _ r_state], simp add: due_def expired_def)+

text \<open>C5: A promotion pass is exact: it turns precisely the scheduled tasks of the queue whose delay or
  retry instant has come into pending ones, leaves every other record alone, returns their number,
  and leaves no due task scheduled.\<close>

theorem promote_exact:
  assumes "store_inv s"
  shows "let (n, s') = PromoteScheduled s queue now
    in (\<forall>i. record_of s' i =
          map_option (\<lambda>r. if due (queue_name queue) now r then r\<lparr>r_state := StatePending\<rparr> else r)
            (record_of s i)) \<and>
       n = length (filter (\<lambda>(i, r). due (queue_name queue) now r) (s_records s)) \<and>
       (\<forall>i r. record_of s' i = Some r \<longrightarrow> \<not> due (queue_name queue) now r)"
  using PromoteScheduled_spec [OF assms, of queue now]
  by (auto simp: case_prod_unfold map_of_promote_records dest: requeued_differs split: if_splits)

text \<open>C6: A reclaim pass is exact: it returns to pending, without owner, precisely the running tasks of
  the queue whose lease has expired (stale leases superseded by a heartbeat do not count), returns
  their number, and leaves no expired lease behind.\<close>

theorem reclaim_exact:
  assumes "store_inv s"
  shows "let (n, s') = ReclaimExpired s queue now
    in (\<forall>i. record_of s' i =
          map_option (\<lambda>r. if expired (queue_name queue) now r
                          then r\<lparr>r_state := StatePending, r_owner_worker := ''''\<rparr> else r)
            (record_of s i)) \<and>
       n = length (filter (\<lambda>(i, r). expired (queue_name queue) now r) (s_records s)) \<and>
       (\<forall>i r. record_of s' i = Some r \<longrightarrow> \<not> expired (queue_name queue) now r)"
  using ReclaimExpired_spec [OF assms, of queue now]
  by (auto simp: case_prod_unfold map_of_reclaim_records dest: requeued_differs split: if_splits)

subsection \<open>Deduplication\<close>

text \<open>C7: Deduplication is exact. After a task with a unique key was enqueued at \<open>t0\<close>, another enqueue
  with that key at a later \<open>t1\<close> is rejected with \<open>ErrUniqueViolation\<close>, adding no record, exactly
  while the window has not passed (\<open>t1 \<le> t0 + window\<close>); afterwards it is accepted.\<close>

theorem dedup_window_exact:
  assumes "Enqueue t0 n0 id0 s t = (Inr r, s1)" "t_unique_key t = key" "t_unique_key t' = key"
    "key \<noteq> ''''" "s_dedup_window s > 0"
  shows "if t1 \<le> t0 + s_dedup_window s
    then fst (Enqueue t1 n1 id1 s1 t') = Inl ErrUniqueViolation \<and>
         s_records (snd (Enqueue t1 n1 id1 s1 t')) = s_records s1
    else \<exists>r'. fst (Enqueue t1 n1 id1 s1 t') = Inr r'"
proof -
  have s1: "s_dedup s1 key = Some (t0 + s_dedup_window s)" "s_dedup_window s1 = s_dedup_window s"
    "\<not> s_closed s1"
    using assms(1,2,4,5)
    by (auto simp: Enqueue_def Let_def insert_task_def evictDedupExpiredLocked_def
        split: if_splits option.splits)
  show ?thesis
    using s1 assms(3-5)
    by (simp add: Enqueue_def Let_def case_prod_unfold evictDedupExpiredLocked_def)
qed

subsection \<open>Statistics\<close>

definition in_state :: "string \<Rightarrow> task_state \<Rightarrow> task_record \<Rightarrow> bool" where
  "in_state n st r \<longleftrightarrow> t_queue (r_task r) = n \<and> r_state r = st"

definition count_state :: "(string \<times> task_record) list \<Rightarrow> string \<Rightarrow> task_state \<Rightarrow> nat" where
  "count_state recs n st = length (filter (in_state n st) (map snd recs))"

lemma stats_fold_counts:
  "let st' = fst (foldl (stats_step n) st rs); st0 = fst st
   in qs_pending st' = qs_pending st0 + length (filter (in_state n StatePending) rs) \<and>
      qs_scheduled st' = qs_scheduled st0 + length (filter (in_state n StateScheduled) rs) \<and>
      qs_running st' = qs_running st0 + length (filter (in_state n StateRunning) rs) \<and>
      qs_failed st' = qs_failed st0 + length (filter (in_state n StateFailed) rs) \<and>
      qs_oldest_pending_age st' = qs_oldest_pending_age st0"
proof (induction rs arbitrary: st)
  case (Cons r rs)
  show ?case
    using Cons.IH [of "stats_step n st r"]
    by (simp add: Let_def in_state_def stats_step_def case_prod_unfold split: task_state.splits if_splits)
qed (simp add: Let_def)

definition older :: "gotime \<Rightarrow> gotime \<Rightarrow> gotime" where
  "older old t = (if is_zero_time old \<or> t < old then t else old)"

lemma stats_fold_oldest:
  "snd (foldl (stats_step n) st rs) =
   foldl older (snd st) (map r_enqueued_at (filter (in_state n StatePending) rs))"
proof (induction rs arbitrary: st)
  case (Cons r rs)
  have "snd (stats_step n st r) =
    (if in_state n StatePending r then older (snd st) (r_enqueued_at r) else snd st)"
    by (simp add: stats_step_def in_state_def older_def case_prod_unfold split: task_state.split)
  with Cons.IH [of "stats_step n st r"] show ?case by simp
qed simp

lemma foldl_older:
  "0 < old \<Longrightarrow> (\<And>t. t \<in> set ts \<Longrightarrow> 0 < t) \<Longrightarrow> foldl older old ts = Min (insert old (set ts))"
proof (induction ts arbitrary: old)
  case (Cons t ts)
  have "older old t = min old t" using Cons.prems by (auto simp: older_def)
  moreover have "foldl older (min old t) ts = Min (insert (min old t) (set ts))"
    by (rule Cons.IH) (use Cons.prems in auto)
  ultimately show ?case by (cases "ts = []") (simp_all add: min.assoc)
qed simp

lemma foldl_older_zero:
  "(\<And>t. t \<in> set ts \<Longrightarrow> 0 < t) \<Longrightarrow> foldl older 0 ts = (if ts = [] then 0 else Min (set ts))"
  by (cases ts) (simp_all add: older_def foldl_older)

text \<open>The snapshot is right: the four counters are the numbers of records of the queue in the
  respective states, and with a pending task the reported age is that of the oldest one (the
  enqueue instants being after the zero time).\<close>

theorem QueueStats_exact:
  assumes "\<And>i r. (i, r) \<in> set (s_records s) \<Longrightarrow> r_enqueued_at r > 0"
  shows "let st = QueueStats now s queue; n = queue_name queue;
      ts = {r_enqueued_at r | i r. (i, r) \<in> set (s_records s) \<and> in_state n StatePending r}
    in qs_pending st = count_state (s_records s) n StatePending \<and>
       qs_scheduled st = count_state (s_records s) n StateScheduled \<and>
       qs_running st = count_state (s_records s) n StateRunning \<and>
       qs_failed st = count_state (s_records s) n StateFailed \<and>
       qs_oldest_pending_age st = (if ts = {} then 0 else now - Min ts)"
proof -
  let ?n = "queue_name queue"
  let ?z = "\<lparr>qs_pending = 0, qs_scheduled = 0, qs_running = 0, qs_failed = 0, qs_oldest_pending_age = 0\<rparr>"
  let ?f = "foldl (stats_step ?n) (?z, 0) (map snd (s_records s))"
  define ts where "ts = map r_enqueued_at (filter (in_state ?n StatePending) (map snd (s_records s)))"
  have ts_eq: "{r_enqueued_at r | i r. (i, r) \<in> set (s_records s) \<and> in_state ?n StatePending r} = set ts"
    by (force simp: ts_def)
  have old: "snd ?f = (if ts = [] then 0 else Min (set ts))"
    unfolding stats_fold_oldest snd_conv ts_def [symmetric]
    by (rule foldl_older_zero) (use assms in \<open>auto simp: ts_def\<close>)
  have pos: "Min (set ts) \<noteq> 0" if "ts \<noteq> []"
  proof -
    from that have "Min (set ts) \<in> set ts" by simp
    then show ?thesis using assms unfolding ts_def by force
  qed
  show ?thesis
    unfolding Let_def ts_eq set_empty
    using stats_fold_counts [of ?n "(?z, 0)" "map snd (s_records s)"] old pos
    by (auto simp: QueueStats_def count_state_def case_prod_unfold Let_def)
qed

subsection \<open>Concrete runs\<close>

definition sample_task :: task where
  "sample_task = \<lparr>t_id = ''a'', t_type = ''mail'', t_payload = [], t_queue = '''', t_priority = 3,
     t_max_retries = None, t_timeout = 0, t_deadline = 0, t_delay_until = 0, t_unique_key = ''key'',
     t_tags = Map.empty\<rparr>"

definition sample_store :: memory_store where
  "sample_store = snd (Enqueue 10 11 ''x'' (NewMemoryStore 100) sample_task)"

definition sample_running :: memory_store where
  "sample_running = snd (Claim 20 sample_store '''' ''w1'' 30)"

definition sample_scheduled :: memory_store where
  "sample_scheduled = snd (Fail 25 sample_running ''a'' ''w1'' ''boom'' (Some 40))"

definition sample_record :: task_record where
  "sample_record = new_record 11 StatePending (fill_task ''x'' sample_task)"

lemma fresh_id_New [simp]: "fresh_id (NewMemoryStore w) i"
  by (simp add: fresh_id_def NewMemoryStore_def)

lemma sample_inv: "store_inv sample_store" "store_inv sample_running" "store_inv sample_scheduled"
  unfolding sample_store_def sample_running_def sample_scheduled_def
  by (intro store_inv_Fail store_inv_Claim store_inv_Enqueue store_inv_NewMemoryStore fresh_id_New)+

lemma sample_open: "\<not> s_closed sample_store" by code_simp

lemma heap_singleton [simp]: "heap_push lt [] x = [x]" "heap_pop lt [x] = Some (x, [])"
  by (simp_all add: heap_push_def heap_pop_def Let_def list_swap_def heap_up.simps heap_down.simps)

lemma sample_store_eq:
  "s_records sample_store = [(''a'', sample_record)]"
  "s_queues sample_store ''default'' =
     Some \<lparr>q_pending = [\<lparr>p_id = ''a'', p_priority = 3, p_enqueued_at = 11\<rparr>], q_scheduled = [], q_running = []\<rparr>"
  by (simp_all add: sample_store_def sample_record_def Enqueue_def NewMemoryStore_def sample_task_def
      evictDedupExpiredLocked_def insert_task_def alist_put_def Let_def queue_name_def get_queue_def
      newMemQueue_def fill_task_def)

lemma sample_running_eq:
  "s_records sample_running = [(''a'', claimed_record 20 ''w1'' 30 sample_record)]"
  using sample_open
  by (simp add: sample_running_def Claim_def sample_store_eq queue_name_def claim_pop.simps Let_def
      alist_put_def sample_record_def)

lemma sample_scheduled_eq:
  "s_records sample_scheduled = [(''a'', (claimed_record 20 ''w1'' 30 sample_record)
     \<lparr>r_last_error := ''boom'', r_owner_worker := '''', r_state := StateScheduled, r_next_attempt := 40\<rparr>)]"
  by (simp add: sample_scheduled_def Fail_def sample_running_eq may_retry_def Let_def alist_put_def
      sample_record_def sample_task_def fill_task_def)

lemma sample_record_simps [simp]:
  "r_state sample_record = StatePending" "t_queue (r_task sample_record) = ''default''"
  "t_priority (r_task sample_record) = 3" "t_deadline (r_task sample_record) = 0"
  "r_attempts sample_record = 0" "r_enqueued_at sample_record = 11"
  by (simp_all add: sample_record_def sample_task_def fill_task_def queue_name_def new_record_def)



theorem Claim_highest_priority_witness:
  "\<exists>j rj. waiting sample_store '''' j rj \<and>
     fst (Claim 20 sample_store '''' ''w1'' 30) = Inr (Some (claimed_record 20 ''w1'' 30 rj))"
proof -
  have "\<exists>i r. waiting sample_store '''' i r"
    by (intro exI [of _ "''a''"] exI [of _ sample_record])
      (simp add: waiting_def sample_store_eq queue_name_def)
  with Claim_highest_priority [of sample_store "''''" 20 "''w1''" 30] sample_inv(1) sample_open
  show ?thesis by blast
qed

theorem Claim_None_iff_witness:
  "fst (Claim 20 sample_store ''other'' ''w1'' 30) = Inr None"
  using Claim_None_iff [of sample_store 20 "''other''" "''w1''" 30] sample_inv(1) sample_open
  by (simp add: waiting_def sample_store_eq queue_name_def)

theorem late_Complete_error_witness:
  "fst (Complete 70 (snd (ReclaimExpired sample_running '''' 60)) ''a'' ''w1'') = Inl ErrAlreadyTerminal"
  using late_Complete_error [of sample_running "''a''" "claimed_record 20 ''w1'' 30 sample_record" "''''" 60 70]
    sample_inv(2)
  by (simp add: sample_running_eq expired_def queue_name_def Let_def)

theorem Cancel_running_still_retries_witness:
  "map_option r_state (record_of (snd (Fail 30 (snd (Cancel 25 sample_running ''a'')) ''a'' ''w1'' ''err'' (Some 50))) ''a'')
   = Some StateScheduled"
  using Cancel_running_still_retries [of sample_running "''a''" "claimed_record 20 ''w1'' 30 sample_record"
      25 30 "''err''" 50]
  by (simp add: sample_running_eq Let_def case_prod_unfold)

theorem promote_exact_witness:
  "store_inv sample_scheduled \<and> fst (PromoteScheduled sample_scheduled '''' 40) = 1"
  using promote_exact [of sample_scheduled "''''" 40] sample_inv(3)
  by (simp add: case_prod_unfold Let_def sample_scheduled_eq due_def due_at_def queue_name_def)

theorem reclaim_exact_witness:
  "store_inv sample_running \<and> fst (ReclaimExpired sample_running '''' 50) = 1 \<and>
   fst (ReclaimExpired sample_running '''' 49) = 0"
  using reclaim_exact [of sample_running "''''" 50] reclaim_exact [of sample_running "''''" 49] sample_inv(2)
  by (simp add: case_prod_unfold Let_def sample_running_eq expired_def queue_name_def)

theorem dedup_window_exact_witness:
  "fst (Enqueue 110 110 ''y'' sample_store (sample_task\<lparr>t_id := ''b''\<rparr>)) = Inl ErrUniqueViolation \<and>
   (\<exists>r'. fst (Enqueue 111 111 ''y'' sample_store (sample_task\<lparr>t_id := ''b''\<rparr>)) = Inr r')"
proof -
  let ?s = "NewMemoryStore 100"
  have "\<exists>r. Enqueue 10 11 ''x'' ?s sample_task = (Inr r, sample_store)"
    by (simp add: sample_store_def Enqueue_def NewMemoryStore_def sample_task_def
        evictDedupExpiredLocked_def Let_def case_prod_unfold)
  then obtain r where r: "Enqueue 10 11 ''x'' ?s sample_task = (Inr r, sample_store)" ..
  show ?thesis
    using dedup_window_exact [OF r, of "''key''" "sample_task\<lparr>t_id := ''b''\<rparr>" 110 110 "''y''"]
      dedup_window_exact [OF r, of "''key''" "sample_task\<lparr>t_id := ''b''\<rparr>" 111 111 "''y''"]
    by (simp add: sample_task_def NewMemoryStore_def)
qed

theorem QueueStats_exact_witness:
  "qs_pending (QueueStats 20 sample_store '''') = 1 \<and> qs_oldest_pending_age (QueueStats 20 sample_store '''') = 9"
  using QueueStats_exact [of sample_store 20 "''''"]
  by (simp add: Let_def sample_store_eq count_state_def in_state_def queue_name_def)

end
