(* ===== verification/Cache_Memory.thy ===== *)
theory Cache_Memory imports Prelude "HOL-Library.Sublist"
begin

text \<open>
  The cache (\<^verbatim>\<open>providers/cache\<close>): the \<^verbatim>\<open>Cache\<close> interface of \<^verbatim>\<open>cache.go\<close> as a locale over an
  abstract lookup, and the in-process backend of \<^verbatim>\<open>memory.go\<close>, a hash map with a list in
  recently-used order and a byte budget, which is proved to be an instance of it.
  Entries are immutable once inserted, so the pointers shared by the map and the list are copies
  of the entry here; removing a list element by pointer is removing the entry.
\<close>

datatype cache_error = ErrClosed

record memory_entry =
  e_key :: string
  e_value :: bytes
  e_expires_at :: gotime

record memory_cache =
  c_entries :: "(string \<times> memory_entry) list"
  c_order :: "memory_entry list"
  c_cur_bytes :: int
  c_max_bytes :: int
  c_closed :: bool

definition NewMemoryCache :: "int \<Rightarrow> memory_cache" where
  "NewMemoryCache maxBytes =
     \<lparr>c_entries = [], c_order = [], c_cur_bytes = 0, c_max_bytes = maxBytes, c_closed = False\<rparr>"

definition evictLocked :: "memory_cache \<Rightarrow> memory_entry \<Rightarrow> memory_cache" where
  "evictLocked c e =
     c\<lparr>c_order := remove1 e (c_order c), c_entries := alist_del (e_key e) (c_entries c),
       c_cur_bytes := c_cur_bytes c - int (length (e_value e))\<rparr>"

definition cache_expired :: "gotime \<Rightarrow> memory_entry \<Rightarrow> bool" where
  "cache_expired now e \<longleftrightarrow> \<not> is_zero_time (e_expires_at e) \<and> e_expires_at e < now"

definition cache_Get :: "gotime \<Rightarrow> memory_cache \<Rightarrow> string \<Rightarrow> (cache_error + bytes option) \<times> memory_cache" where
  "cache_Get now c key =
     (if c_closed c then (Inl ErrClosed, c)
      else case map_of (c_entries c) key of
        None \<Rightarrow> (Inr None, c)
      | Some e \<Rightarrow>
          if cache_expired now e then (Inr None, evictLocked c e)
          else (Inr (Some (e_value e)), c\<lparr>c_order := e # remove1 e (c_order c)\<rparr>))"

function evict_loop :: "memory_cache \<Rightarrow> memory_cache" where
  "evict_loop c =
     (if c_cur_bytes c > c_max_bytes c then
        if c_order c = [] then c else evict_loop (evictLocked c (last (c_order c)))
      else c)"
  by pat_completeness auto
termination
  by (relation "measure (\<lambda>c. length (c_order c))")
    (auto simp: evictLocked_def length_remove1 neq_Nil_conv)

declare evict_loop.simps [simp del]

definition evictToBudgetLocked :: "memory_cache \<Rightarrow> memory_cache" where
  "evictToBudgetLocked c = (if c_max_bytes c \<le> 0 then c else evict_loop c)"

definition cache_Set ::
  "gotime \<Rightarrow> memory_cache \<Rightarrow> string \<Rightarrow> bytes \<Rightarrow> duration \<Rightarrow> (cache_error + unit) \<times> memory_cache"
where
  "cache_Set now c key val ttl =
     (if c_closed c then (Inl ErrClosed, c)
      else
        let c1 = (case map_of (c_entries c) key of Some existing \<Rightarrow> evictLocked c existing | None \<Rightarrow> c);
            e = \<lparr>e_key = key, e_value = val, e_expires_at = (if ttl > 0 then now + ttl else 0)\<rparr>;
            c2 = c1\<lparr>c_order := e # c_order c1, c_entries := alist_put key e (c_entries c1),
                    c_cur_bytes := c_cur_bytes c1 + int (length val)\<rparr>
        in (Inr (), evictToBudgetLocked c2))"

definition cache_Delete :: "memory_cache \<Rightarrow> string \<Rightarrow> (cache_error + unit) \<times> memory_cache" where
  "cache_Delete c key =
     (if c_closed c then (Inl ErrClosed, c)
      else case map_of (c_entries c) key of
        Some e \<Rightarrow> (Inr (), evictLocked c e)
      | None \<Rightarrow> (Inr (), c))"

fun delete_prefix_loop ::
  "string \<Rightarrow> (string \<times> memory_entry) list \<Rightarrow> memory_cache \<Rightarrow> nat \<Rightarrow> nat \<times> memory_cache"
where
  "delete_prefix_loop pre [] c deleted = (deleted, c)"
| "delete_prefix_loop pre ((k, e) # rest) c deleted =
     (if prefix pre k then delete_prefix_loop pre rest (evictLocked c e) (deleted + 1)
      else delete_prefix_loop pre rest c deleted)"

definition cache_DeletePrefix :: "memory_cache \<Rightarrow> string \<Rightarrow> (cache_error + nat) \<times> memory_cache" where
  "cache_DeletePrefix c pre =
     (if c_closed c then (Inl ErrClosed, c)
      else let (n, c') = delete_prefix_loop pre (c_entries c) c 0 in (Inr n, c'))"

definition cache_Close :: "memory_cache \<Rightarrow> memory_cache" where
  "cache_Close c = c\<lparr>c_closed := True, c_entries := [], c_order := [], c_cur_bytes := 0\<rparr>"

subsection \<open>The invariant\<close>

text \<open>The list holds exactly the entries of the map, each once, and the counter is their size;
  \<open>cache_fits\<close> is the byte budget, which holds between operations.\<close>

definition total_bytes :: "memory_entry list \<Rightarrow> int" where
  "total_bytes es = (\<Sum>e\<leftarrow>es. int (length (e_value e)))"

definition cache_inv :: "memory_cache \<Rightarrow> bool" where
  "cache_inv c \<longleftrightarrow>
     distinct (map fst (c_entries c)) \<and> distinct (map e_key (c_order c)) \<and>
     (\<forall>k e. map_of (c_entries c) k = Some e \<longleftrightarrow> e \<in> set (c_order c) \<and> e_key e = k) \<and>
     c_cur_bytes c = total_bytes (c_order c)"

definition cache_fits :: "memory_cache \<Rightarrow> bool" where
  "cache_fits c \<longleftrightarrow> c_max_bytes c \<le> 0 \<or> c_cur_bytes c \<le> c_max_bytes c"

lemma total_bytes_simps [simp]:
  "total_bytes [] = 0" "total_bytes (e # es) = int (length (e_value e)) + total_bytes es"
  by (simp_all add: total_bytes_def)

lemma total_bytes_remove1:
  "e \<in> set es \<Longrightarrow> total_bytes (remove1 e es) = total_bytes es - int (length (e_value e))"
  by (induction es) auto

lemma total_bytes_nonneg [simp]: "0 \<le> total_bytes es"
  by (induction es) auto

lemma cache_inv_distinct: "cache_inv c \<Longrightarrow> distinct (c_order c)"
  by (simp add: cache_inv_def distinct_map)

lemma cache_inv_lookup:
  "cache_inv c \<Longrightarrow> map_of (c_entries c) k = Some e \<longleftrightarrow> e \<in> set (c_order c) \<and> e_key e = k"
  by (simp add: cache_inv_def)

lemma cache_inv_evict:
  assumes inv: "cache_inv c" and e: "e \<in> set (c_order c)"
  shows "cache_inv (evictLocked c e)"
proof -
  have inj: "x = e" if "x \<in> set (c_order c)" "e_key x = e_key e" for x
    using inv e that by (auto simp: cache_inv_def distinct_map dest: inj_onD)
  show ?thesis
    unfolding cache_inv_def
  proof (intro conjI allI)
    fix k x
    show "(map_of (c_entries (evictLocked c e)) k = Some x) =
      (x \<in> set (c_order (evictLocked c e)) \<and> e_key x = k)"
      using cache_inv_lookup [OF inv] cache_inv_distinct [OF inv] inj
      by (auto simp: evictLocked_def)
  qed (use inv e in \<open>auto simp: cache_inv_def evictLocked_def total_bytes_remove1 distinct_map_remove1\<close>)
qed

subsection \<open>Eviction to the budget\<close>

lemma remove1_last: "distinct xs \<Longrightarrow> xs \<noteq> [] \<Longrightarrow> remove1 (last xs) xs = butlast xs"
  by (induction xs) auto

lemma evict_last:
  assumes "cache_inv c" "c_order c \<noteq> []"
  shows "cache_inv (evictLocked c (last (c_order c)))"
    "c_order (evictLocked c (last (c_order c))) = butlast (c_order c)"
proof -
  show "cache_inv (evictLocked c (last (c_order c)))"
    by (rule cache_inv_evict [OF assms(1)]) (simp add: assms)
  show "c_order (evictLocked c (last (c_order c))) = butlast (c_order c)"
    using cache_inv_distinct [OF assms(1)] assms(2) by (simp add: evictLocked_def remove1_last)
qed

lemma evictLocked_simps [simp]:
  "c_max_bytes (evictLocked c e) = c_max_bytes c" "c_closed (evictLocked c e) = c_closed c"
  by (simp_all add: evictLocked_def)

lemma evict_loop_frame:
  "c_max_bytes (evict_loop c) = c_max_bytes c \<and> c_closed (evict_loop c) = c_closed c"
proof (induction c rule: evict_loop.induct)
  case (1 c)
  then show ?case by (subst (1 2) evict_loop.simps) auto
qed

lemmas evict_loop_simps [simp] = evict_loop_frame [THEN conjunct1] evict_loop_frame [THEN conjunct2]

text \<open>The loop keeps the longest prefix of the recency list that fits.\<close>

lemma evict_loop_spec:
  assumes "cache_inv c"
  shows "cache_inv (evict_loop c) \<and>
    (\<exists>n \<le> length (c_order c). c_order (evict_loop c) = take n (c_order c) \<and>
       (n < length (c_order c) \<longrightarrow> c_max_bytes c < total_bytes (take (Suc n) (c_order c))) \<and>
       (n = 0 \<or> total_bytes (take n (c_order c)) \<le> c_max_bytes c))"
  using assms
proof (induction c rule: evict_loop.induct)
  case (1 c)
  have cur: "c_cur_bytes c = total_bytes (c_order c)" using 1(2) by (simp add: cache_inv_def)
  show ?case
  proof (cases "c_cur_bytes c > c_max_bytes c \<and> c_order c \<noteq> []")
    case True
    let ?o = "c_order c" and ?c = "evictLocked c (last (c_order c))"
    note ev = evict_last [OF 1(2)]
    have eq: "evict_loop c = evict_loop ?c" using True by (subst evict_loop.simps) simp
    from 1(1) True ev obtain n where n: "cache_inv (evict_loop ?c)" "n \<le> length (butlast ?o)"
      "c_order (evict_loop ?c) = take n (butlast ?o)"
      "n < length (butlast ?o) \<longrightarrow> c_max_bytes c < total_bytes (take (Suc n) (butlast ?o))"
      "n = 0 \<or> total_bytes (take n (butlast ?o)) \<le> c_max_bytes c" by auto
    have lt: "n < length ?o" using n(2) True by (simp add: Suc_le_eq [symmetric]) (cases ?o, auto)
    then have tk: "take n (butlast ?o) = take n ?o" by (rule take_butlast)
    have "c_max_bytes c < total_bytes (take (Suc n) ?o)"
    proof (cases "n < length (butlast ?o)")
      case True
      then have "take (Suc n) (butlast ?o) = take (Suc n) ?o" by (intro take_butlast) simp
      then show ?thesis using n(4) True by simp
    next
      case False
      then have "take (Suc n) ?o = ?o" using lt by simp
      then show ?thesis using True cur by simp
    qed
    then show ?thesis
      using n(1,3,5) eq tk lt by (intro conjI exI [of _ n]) auto
  next
    case False
    then have "evict_loop c = c" by (subst evict_loop.simps) auto
    then show ?thesis using False 1(2) cur by (intro conjI exI [of _ "length (c_order c)"]) auto
  qed
qed

subsection \<open>What the operations do to a lookup\<close>

definition cache_look :: "memory_cache \<Rightarrow> gotime \<Rightarrow> string \<Rightarrow> bytes option" where
  "cache_look c t k =
     (case map_of (c_entries c) k of
        Some e \<Rightarrow> if cache_expired t e then None else Some (e_value e)
      | None \<Rightarrow> None)"

lemma evictLocked_lists [simp]:
  "c_entries (evictLocked c e) = alist_del (e_key e) (c_entries c)"
  "c_order (evictLocked c e) = remove1 e (c_order c)"
  by (simp_all add: evictLocked_def)

lemma cache_inv_Get:
  assumes "cache_inv c"
  shows "cache_inv (snd (cache_Get now c k))"
proof -
  have "cache_inv (c\<lparr>c_order := e # remove1 e (c_order c)\<rparr>)" if "e \<in> set (c_order c)" for e
    using assms that cache_inv_distinct [OF assms]
    by (auto simp: cache_inv_def total_bytes_remove1 distinct_map inj_on_def)
  then show ?thesis
    using assms by (auto simp: cache_Get_def cache_inv_lookup intro: cache_inv_evict split: option.split)
qed

lemma cache_look_Get:
  assumes inv: "cache_inv c" and t: "now \<le> t"
  shows "cache_look (snd (cache_Get now c k)) t j = cache_look c t j"
proof (cases "map_of (c_entries c) k")
  case (Some e)
  then have "e_key e = k" using inv by (simp add: cache_inv_lookup)
  with Some t show ?thesis by (auto simp: cache_Get_def cache_look_def cache_expired_def)
qed (simp add: cache_Get_def)

definition drop_old :: "memory_cache \<Rightarrow> string \<Rightarrow> memory_cache" where
  "drop_old c key = (case map_of (c_entries c) key of Some e \<Rightarrow> evictLocked c e | None \<Rightarrow> c)"

lemma drop_old_simps:
  assumes "cache_inv c"
  shows "cache_inv (drop_old c key)" "map_of (c_entries (drop_old c key)) = (map_of (c_entries c))(key := None)"
    "c_max_bytes (drop_old c key) = c_max_bytes c" "c_closed (drop_old c key) = c_closed c"
    "c_order (drop_old c key) = filter (\<lambda>e. e_key e \<noteq> key) (c_order c)"
proof -
  have unique: "remove1 e (c_order c) = filter (\<lambda>x. e_key x \<noteq> key) (c_order c)"
    if "e \<in> set (c_order c)" "e_key e = key" for e
    using assms that cache_inv_distinct [OF assms]
    by (auto simp: distinct_remove1_removeAll removeAll_filter_not_eq cache_inv_def distinct_map
        intro!: filter_cong dest: inj_onD)
  have absent: "filter (\<lambda>x. e_key x \<noteq> key) (c_order c) = c_order c" if "map_of (c_entries c) key = None"
    using that cache_inv_lookup [OF assms] by (auto simp: filter_id_conv) (metis option.distinct(1))
  show "cache_inv (drop_old c key)" "map_of (c_entries (drop_old c key)) = (map_of (c_entries c))(key := None)"
    "c_max_bytes (drop_old c key) = c_max_bytes c" "c_closed (drop_old c key) = c_closed c"
    "c_order (drop_old c key) = filter (\<lambda>e. e_key e \<noteq> key) (c_order c)"
    using assms unique absent
    by (auto simp: drop_old_def cache_inv_lookup intro: cache_inv_evict split: option.split)
qed

definition push_entry :: "memory_cache \<Rightarrow> memory_entry \<Rightarrow> memory_cache" where
  "push_entry c e =
     c\<lparr>c_order := e # c_order c, c_entries := alist_put (e_key e) e (c_entries c),
       c_cur_bytes := c_cur_bytes c + int (length (e_value e))\<rparr>"

lemma push_entry_simps [simp]:
  "c_order (push_entry c e) = e # c_order c"
  "c_entries (push_entry c e) = alist_put (e_key e) e (c_entries c)"
  "c_max_bytes (push_entry c e) = c_max_bytes c" "c_closed (push_entry c e) = c_closed c"
  by (simp_all add: push_entry_def)

lemma cache_inv_push:
  assumes inv: "cache_inv c" and new: "map_of (c_entries c) (e_key e) = None"
  shows "cache_inv (push_entry c e)"
proof -
  have "\<forall>x \<in> set (c_order c). e_key x \<noteq> e_key e"
    using new cache_inv_lookup [OF inv] by (metis option.distinct(1))
  then show ?thesis using inv by (auto simp: cache_inv_def push_entry_def)
qed

definition fresh_entry :: "gotime \<Rightarrow> string \<Rightarrow> bytes \<Rightarrow> duration \<Rightarrow> memory_entry" where
  "fresh_entry now key val ttl =
     \<lparr>e_key = key, e_value = val, e_expires_at = (if ttl > 0 then now + ttl else 0)\<rparr>"

lemma fresh_entry_simps [simp]:
  "e_key (fresh_entry now key val ttl) = key" "e_value (fresh_entry now key val ttl) = val"
  by (simp_all add: fresh_entry_def)

lemma cache_Set_eq:
  "\<not> c_closed c \<Longrightarrow> cache_Set now c key val ttl =
   (Inr (), evictToBudgetLocked (push_entry (drop_old c key) (fresh_entry now key val ttl)))"
  by (simp add: cache_Set_def Let_def push_entry_def drop_old_def fresh_entry_def)

lemma cache_inv_before_evict:
  "cache_inv c \<Longrightarrow> cache_inv (push_entry (drop_old c key) (fresh_entry now key val ttl))"
  by (intro cache_inv_push drop_old_simps) (simp_all add: drop_old_simps)

lemma evictToBudget_spec:
  assumes "cache_inv c"
  shows "cache_inv (evictToBudgetLocked c)" "cache_fits (evictToBudgetLocked c)"
    "c_closed (evictToBudgetLocked c) = c_closed c" "c_max_bytes (evictToBudgetLocked c) = c_max_bytes c"
    "set (c_order (evictToBudgetLocked c)) \<subseteq> set (c_order c)"
proof -
  from evict_loop_spec [OF assms] obtain n where n: "cache_inv (evict_loop c)"
    "c_order (evict_loop c) = take n (c_order c)"
    "n = 0 \<or> total_bytes (take n (c_order c)) \<le> c_max_bytes c" by auto
  then have "c_max_bytes c > 0 \<Longrightarrow> c_cur_bytes (evict_loop c) \<le> c_max_bytes c"
    by (auto simp: cache_inv_def)
  with n assms show "cache_inv (evictToBudgetLocked c)" "cache_fits (evictToBudgetLocked c)"
    "c_closed (evictToBudgetLocked c) = c_closed c" "c_max_bytes (evictToBudgetLocked c) = c_max_bytes c"
    "set (c_order (evictToBudgetLocked c)) \<subseteq> set (c_order c)"
    by (auto simp: evictToBudgetLocked_def cache_fits_def dest: in_set_takeD)
qed

lemma entries_shrink:
  assumes "cache_inv c" "cache_inv c'" "set (c_order c') \<subseteq> set (c_order c)"
  shows "map_of (c_entries c') k = None \<or> map_of (c_entries c') k = map_of (c_entries c) k"
proof (cases "map_of (c_entries c') k")
  case (Some e)
  then have "map_of (c_entries c) k = Some e"
    using assms(3) by (auto simp: cache_inv_lookup [OF assms(1)] cache_inv_lookup [OF assms(2)])
  with Some show ?thesis by simp
qed simp

lemma cache_inv_Set: "cache_inv c \<Longrightarrow> cache_inv (snd (cache_Set now c key val ttl))"
  by (cases "c_closed c")
    (simp add: cache_Set_def, simp add: cache_Set_eq cache_inv_before_evict evictToBudget_spec)

text \<open>What a lookup at \<open>t\<close> sees of an entry stored at \<open>now\<close>.\<close>

definition ttl_value :: "gotime \<Rightarrow> duration \<Rightarrow> bytes \<Rightarrow> gotime \<Rightarrow> bytes option" where
  "ttl_value now ttl val t = (if ttl > 0 \<and> now + ttl < t then None else Some val)"

lemma cache_look_pushed:
  assumes "cache_inv c" "0 \<le> now"
  shows "cache_look (push_entry (drop_old c key) (fresh_entry now key val ttl)) t j =
    (if j = key then ttl_value now ttl val t else cache_look c t j)"
  using assms
  by (simp add: cache_look_def drop_old_simps cache_expired_def fresh_entry_def ttl_value_def)

lemma cache_look_Set:
  assumes inv: "cache_inv c" and now: "0 \<le> now" and opn: "\<not> c_closed c"
  shows "cache_look (snd (cache_Set now c key val ttl)) t j \<in>
    {None, if j = key then ttl_value now ttl val t else cache_look c t j}"
proof -
  let ?c = "push_entry (drop_old c key) (fresh_entry now key val ttl)"
  note i = cache_inv_before_evict [OF inv, of key now val ttl]
  from entries_shrink [OF i evictToBudget_spec(1) [OF i] evictToBudget_spec(5) [OF i], of j]
  have "cache_look (evictToBudgetLocked ?c) t j \<in> {None, cache_look ?c t j}"
    by (auto simp: cache_look_def)
  then show ?thesis using cache_look_pushed [OF inv now] opn by (simp add: cache_Set_eq)
qed

lemma cache_look_Set_uncapped:
  assumes "cache_inv c" "0 \<le> now" "\<not> c_closed c" "c_max_bytes c \<le> 0"
  shows "cache_look (snd (cache_Set now c key val ttl)) t j =
    (if j = key then ttl_value now ttl val t else cache_look c t j)"
  using assms cache_look_pushed [of c now] by (simp add: cache_Set_eq evictToBudgetLocked_def drop_old_simps)

lemma cache_inv_Delete: "cache_inv c \<Longrightarrow> cache_inv (snd (cache_Delete c k))"
  by (auto simp: cache_Delete_def cache_inv_lookup intro: cache_inv_evict split: option.split)

lemma cache_look_Delete:
  assumes "cache_inv c" "\<not> c_closed c"
  shows "cache_look (snd (cache_Delete c k)) t j = (if j = k then None else cache_look c t j)"
proof (cases "map_of (c_entries c) k")
  case (Some e)
  then have "e_key e = k" using assms(1) by (simp add: cache_inv_lookup)
  with Some assms(2) show ?thesis by (auto simp: cache_Delete_def cache_look_def)
qed (use assms(2) in \<open>auto simp: cache_Delete_def cache_look_def\<close>)

lemma delete_prefix_loop_spec:
  assumes "cache_inv c" "distinct (map fst es)"
    "\<And>k e. (k, e) \<in> set es \<Longrightarrow> map_of (c_entries c) k = Some e"
    "delete_prefix_loop pre es c d = (n, c')"
  shows "cache_inv c' \<and> c_closed c' = c_closed c \<and> c_max_bytes c' = c_max_bytes c \<and>
    map_of (c_entries c') j = (if prefix pre j \<and> j \<in> fst ` set es then None else map_of (c_entries c) j) \<and>
    n = d + length (filter (\<lambda>(k, e). prefix pre k) es)"
  using assms
proof (induction pre es c d rule: delete_prefix_loop.induct)
  case (2 pre k e rest c d)
  note inv = 2(3) and d = 2(4) and maps = 2(5) and eq = 2(6)
  have e: "map_of (c_entries c) k = Some e" "e \<in> set (c_order c)" "e_key e = k"
    using maps [of k e] cache_inv_lookup [OF inv, of k e] by simp_all
  have d': "distinct (map fst rest)" and k: "k \<notin> fst ` set rest" using d by auto
  show ?case
  proof (cases "prefix pre k")
    case True
    have "map_of (c_entries (evictLocked c e)) k' = Some e'" if "(k', e') \<in> set rest" for k' e'
    proof -
      have "k' \<noteq> k" using that k by force
      then show ?thesis using maps [of k' e'] that e(3) by simp
    qed
    from 2(1) [OF True cache_inv_evict [OF inv e(2)] d' this] True eq show ?thesis
      using e(3) by auto
  next
    case False
    have "map_of (c_entries c) k' = Some e'" if "(k', e') \<in> set rest" for k' e'
      using maps [of k' e'] that by simp
    from 2(2) [OF False inv d' this] False eq show ?thesis by auto
  qed
qed simp

lemma cache_DeletePrefix_spec:
  assumes inv: "cache_inv c" and opn: "\<not> c_closed c"
  shows "cache_inv (snd (cache_DeletePrefix c pre))"
    "c_closed (snd (cache_DeletePrefix c pre)) = c_closed c"
    "c_max_bytes (snd (cache_DeletePrefix c pre)) = c_max_bytes c"
    "cache_look (snd (cache_DeletePrefix c pre)) t j = (if prefix pre j then None else cache_look c t j)"
    "fst (cache_DeletePrefix c pre) = Inr (card {k \<in> dom (map_of (c_entries c)). prefix pre k})"
proof -
  obtain n c' where r: "delete_prefix_loop pre (c_entries c) c 0 = (n, c')" by fastforce
  have d: "distinct (map fst (c_entries c))" using inv by (simp add: cache_inv_def)
  note spec = delete_prefix_loop_spec [OF inv d _ r]
  have n: "n = length (filter (prefix pre) (map fst (c_entries c)))"
    using spec d by (simp add: filter_map comp_def case_prod_unfold)
  also have "\<dots> = card (set (filter (prefix pre) (map fst (c_entries c))))"
    using d by (intro distinct_card [symmetric] distinct_filter)
  also have "set (filter (prefix pre) (map fst (c_entries c))) = {k \<in> dom (map_of (c_entries c)). prefix pre k}"
    by (auto simp: dom_map_of_conv_image_fst)
  finally show "fst (cache_DeletePrefix c pre) = Inr (card {k \<in> dom (map_of (c_entries c)). prefix pre k})"
    using r opn by (simp add: cache_DeletePrefix_def)
  show "cache_inv (snd (cache_DeletePrefix c pre))"
    "c_closed (snd (cache_DeletePrefix c pre)) = c_closed c"
    "c_max_bytes (snd (cache_DeletePrefix c pre)) = c_max_bytes c"
    using spec d r opn by (auto simp: cache_DeletePrefix_def)
  have "map_of (c_entries c) j = None" if "j \<notin> fst ` set (c_entries c)"
    using that by (simp add: map_of_eq_None_iff)
  then show "cache_look (snd (cache_DeletePrefix c pre)) t j = (if prefix pre j then None else cache_look c t j)"
    using spec [of j] d r opn by (auto simp: cache_DeletePrefix_def cache_look_def)
qed

lemma cache_frame:
  "c_closed (snd (cache_Get now c k)) = c_closed c" "c_max_bytes (snd (cache_Get now c k)) = c_max_bytes c"
  "c_closed (snd (cache_Delete c k)) = c_closed c" "c_max_bytes (snd (cache_Delete c k)) = c_max_bytes c"
  by (auto simp: cache_Get_def cache_Delete_def split: option.split)

lemma cache_Set_closed: "c_closed c \<Longrightarrow> cache_Set now c k v ttl = (Inl ErrClosed, c)"
  by (simp add: cache_Set_def)

lemma cache_frame_Set:
  assumes "cache_inv c"
  shows "c_closed (snd (cache_Set now c k v ttl)) = c_closed c"
    "c_max_bytes (snd (cache_Set now c k v ttl)) = c_max_bytes c"
  by (cases "c_closed c"; use assms in
      \<open>simp add: cache_Set_closed cache_Set_eq cache_inv_before_evict evictToBudget_spec drop_old_simps\<close>)+

subsection \<open>The interface\<close>

text \<open>
  What every backend promises (\<^verbatim>\<open>cache.go\<close>): \<open>look c t k\<close> is what a \<open>Get\<close> of \<open>k\<close> at \<open>t\<close> would
  find. A backend may drop entries (a miss is never wrong), but it never returns anything other
  than the last value stored under the key.
\<close>

locale cache_backend =
  fixes get :: "gotime \<Rightarrow> 'c \<Rightarrow> string \<Rightarrow> (cache_error + bytes option) \<times> 'c"
    and put :: "gotime \<Rightarrow> 'c \<Rightarrow> string \<Rightarrow> bytes \<Rightarrow> duration \<Rightarrow> (cache_error + unit) \<times> 'c"
    and del :: "'c \<Rightarrow> string \<Rightarrow> (cache_error + unit) \<times> 'c"
    and del_prefix :: "'c \<Rightarrow> string \<Rightarrow> (cache_error + nat) \<times> 'c"
    and look :: "'c \<Rightarrow> gotime \<Rightarrow> string \<Rightarrow> bytes option"
    and ok :: "'c \<Rightarrow> bool"
  assumes get_hit: "ok c \<Longrightarrow> fst (get now c k) = Inr (look c now k)"
    and get_ok: "ok c \<Longrightarrow> ok (snd (get now c k))"
    and get_look: "ok c \<Longrightarrow> now \<le> t \<Longrightarrow> look (snd (get now c k)) t j = look c t j"
    and put_ok: "ok c \<Longrightarrow> ok (snd (put now c k v ttl)) \<and> fst (put now c k v ttl) = Inr ()"
    and put_look: "ok c \<Longrightarrow> 0 \<le> now \<Longrightarrow> look (snd (put now c k v ttl)) t j \<in>
      {None, if j = k then ttl_value now ttl v t else look c t j}"
    and del_ok: "ok c \<Longrightarrow> ok (snd (del c k)) \<and> fst (del c k) = Inr ()"
    and del_look: "ok c \<Longrightarrow> look (snd (del c k)) t j = (if j = k then None else look c t j)"
    and del_prefix_ok: "ok c \<Longrightarrow> ok (snd (del_prefix c p))"
    and del_prefix_look: "ok c \<Longrightarrow> look (snd (del_prefix c p)) t j = (if prefix p j then None else look c t j)"
begin

text \<open>\<open>below c m now\<close>: from \<open>now\<close> on, whatever the backend finds is what the map \<open>m\<close> holds.\<close>

definition below :: "'c \<Rightarrow> (gotime \<Rightarrow> string \<Rightarrow> bytes option) \<Rightarrow> gotime \<Rightarrow> bool" where
  "below c m now \<longleftrightarrow> (\<forall>t \<ge> now. \<forall>j v. look c t j = Some v \<longrightarrow> m t j = Some v)"

lemma below_later: "below c m t0 \<Longrightarrow> t0 \<le> t1 \<Longrightarrow> below c m t1"
  by (auto simp: below_def)

lemma below_get: "ok c \<Longrightarrow> below c m now \<Longrightarrow> below (snd (get now c k)) m now"
  by (simp add: below_def get_look)

lemma below_put:
  assumes "ok c" "0 \<le> now" "below c m now"
  shows "below (snd (put now c k v ttl)) (\<lambda>t j. if j = k then ttl_value now ttl v t else m t j) now"
  unfolding below_def
proof (intro allI impI)
  fix t j w assume t: "now \<le> t" and w: "look (snd (put now c k v ttl)) t j = Some w"
  then have "(if j = k then ttl_value now ttl v t else look c t j) = Some w"
    using put_look [OF assms(1,2), of k v ttl t j] by auto
  then show "(if j = k then ttl_value now ttl v t else m t j) = Some w"
    using assms(3) t by (auto simp: below_def split: if_splits)
qed

lemma below_del:
  "ok c \<Longrightarrow> below c m now \<Longrightarrow> below (snd (del c k)) (\<lambda>t j. if j = k then None else m t j) now"
  by (simp add: below_def del_look)

lemma below_del_prefix:
  "ok c \<Longrightarrow> below c m now \<Longrightarrow> below (snd (del_prefix c p)) (\<lambda>t j. if prefix p j then None else m t j) now"
  by (simp add: below_def del_prefix_look)

lemma get_below: "ok c \<Longrightarrow> below c m now \<Longrightarrow> fst (get now c k) = Inr (Some v) \<Longrightarrow> m now k = Some v"
  by (auto simp: below_def get_hit)

end

text \<open>A backend with no capacity limit loses nothing.\<close>

locale lossless_cache = cache_backend +
  assumes put_look_exact: "ok c \<Longrightarrow> 0 \<le> now \<Longrightarrow> look (snd (put now c k v ttl)) t j =
    (if j = k then ttl_value now ttl v t else look c t j)"
begin

definition same :: "'a \<Rightarrow> (gotime \<Rightarrow> string \<Rightarrow> bytes option) \<Rightarrow> gotime \<Rightarrow> bool" where
  "same c m now \<longleftrightarrow> (\<forall>t \<ge> now. \<forall>j. look c t j = m t j)"

lemma same_later: "same c m t0 \<Longrightarrow> t0 \<le> t1 \<Longrightarrow> same c m t1"
  by (auto simp: same_def)

lemma same_get: "ok c \<Longrightarrow> same c m now \<Longrightarrow> same (snd (get now c k)) m now"
  by (simp add: same_def get_look)

lemma same_put:
  "ok c \<Longrightarrow> 0 \<le> now \<Longrightarrow> same c m now \<Longrightarrow>
   same (snd (put now c k v ttl)) (\<lambda>t j. if j = k then ttl_value now ttl v t else m t j) now"
  by (simp add: same_def put_look_exact)

lemma same_del:
  "ok c \<Longrightarrow> same c m now \<Longrightarrow> same (snd (del c k)) (\<lambda>t j. if j = k then None else m t j) now"
  by (simp add: same_def del_look)

lemma same_del_prefix:
  "ok c \<Longrightarrow> same c m now \<Longrightarrow> same (snd (del_prefix c p)) (\<lambda>t j. if prefix p j then None else m t j) now"
  by (simp add: same_def del_prefix_look)

end

definition cache_ok :: "memory_cache \<Rightarrow> bool" where
  "cache_ok c \<longleftrightarrow> cache_inv c \<and> \<not> c_closed c"

lemma cache_Get_result: "\<not> c_closed c \<Longrightarrow> fst (cache_Get now c k) = Inr (cache_look c now k)"
  by (auto simp: cache_Get_def cache_look_def split: option.split)

interpretation memc: cache_backend cache_Get cache_Set cache_Delete cache_DeletePrefix cache_look cache_ok
proof unfold_locales
  fix c k now v ttl t j assume c: "cache_ok c"
  show "cache_ok (snd (cache_Set now c k v ttl)) \<and> fst (cache_Set now c k v ttl) = Inr ()"
    using c cache_inv_Set [of c now k v ttl] cache_frame_Set [of c now k v ttl] cache_Set_eq [of c now k v ttl]
    by (simp add: cache_ok_def)
  show "cache_ok (snd (cache_Delete c k)) \<and> fst (cache_Delete c k) = Inr ()"
    using c by (auto simp: cache_ok_def cache_inv_Delete cache_frame) (auto simp: cache_Delete_def split: option.split)
qed (auto simp: cache_ok_def cache_Get_result cache_inv_Get cache_frame cache_look_Get cache_look_Set
      cache_look_Delete cache_DeletePrefix_spec simp del: insert_iff)

interpretation memc_uncapped: lossless_cache cache_Get cache_Set cache_Delete cache_DeletePrefix cache_look
  "\<lambda>c. cache_ok c \<and> c_max_bytes c \<le> 0"
  by unfold_locales
    (auto simp: memc.get_hit memc.get_ok memc.get_look memc.put_ok memc.del_ok memc.del_look memc.del_prefix_ok
      memc.del_prefix_look cache_frame cache_frame_Set cache_DeletePrefix_spec cache_look_Set_uncapped cache_ok_def
      cache_inv_Get cache_inv_Set cache_inv_Delete)

subsection \<open>Runs\<close>

text \<open>Sequences of timed calls on the memory cache, and the plain time-to-live map they stand for.\<close>

datatype cache_op =
  OpGet string | OpSet string bytes duration | OpDelete string | OpDeletePrefix string

fun cache_step :: "gotime \<Rightarrow> cache_op \<Rightarrow> memory_cache \<Rightarrow> memory_cache" where
  "cache_step now (OpGet k) c = snd (cache_Get now c k)"
| "cache_step now (OpSet k v ttl) c = snd (cache_Set now c k v ttl)"
| "cache_step now (OpDelete k) c = snd (cache_Delete c k)"
| "cache_step now (OpDeletePrefix p) c = snd (cache_DeletePrefix c p)"

fun ttl_step :: "gotime \<Rightarrow> cache_op \<Rightarrow> (gotime \<Rightarrow> string \<Rightarrow> bytes option) \<Rightarrow> gotime \<Rightarrow> string \<Rightarrow> bytes option" where
  "ttl_step now (OpGet k) m t j = m t j"
| "ttl_step now (OpSet k v ttl) m t j = (if j = k then ttl_value now ttl v t else m t j)"
| "ttl_step now (OpDelete k) m t j = (if j = k then None else m t j)"
| "ttl_step now (OpDeletePrefix p) m t j = (if prefix p j then None else m t j)"

definition cache_run :: "(gotime \<times> cache_op) list \<Rightarrow> memory_cache \<Rightarrow> memory_cache" where
  "cache_run ops c = fold (\<lambda>(now, op). cache_step now op) ops c"

definition ttl_run :: "(gotime \<times> cache_op) list \<Rightarrow> gotime \<Rightarrow> string \<Rightarrow> bytes option" where
  "ttl_run ops = fold (\<lambda>(now, op). ttl_step now op) ops (\<lambda>t j. None)"

definition clock_ok :: "(gotime \<times> cache_op) list \<Rightarrow> gotime \<Rightarrow> bool" where
  "clock_ok ops now \<longleftrightarrow> sorted (0 # map fst ops @ [now])"

lemma ttl_step_eqs:
  "ttl_step now (OpGet k) m = m"
  "ttl_step now (OpSet k v ttl) m = (\<lambda>t j. if j = k then ttl_value now ttl v t else m t j)"
  "ttl_step now (OpDelete k) m = (\<lambda>t j. if j = k then None else m t j)"
  "ttl_step now (OpDeletePrefix p) m = (\<lambda>t j. if prefix p j then None else m t j)"
  by (simp_all add: fun_eq_iff)

lemma cache_step_below:
  assumes "cache_ok c" "0 \<le> now" "memc.below c m now"
  shows "cache_ok (cache_step now op c) \<and> memc.below (cache_step now op c) (ttl_step now op m) now"
  using assms
  by (cases op) (simp_all add: ttl_step_eqs memc.get_ok memc.put_ok memc.del_ok memc.del_prefix_ok
      memc.below_get memc.below_put memc.below_del memc.below_del_prefix)

lemma cache_step_same:
  assumes "cache_ok c \<and> c_max_bytes c \<le> 0" "0 \<le> now" "memc_uncapped.same c m now"
  shows "(cache_ok (cache_step now op c) \<and> c_max_bytes (cache_step now op c) \<le> 0) \<and>
    memc_uncapped.same (cache_step now op c) (ttl_step now op m) now"
  using assms memc_uncapped.get_ok [OF assms(1)] memc_uncapped.put_ok [OF assms(1)]
    memc_uncapped.del_ok [OF assms(1)] memc_uncapped.del_prefix_ok [OF assms(1)]
  by (cases op) (simp_all add: ttl_step_eqs memc_uncapped.same_get memc_uncapped.same_put
      memc_uncapped.same_del memc_uncapped.same_del_prefix)

lemma cache_run_below:
  assumes "cache_ok c" "memc.below c m t0" "sorted (0 # t0 # map fst ops @ [now])"
  shows "cache_ok (cache_run ops c) \<and>
    memc.below (cache_run ops c) (fold (\<lambda>(now, op). ttl_step now op) ops m) now"
  using assms
proof (induction ops arbitrary: c m t0)
  case Nil
  then show ?case using memc.below_later by (simp add: cache_run_def)
next
  case (Cons p ops)
  obtain t op where p: "p = (t, op)" by (cases p)
  have "memc.below c m t" using Cons.prems(2,3) memc.below_later p by simp
  with cache_step_below [of c t m op] Cons.prems p
  have "cache_ok (cache_step t op c) \<and> memc.below (cache_step t op c) (ttl_step t op m) t" by simp
  with Cons.IH [of "cache_step t op c" "ttl_step t op m" t] Cons.prems(3) p show ?case
    by (simp add: cache_run_def)
qed

lemma cache_run_same:
  assumes "cache_ok c \<and> c_max_bytes c \<le> 0" "memc_uncapped.same c m t0" "sorted (0 # t0 # map fst ops @ [now])"
  shows "(cache_ok (cache_run ops c) \<and> c_max_bytes (cache_run ops c) \<le> 0) \<and>
    memc_uncapped.same (cache_run ops c) (fold (\<lambda>(now, op). ttl_step now op) ops m) now"
  using assms
proof (induction ops arbitrary: c m t0)
  case Nil
  then show ?case using memc_uncapped.same_later by (simp add: cache_run_def)
next
  case (Cons p ops)
  obtain t op where p: "p = (t, op)" by (cases p)
  have "memc_uncapped.same c m t" using Cons.prems(2,3) memc_uncapped.same_later p by simp
  with cache_step_same [of c t m op] Cons.prems p
  have "(cache_ok (cache_step t op c) \<and> c_max_bytes (cache_step t op c) \<le> 0) \<and>
    memc_uncapped.same (cache_step t op c) (ttl_step t op m) t" by simp
  with Cons.IH [of "cache_step t op c" "ttl_step t op m" t] Cons.prems(3) p show ?case
    by (simp add: cache_run_def)
qed

lemma cache_fits_drop: "cache_fits c \<Longrightarrow> cache_fits (evictLocked c e)"
  by (auto simp: cache_fits_def evictLocked_def)

lemma delete_prefix_fits: "cache_fits c \<Longrightarrow> cache_fits (snd (delete_prefix_loop pre es c d))"
  by (induction pre es c d rule: delete_prefix_loop.induct) (simp_all add: cache_fits_drop)

lemma cache_step_accounts:
  assumes "cache_inv c \<and> cache_fits c"
  shows "cache_inv (cache_step now op c) \<and> cache_fits (cache_step now op c)"
proof (cases "c_closed c")
  case True
  then show ?thesis
    using assms by (cases op) (simp_all add: cache_Get_def cache_Set_def cache_Delete_def cache_DeletePrefix_def)
next
  case False
  show ?thesis
  proof (cases op)
    case (OpGet k)
    have "cache_fits (c\<lparr>c_order := os\<rparr>)" for os using assms by (simp add: cache_fits_def)
    then show ?thesis
      using OpGet assms cache_inv_Get [of c now k] cache_fits_drop [of c]
      by (auto simp: cache_Get_def split: option.split)
  next
    case (OpSet k v ttl)
    then show ?thesis
      using assms False cache_inv_Set [of c now k v ttl]
      by (simp add: cache_Set_eq evictToBudget_spec cache_inv_before_evict)
  next
    case (OpDelete k)
    then show ?thesis
      using assms cache_inv_Delete [of c k] cache_fits_drop [of c]
      by (auto simp: cache_Delete_def split: option.split)
  next
    case (OpDeletePrefix p)
    then show ?thesis
      using assms False cache_DeletePrefix_spec(1) [of c p] delete_prefix_fits [of c p "c_entries c" 0]
      by (simp add: cache_DeletePrefix_def case_prod_unfold Let_def)
  qed
qed

lemma cache_ok_New [simp]: "cache_ok (NewMemoryCache n)"
  by (simp add: cache_ok_def NewMemoryCache_def cache_inv_def)

lemma cache_look_New [simp]: "cache_look (NewMemoryCache n) t j = None"
  by (simp add: cache_look_def NewMemoryCache_def)

text \<open>C10: The memory cache never returns a stale or foreign value: after any sequence of gets, sets,
  deletes and prefix deletes on a new cache of any capacity, with a clock that does not run
  backwards, a hit is the value the last set of that key stored, not deleted and not expired since.\<close>

theorem cache_coherent:
  assumes "clock_ok ops now" "fst (cache_Get now (cache_run ops (NewMemoryCache n)) k) = Inr (Some v)"
  shows "ttl_run ops now k = Some v"
proof -
  have "memc.below (NewMemoryCache n) (\<lambda>t j. None) 0" by (simp add: memc.below_def)
  from cache_run_below [OF cache_ok_New this, of ops now] assms(1)
  have "cache_ok (cache_run ops (NewMemoryCache n)) \<and> memc.below (cache_run ops (NewMemoryCache n)) (ttl_run ops) now"
    by (simp add: clock_ok_def ttl_run_def)
  then show ?thesis using memc.get_below assms(2) by blast
qed

text \<open>C11: With no capacity limit the cache is exactly a map with time to live: a get returns what the
  map holds, hit or miss.\<close>

theorem cache_uncapped_exact:
  assumes "clock_ok ops now" "n \<le> 0"
  shows "fst (cache_Get now (cache_run ops (NewMemoryCache n)) k) = Inr (ttl_run ops now k)"
proof -
  have "memc_uncapped.same (NewMemoryCache n) (\<lambda>t j. None) 0" by (simp add: memc_uncapped.same_def)
  moreover have "c_max_bytes (NewMemoryCache n) \<le> 0" using assms(2) by (simp add: NewMemoryCache_def)
  ultimately
  have "(cache_ok (cache_run ops (NewMemoryCache n)) \<and> c_max_bytes (cache_run ops (NewMemoryCache n)) \<le> 0) \<and>
    memc_uncapped.same (cache_run ops (NewMemoryCache n)) (ttl_run ops) now"
    using cache_run_same [of "NewMemoryCache n" "\<lambda>t j. None" 0 ops now] assms(1)
    by (simp add: clock_ok_def ttl_run_def)
  then show ?thesis using memc_uncapped.get_hit by (auto simp: memc_uncapped.same_def)
qed

lemma cache_run_accounts:
  "cache_inv c \<and> cache_fits c \<Longrightarrow> cache_inv (cache_run ops c) \<and> cache_fits (cache_run ops c)"
proof (induction ops arbitrary: c)
  case (Cons p ops)
  obtain t op where p: "p = (t, op)" by (cases p)
  from Cons.IH [OF cache_step_accounts [OF Cons.prems, of t op]] p show ?case by (simp add: cache_run_def)
qed (simp add: cache_run_def)

lemma cache_New_accounts: "cache_inv (NewMemoryCache n) \<and> cache_fits (NewMemoryCache n)"
  by (auto simp: NewMemoryCache_def cache_inv_def cache_fits_def)

text \<open>The accounting never drifts: after every sequence of operations on a new cache the recency
  list holds exactly the entries of the map, once each, the byte counter is the sum of their sizes,
  and a positive byte limit is respected.\<close>

theorem cache_accounting:
  "cache_inv (cache_run ops (NewMemoryCache n)) \<and> cache_fits (cache_run ops (NewMemoryCache n))"
  by (rule cache_run_accounts) (rule cache_New_accounts)

text \<open>C12: Eviction is least-recently-used and minimal: a set puts its entry in front of the others and
  keeps the longest initial segment of the recency order that fits into the byte limit, so an entry
  is dropped only if it and everything touched more recently do not fit together.\<close>

theorem cache_Set_lru:
  assumes "cache_inv c" "\<not> c_closed c" "c_max_bytes c > 0"
  shows "let recent = fresh_entry now key val ttl # filter (\<lambda>e. e_key e \<noteq> key) (c_order c);
      kept = c_order (snd (cache_Set now c key val ttl))
    in \<exists>n \<le> length recent. kept = take n recent \<and> total_bytes kept \<le> c_max_bytes c \<and>
         (n < length recent \<longrightarrow> total_bytes (take (Suc n) recent) > c_max_bytes c)"
  using evict_loop_spec [OF cache_inv_before_evict [OF assms(1), of key now val ttl]] assms
  by (auto simp: Let_def cache_Set_eq evictToBudgetLocked_def drop_old_simps)

subsection \<open>A concrete run\<close>

definition sample_ops :: "(gotime \<times> cache_op) list" where
  "sample_ops = [(1, OpSet ''a'' ''11'' 5), (2, OpSet ''b'' ''22'' 0), (3, OpGet ''a''), (4, OpSet ''c'' ''33'' 0)]"

theorem cache_coherent_witness:
  "clock_ok sample_ops 5 \<and>
   fst (cache_Get 5 (cache_run sample_ops (NewMemoryCache 4)) ''a'') = Inr (Some ''11'') \<and>
   ttl_run sample_ops 5 ''a'' = Some ''11''"
proof -
  have "clock_ok sample_ops 5" by code_simp
  moreover have "fst (cache_Get 5 (cache_run sample_ops (NewMemoryCache 4)) ''a'') = Inr (Some ''11'')"
    by code_simp
  ultimately show ?thesis using cache_coherent [of sample_ops 5 4 "''a''" "''11''"] by blast
qed

theorem cache_uncapped_exact_witness:
  "clock_ok sample_ops 5 \<and> fst (cache_Get 5 (cache_run sample_ops (NewMemoryCache 0)) ''b'') = Inr (Some ''22'')"
proof -
  have "clock_ok sample_ops 5" by code_simp
  moreover have "ttl_run sample_ops 5 ''b'' = Some ''22''" by code_simp
  ultimately show ?thesis using cache_uncapped_exact [of sample_ops 5 0 "''b''"] by simp
qed

theorem cache_Set_lru_witness:
  "\<exists>n \<le> 3. c_order (snd (cache_Set 6 (cache_run (take 3 sample_ops) (NewMemoryCache 4)) ''c'' ''33'' 0)) =
     take n (fresh_entry 6 ''c'' ''33'' 0 # c_order (cache_run (take 3 sample_ops) (NewMemoryCache 4)))"
proof -
  let ?c = "cache_run (take 3 sample_ops) (NewMemoryCache 4)"
  have c: "cache_inv ?c"
    using cache_run_accounts [OF cache_New_accounts] by blast
  have "\<not> c_closed ?c" "c_max_bytes ?c > 0" "length (c_order ?c) = 2"
    "filter (\<lambda>e. e_key e \<noteq> ''c'') (c_order ?c) = c_order ?c" by code_simp+
  with cache_Set_lru [OF c, of 6 "''c''" "''33''" 0] show ?thesis
    by (auto simp: Let_def)
qed

end
