(* ===== verification/Workflow_Def.thy ===== *)
theory Workflow_Def imports
  Prelude
begin

text \<open>
  Workflow definitions (\<^verbatim>\<open>providers/workflows/workflows.go\<close>): the builder of a graph of named nodes,
  its validation (\<open>Validate\<close> with the depth-first search \<open>detectCyclesLocked\<close>) and the queries the
  engine makes (\<open>roots\<close>, \<open>children\<close>, \<open>descendants\<close>). Proved: validation accepts exactly the non-empty
  acyclic graphs with known parents and task types, a reported cycle is a cycle of the graph, and
  \<open>descendants\<close> is the transitive closure of \<open>children\<close>.
  A missing node is a nil pointer in the source; dereferencing it is the error \<open>WfPanic\<close>.
\<close>

section \<open>Definitions\<close>

datatype FailPolicy = FailHaltWorkflow | FailSkipDownstream | FailContinue

record node =
  n_name :: string
  n_taskType :: string
  n_parents :: "string list"
  n_failure :: FailPolicy
  n_priority :: int
  n_maxRetries :: "int option"

record workflow_def =
  d_name :: string
  d_nodes :: "(string \<times> node) list"
  d_order :: "string list"

record NodeRef =
  ref_def :: string
  ref_name :: string

datatype def_error =
    WfEmptyName
  | WfDuplicate string
  | WfNoNodes
  | WfNoType string
  | WfUnknownParent string string
  | WfSelfParent string
  | WfCycle "string list"
  | WfPanic

definition NewDefinition :: "string \<Rightarrow> workflow_def" where
  "NewDefinition name = \<lparr>d_name = name, d_nodes = [], d_order = []\<rparr>"

type_synonym NodeOption = "node \<Rightarrow> node"

definition OfType :: "string \<Rightarrow> NodeOption" where
  "OfType taskType n = n\<lparr>n_taskType := taskType\<rparr>"

definition DependsOn :: "NodeRef list \<Rightarrow> NodeOption" where
  "DependsOn refs n = foldl (\<lambda>n r. n\<lparr>n_parents := n_parents n @ [ref_name r]\<rparr>) n refs"

definition DependsOnByName :: "string list \<Rightarrow> NodeOption" where
  "DependsOnByName names n = n\<lparr>n_parents := n_parents n @ names\<rparr>"

definition OnFail :: "FailPolicy \<Rightarrow> NodeOption" where
  "OnFail policy n = n\<lparr>n_failure := policy\<rparr>"

definition NodePriority :: "int \<Rightarrow> NodeOption" where
  "NodePriority p n = n\<lparr>n_priority := p\<rparr>"

definition NodeRetries :: "int \<Rightarrow> NodeOption" where
  "NodeRetries k n = n\<lparr>n_maxRetries := Some k\<rparr>"

definition AddNode :: "string \<Rightarrow> NodeOption list \<Rightarrow> workflow_def \<Rightarrow> (def_error + NodeRef) \<times> workflow_def" where
  "AddNode nodeName opts d =
     (if nodeName = [] then (Inl WfEmptyName, d)
      else if map_of (d_nodes d) nodeName \<noteq> None then (Inl (WfDuplicate nodeName), d)
      else
        let n = \<lparr>n_name = nodeName, n_taskType = [], n_parents = [], n_failure = FailHaltWorkflow,
                 n_priority = 0, n_maxRetries = None\<rparr>;
            n = foldl (\<lambda>n opt. opt n) n opts
        in (Inr \<lparr>ref_def = d_name d, ref_name = nodeName\<rparr>,
            d\<lparr>d_nodes := alist_put nodeName n (d_nodes d), d_order := d_order d @ [nodeName]\<rparr>))"

definition MustAdd :: "string \<Rightarrow> NodeOption list \<Rightarrow> workflow_def \<Rightarrow> (NodeRef \<times> workflow_def) option" where
  "MustAdd nodeName opts d = (case AddNode nodeName opts d of (Inl err, d') \<Rightarrow> None | (Inr ref, d') \<Rightarrow> Some (ref, d'))"

subsection \<open>Validation\<close>

fun check_parents :: "workflow_def \<Rightarrow> string \<Rightarrow> string list \<Rightarrow> def_error option" where
  "check_parents d name [] = None"
| "check_parents d name (p # ps) =
     (if map_of (d_nodes d) p = None then Some (WfUnknownParent name p)
      else if p = name then Some (WfSelfParent name)
      else check_parents d name ps)"

fun check_nodes :: "workflow_def \<Rightarrow> string list \<Rightarrow> def_error option" where
  "check_nodes d [] = None"
| "check_nodes d (name # rest) =
     (case map_of (d_nodes d) name of
        None \<Rightarrow> Some WfPanic
      | Some n \<Rightarrow>
          if n_taskType n = [] then Some (WfNoType name)
          else (case check_parents d name (n_parents n) of
                  Some err \<Rightarrow> Some err
                | None \<Rightarrow> check_nodes d rest))"

datatype color = White | Gray | Black

type_synonym dfs_state = "(string \<Rightarrow> color) \<times> string list"

definition dfs_enter :: "string \<Rightarrow> dfs_state \<Rightarrow> dfs_state" where
  "dfs_enter name st = ((fst st)(name := Gray), snd st @ [name])"

definition dfs_leave :: "string \<Rightarrow> dfs_state \<Rightarrow> dfs_state" where
  "dfs_leave name st = ((fst st)(name := Black), butlast (snd st))"

definition cycle_path :: "string \<Rightarrow> string list \<Rightarrow> string list" where
  "cycle_path parent stack = dropWhile (\<lambda>s. s \<noteq> parent) stack @ [parent]"

text \<open>The body of the closure \<^verbatim>\<open>visit\<close> is its loop over the parents, between entering and leaving
  the node; a white parent is visited in place.\<close>

function (domintros) visit_parents :: "workflow_def \<Rightarrow> string list \<Rightarrow> dfs_state \<Rightarrow> def_error + dfs_state" where
  "visit_parents d [] st = Inr st"
| "visit_parents d (parent # ps) st =
     (case fst st parent of
        White \<Rightarrow>
          (case map_of (d_nodes d) parent of
             None \<Rightarrow> Inl WfPanic
           | Some n \<Rightarrow>
               (case visit_parents d (n_parents n) (dfs_enter parent st) of
                  Inl err \<Rightarrow> Inl err
                | Inr st' \<Rightarrow> visit_parents d ps (dfs_leave parent st')))
      | Gray \<Rightarrow> Inl (WfCycle (cycle_path parent (snd st)))
      | Black \<Rightarrow> visit_parents d ps st)"
  by pat_completeness auto

definition whites :: "workflow_def \<Rightarrow> dfs_state \<Rightarrow> nat" where
  "whites d st = card {x \<in> fst ` set (d_nodes d). fst st x = White}"

lemma whites_mono:
  "(\<And>x. fst st' x = White \<Longrightarrow> fst st x = White) \<Longrightarrow> whites d st' \<le> whites d st"
  unfolding whites_def by (rule card_mono) auto

lemma whites_enter:
  assumes "fst st p = White" "map_of (d_nodes d) p = Some n"
  shows "whites d (dfs_enter p st) < whites d st"
  unfolding whites_def
proof (rule psubset_card_mono)
  have "p \<in> fst ` set (d_nodes d)" using map_of_SomeD [OF assms(2)] by force
  then show "{x \<in> fst ` set (d_nodes d). fst (dfs_enter p st) x = White}
      \<subset> {x \<in> fst ` set (d_nodes d). fst st x = White}"
    using assms(1) by (auto simp: dfs_enter_def)
qed simp

lemma visit_whites:
  "visit_parents_dom (d, ps, st) \<Longrightarrow> visit_parents d ps st = Inr st' \<Longrightarrow> fst st' x = White \<Longrightarrow> fst st x = White"
proof (induction d ps st arbitrary: st' rule: visit_parents.pinduct)
  case (1 d st)
  then show ?case by (simp add: visit_parents.psimps)
next
  case (2 d p ps st)
  show ?case
  proof (cases "fst st p")
    case White
    with 2 obtain n st1 where n: "map_of (d_nodes d) p = Some n"
      and st1: "visit_parents d (n_parents n) (dfs_enter p st) = Inr st1"
      and st': "visit_parents d ps (dfs_leave p st1) = Inr st'"
      by (auto simp: visit_parents.psimps split: option.splits sum.splits)
    have "fst (dfs_leave p st1) x = White" using 2(3) [OF White n st1 st'] 2 by simp
    then have "fst st1 x = White" "x \<noteq> p" by (auto simp: dfs_leave_def split: if_splits)
    then have "fst (dfs_enter p st) x = White" using 2(2) [OF White n st1] by simp
    then show ?thesis using \<open>x \<noteq> p\<close> by (simp add: dfs_enter_def)
  qed (use 2 in \<open>auto simp: visit_parents.psimps\<close>)
qed

termination visit_parents
proof (relation "measures [\<lambda>(d, ps, st). whites d st, \<lambda>(d, ps, st). length ps]")
  fix d :: workflow_def and p ps n and st st' :: dfs_state
  assume w: "fst st p = White" and n: "map_of (d_nodes d) p = Some n"
  show "((d, n_parents n, dfs_enter p st), d, p # ps, st)
      \<in> measures [\<lambda>(d, ps, st). whites d st, \<lambda>(d, ps, st). length ps]"
    using whites_enter [OF w n] by simp
  assume v: "visit_parents d (n_parents n) (dfs_enter p st) = Inr st'"
    and dom: "visit_parents_dom (d, n_parents n, dfs_enter p st)"
  have "whites d (dfs_leave p st') \<le> whites d (dfs_enter p st)"
    by (rule whites_mono) (auto simp: dfs_leave_def split: if_splits intro: visit_whites [OF dom v])
  then show "((d, ps, dfs_leave p st'), d, p # ps, st)
      \<in> measures [\<lambda>(d, ps, st). whites d st, \<lambda>(d, ps, st). length ps]"
    using whites_enter [OF w n] by simp
qed auto

definition dfs_visit :: "workflow_def \<Rightarrow> string \<Rightarrow> dfs_state \<Rightarrow> def_error + dfs_state" where
  "dfs_visit d name st =
     (case map_of (d_nodes d) name of
        None \<Rightarrow> Inl WfPanic
      | Some n \<Rightarrow>
          (case visit_parents d (n_parents n) (dfs_enter name st) of
             Inl err \<Rightarrow> Inl err
           | Inr st' \<Rightarrow> Inr (dfs_leave name st')))"

fun cycles_loop :: "workflow_def \<Rightarrow> string list \<Rightarrow> dfs_state \<Rightarrow> def_error option" where
  "cycles_loop d [] st = None"
| "cycles_loop d (name # rest) st =
     (if fst st name = White then
        (case dfs_visit d name st of
           Inl err \<Rightarrow> Some err
         | Inr st' \<Rightarrow> cycles_loop d rest st')
      else cycles_loop d rest st)"

definition detectCyclesLocked :: "workflow_def \<Rightarrow> def_error option" where
  "detectCyclesLocked d = cycles_loop d (d_order d) (\<lambda>_. White, [])"

definition Validate :: "workflow_def \<Rightarrow> def_error option" where
  "Validate d =
     (if length (d_nodes d) = 0 then Some WfNoNodes
      else (case check_nodes d (d_order d) of
              Some err \<Rightarrow> Some err
            | None \<Rightarrow> detectCyclesLocked d))"

subsection \<open>Queries\<close>

definition nodeNames :: "workflow_def \<Rightarrow> string list" where
  "nodeNames d = d_order d"

definition parents_of :: "workflow_def \<Rightarrow> string \<Rightarrow> string list" where
  "parents_of d name = (case map_of (d_nodes d) name of None \<Rightarrow> [] | Some n \<Rightarrow> n_parents n)"

definition roots :: "workflow_def \<Rightarrow> string list" where
  "roots d = sort (filter (\<lambda>name. length (parents_of d name) = 0) (d_order d))"

definition childrenLocked :: "workflow_def \<Rightarrow> string \<Rightarrow> string list" where
  "childrenLocked d parent = sort (filter (\<lambda>name. parent \<in> set (parents_of d name)) (d_order d))"

function descend_loop :: "workflow_def \<Rightarrow> string list \<Rightarrow> string list \<Rightarrow> string list" where
  "descend_loop d [] out = out"
| "descend_loop d (nxt # queue) out =
     (if nxt \<in> set out then descend_loop d queue out
      else descend_loop d (queue @ childrenLocked d nxt) (out @ [nxt]))"
  by pat_completeness auto

termination descend_loop
proof (relation "measures [\<lambda>(d, queue, out). card ((set (d_order d) \<union> set queue) - set out), \<lambda>(d, queue, out). length queue]")
  fix d nxt queue out assume "nxt \<in> set (out :: string list)"
  then have "(set (d_order d) \<union> set queue) - set out = (set (d_order d) \<union> set (nxt # queue)) - set out" by auto
  then show "((d, queue, out), d, nxt # queue, out)
     \<in> measures [\<lambda>(d, queue, out). card ((set (d_order d) \<union> set queue) - set out), \<lambda>(d, queue, out). length queue]"
    by simp
next
  fix d nxt queue out assume "nxt \<notin> set (out :: string list)"
  then have "(set (d_order d) \<union> set (queue @ childrenLocked d nxt)) - set (out @ [nxt])
      \<subset> (set (d_order d) \<union> set (nxt # queue)) - set out"
    by (auto simp: childrenLocked_def)
  then show "((d, queue @ childrenLocked d nxt, out @ [nxt]), d, nxt # queue, out)
     \<in> measures [\<lambda>(d, queue, out). card ((set (d_order d) \<union> set queue) - set out), \<lambda>(d, queue, out). length queue]"
    by (auto intro!: psubset_card_mono)
qed simp

text \<open>The source keeps the set \<^verbatim>\<open>seen\<close> beside \<^verbatim>\<open>out\<close>; both hold the same names, so \<open>out\<close> is tested.\<close>

definition descendants :: "workflow_def \<Rightarrow> string \<Rightarrow> string list" where
  "descendants d root = sort (descend_loop d (childrenLocked d root) [])"

section \<open>The graph of a definition\<close>

text \<open>\<open>def_inv\<close> holds of every definition that was built by \<open>NewDefinition\<close> and \<open>AddNode\<close>: the order
  lists exactly the declared nodes, once each.\<close>

definition def_inv :: "workflow_def \<Rightarrow> bool" where
  "def_inv d \<longleftrightarrow> map fst (d_nodes d) = d_order d \<and> distinct (d_order d) \<and> [] \<notin> set (d_order d)"

lemma def_inv_New [simp, intro]: "def_inv (NewDefinition name)"
  by (simp add: def_inv_def NewDefinition_def)

lemma def_inv_Add [intro]: "def_inv d \<Longrightarrow> def_inv (snd (AddNode nodeName opts d))"
  by (auto simp: def_inv_def AddNode_def Let_def alist_put_def map_of_eq_None_iff simp flip: set_map)

lemma def_inv_known: "def_inv d \<Longrightarrow> (map_of (d_nodes d) x \<noteq> None) = (x \<in> set (d_order d))"
  by (auto simp: def_inv_def map_of_eq_None_iff simp flip: set_map)

definition parent_rel :: "workflow_def \<Rightarrow> (string \<times> string) set" where
  "parent_rel d = {(p, c). p \<in> set (parents_of d c)}"

definition closed_def :: "workflow_def \<Rightarrow> bool" where
  "closed_def d \<longleftrightarrow> (\<forall>c p. (p, c) \<in> parent_rel d \<longrightarrow> p \<in> set (d_order d))"

lemma parent_rel_known: "def_inv d \<Longrightarrow> (p, c) \<in> parent_rel d \<Longrightarrow> c \<in> set (d_order d)"
  using def_inv_known [of d c] by (auto simp: parent_rel_def parents_of_def split: option.splits)

definition is_cycle :: "workflow_def \<Rightarrow> string list \<Rightarrow> bool" where
  "is_cycle d c \<longleftrightarrow> length c \<ge> 2 \<and> hd c = last c \<and> successively (\<lambda>a b. b \<in> set (parents_of d a)) c"

lemma successively_trancl:
  "successively (\<lambda>a b. (b, a) \<in> r) xs \<Longrightarrow> length xs \<ge> 2 \<Longrightarrow> (last xs, hd xs) \<in> r\<^sup>+"
proof (induction xs)
  case (Cons a xs)
  show ?case
  proof (cases "length xs \<ge> 2")
    case True
    with Cons show ?thesis by (cases xs) (auto intro: trancl_into_trancl)
  next
    case False
    with Cons show ?thesis by (cases xs) (auto simp: Suc_le_eq)
  qed
qed simp

lemma is_cycle_not_acyclic: "is_cycle d c \<Longrightarrow> \<not> acyclic (parent_rel d)"
  using successively_trancl [of "parent_rel d" c]
  by (auto simp: is_cycle_def parent_rel_def acyclic_def)

text \<open>The invariant of the depth-first search: the gray nodes are the stack, a path of parents; the
  black nodes are closed under parents and their part of the graph has no cycle.\<close>

definition black_rel :: "workflow_def \<Rightarrow> (string \<Rightarrow> color) \<Rightarrow> (string \<times> string) set" where
  "black_rel d col = {(p, c). col c = Black \<and> p \<in> set (parents_of d c)}"

definition dfs_inv :: "workflow_def \<Rightarrow> dfs_state \<Rightarrow> bool" where
  "dfs_inv d st \<longleftrightarrow> distinct (snd st) \<and> (\<forall>x. fst st x = Gray \<longleftrightarrow> x \<in> set (snd st)) \<and>
     successively (\<lambda>a b. b \<in> set (parents_of d a)) (snd st) \<and>
     (\<forall>x p. fst st x = Black \<longrightarrow> p \<in> set (parents_of d x) \<longrightarrow> fst st p = Black) \<and>
     acyclic (black_rel d (fst st))"

lemma dfs_inv_enter:
  "dfs_inv d st \<Longrightarrow> fst st p = White \<Longrightarrow> snd st \<noteq> [] \<longrightarrow> p \<in> set (parents_of d (last (snd st))) \<Longrightarrow>
   dfs_inv d (dfs_enter p st)"
proof -
  assume a: "dfs_inv d st" "fst st p = White" "snd st \<noteq> [] \<longrightarrow> p \<in> set (parents_of d (last (snd st)))"
  then have "black_rel d (fst (dfs_enter p st)) = black_rel d (fst st)"
    by (auto simp: black_rel_def dfs_enter_def)
  moreover have "p \<notin> set (snd st)" using a(1,2) by (metis color.distinct(1) dfs_inv_def)
  ultimately show ?thesis using a
    by (auto simp: dfs_inv_def dfs_enter_def successively_append_iff)
qed

lemma acyclic_black_leave:
  assumes "acyclic (black_rel d col)" "col p \<noteq> Black"
    "\<And>x q. col x = Black \<Longrightarrow> q \<in> set (parents_of d x) \<Longrightarrow> col q = Black"
    "\<And>q. q \<in> set (parents_of d p) \<Longrightarrow> col q = Black"
  shows "acyclic (black_rel d (col(p := Black)))"
proof -
  let ?r = "black_rel d (col(p := Black))"
  have step: "(a, b) \<in> black_rel d col" if "(a, b) \<in> ?r" "b \<noteq> p" for a b
    using that by (auto simp: black_rel_def)
  have np: "a \<noteq> p" if "(a, b) \<in> ?r" for a b
    using that assms(2,3,4) by (auto simp: black_rel_def split: if_splits)
  have "(a, b) \<in> (black_rel d col)\<^sup>+" if "(a, b) \<in> ?r\<^sup>+" "b \<noteq> p" for a b
    using that
  proof (induction rule: trancl_induct)
    case (step b c)
    then show ?case using np step.hyps by (auto intro: trancl_into_trancl \<open>\<And>b a. (a, b) \<in> ?r \<Longrightarrow> b \<noteq> p \<Longrightarrow> (a, b) \<in> black_rel d col\<close>)
  qed (auto intro: step)
  moreover have "a \<noteq> p" if "(a, b) \<in> ?r\<^sup>+" for a b
    using that np by (auto dest: tranclD)
  ultimately show ?thesis using assms(1) unfolding acyclic_def by blast
qed

lemma dfs_inv_leave:
  assumes "dfs_inv d st" "snd st = stack @ [p]" "\<forall>q \<in> set (parents_of d p). fst st q = Black"
  shows "dfs_inv d (dfs_leave p st)"
proof -
  have "fst st p = Gray" "p \<notin> set stack" using assms(1,2) by (simp_all add: dfs_inv_def)
  then have p: "fst st p \<noteq> Black" "p \<notin> set stack" by simp_all
  have "acyclic (black_rel d ((fst st)(p := Black)))"
    by (rule acyclic_black_leave) (use assms p in \<open>auto simp: dfs_inv_def\<close>)
  with assms p show ?thesis by (auto simp: dfs_inv_def dfs_leave_def successively_append_iff)
qed

lemma cycle_path_is_cycle:
  assumes "dfs_inv d st" "p \<in> set (snd st)" "p \<in> set (parents_of d (last (snd st)))"
  shows "is_cycle d (cycle_path p (snd st))"
proof -
  obtain ys zs where s: "snd st = ys @ p # zs" "p \<notin> set ys" using split_list_first [OF assms(2)] by blast
  then have "dropWhile (\<lambda>s. s \<noteq> p) (snd st) = p # zs" by (auto simp: dropWhile_append)
  moreover have "successively (\<lambda>a b. b \<in> set (parents_of d a)) (p # zs)"
    using assms(1) s by (auto simp: dfs_inv_def successively_append_iff)
  ultimately show ?thesis
    using assms(3) s by (auto simp: is_cycle_def cycle_path_def successively_append_iff simp flip: append_Cons)
qed

lemma visit_parents_spec:
  assumes "dfs_inv d st" "snd st \<noteq> [] \<longrightarrow> set ps \<subseteq> set (parents_of d (last (snd st)))"
    "def_inv d" "closed_def d" "set ps \<subseteq> set (d_order d)"
  shows "case visit_parents d ps st of
      Inl err \<Rightarrow> \<exists>c. err = WfCycle c \<and> is_cycle d c
    | Inr st' \<Rightarrow> dfs_inv d st' \<and> snd st' = snd st \<and> (\<forall>p \<in> set ps. fst st' p = Black) \<and>
        (\<forall>x. fst st x = Black \<longrightarrow> fst st' x = Black)"
  using assms
proof (induction d ps st rule: visit_parents.induct)
  case (2 d p ps st)
  show ?case
  proof (cases "fst st p")
    case White
    from 2(8) def_inv_known [OF 2(6), of p] obtain n where n: "map_of (d_nodes d) p = Some n" by auto
    have pn: "parents_of d p = n_parents n" by (simp add: parents_of_def n)
    have e: "dfs_inv d (dfs_enter p st)" by (rule dfs_inv_enter) (use 2 White in auto)
    have known: "set (n_parents n) \<subseteq> set (d_order d)"
      using 2(7) unfolding pn [symmetric] closed_def_def parent_rel_def by blast
    note IH1 = 2(1) [OF White n e _ 2(6,7) known]
    show ?thesis
    proof (cases "visit_parents d (n_parents n) (dfs_enter p st)")
      case (Inl err)
      then show ?thesis using IH1 White n pn by (simp add: dfs_enter_def)
    next
      case (Inr st1)
      then have st1: "dfs_inv d st1" "snd st1 = snd st @ [p]" "\<forall>q \<in> set (n_parents n). fst st1 q = Black"
          and mono: "\<forall>x. fst (dfs_enter p st) x = Black \<longrightarrow> fst st1 x = Black"
        using IH1 pn by (auto simp: dfs_enter_def)
      have st1b: "fst st1 x = Black" if "fst st x = Black" for x
        using mono that White by (cases "x = p") (simp_all add: dfs_enter_def)
      have l: "dfs_inv d (dfs_leave p st1)" by (rule dfs_inv_leave) (use st1 pn in auto)
      have s: "snd (dfs_leave p st1) = snd st" using st1 by (simp add: dfs_leave_def)
      have b: "fst (dfs_leave p st1) p = Black" "\<And>x. fst st x = Black \<Longrightarrow> fst (dfs_leave p st1) x = Black"
        using st1b by (simp_all add: dfs_leave_def)
      have "case visit_parents d ps (dfs_leave p st1) of
          Inl err \<Rightarrow> \<exists>c. err = WfCycle c \<and> is_cycle d c
        | Inr st' \<Rightarrow> dfs_inv d st' \<and> snd st' = snd (dfs_leave p st1) \<and> (\<forall>p \<in> set ps. fst st' p = Black) \<and>
            (\<forall>x. fst (dfs_leave p st1) x = Black \<longrightarrow> fst st' x = Black)"
        by (rule 2(2) [OF White n Inr l]) (use 2 s in auto)
      with Inr White n s b show ?thesis by (auto split: sum.split)
    qed
  next
    case Gray
    then have m: "p \<in> set (snd st)" using 2(4) by (simp add: dfs_inv_def)
    then have "is_cycle d (cycle_path p (snd st))"
      by (intro cycle_path_is_cycle) (use 2 in auto)
    with Gray show ?thesis by simp
  next
    case Black
    with 2 show ?thesis by (auto split: sum.splits)
  qed
qed simp

lemma dfs_visit_alt: "fst st name = White \<Longrightarrow> dfs_visit d name st = visit_parents d [name] st"
  by (auto simp: dfs_visit_def split: option.splits sum.splits)

definition loop_post :: "workflow_def \<Rightarrow> string list \<Rightarrow> dfs_state \<Rightarrow> def_error option \<Rightarrow> bool" where
  "loop_post d names st res \<longleftrightarrow> (case res of
      Some err \<Rightarrow> \<exists>c. err = WfCycle c \<and> is_cycle d c
    | None \<Rightarrow> \<exists>st'. dfs_inv d st' \<and> (\<forall>x \<in> set names. fst st' x = Black) \<and>
        (\<forall>x. fst st x = Black \<longrightarrow> fst st' x = Black))"

lemma loop_post_Cons:
  assumes "loop_post d rest st' res" "fst st' name = Black" "\<And>x. fst st x = Black \<Longrightarrow> fst st' x = Black"
  shows "loop_post d (name # rest) st res"
proof (cases res)
  case None
  then obtain st2 where "dfs_inv d st2" "\<forall>x \<in> set rest. fst st2 x = Black"
    "\<forall>x. fst st' x = Black \<longrightarrow> fst st2 x = Black"
    using assms(1) by (auto simp: loop_post_def)
  with None assms(2,3) show ?thesis unfolding loop_post_def by (auto simp del: split_paired_Ex intro!: exI [of _ st2])
qed (use assms(1) in \<open>simp add: loop_post_def\<close>)

lemma cycles_loop_spec:
  assumes "dfs_inv d st" "snd st = []" "def_inv d" "closed_def d" "set names \<subseteq> set (d_order d)"
  shows "loop_post d names st (cycles_loop d names st)"
  using assms
proof (induction names arbitrary: st)
  case Nil
  then show ?case by (auto simp: loop_post_def simp del: split_paired_Ex)
next
  case (Cons name rest)
  show ?case
  proof (cases "fst st name = White")
    case True
    have *: "case visit_parents d [name] st of
      Inl err \<Rightarrow> \<exists>c. err = WfCycle c \<and> is_cycle d c
    | Inr st' \<Rightarrow> dfs_inv d st' \<and> snd st' = snd st \<and> (\<forall>p \<in> set [name]. fst st' p = Black) \<and>
        (\<forall>x. fst st x = Black \<longrightarrow> fst st' x = Black)"
      by (rule visit_parents_spec) (use Cons.prems in simp_all)
    show ?thesis
    proof (cases "dfs_visit d name st")
      case (Inl err)
      with * True show ?thesis by (simp add: loop_post_def dfs_visit_alt)
    next
      case (Inr st')
      with * True have v: "dfs_inv d st'" "snd st' = []" "fst st' name = Black"
          "\<And>x. fst st x = Black \<Longrightarrow> fst st' x = Black"
        using Cons.prems(2) by (simp_all add: dfs_visit_alt)
      have "loop_post d rest st' (cycles_loop d rest st')" by (rule Cons.IH) (use v Cons.prems in simp_all)
      from loop_post_Cons [OF this v(3,4)] show ?thesis using Inr True by simp
    qed
  next
    case False
    then have b: "fst st name = Black" using Cons.prems(1,2) by (cases "fst st name") (auto simp: dfs_inv_def)
    have "loop_post d rest st (cycles_loop d rest st)" by (rule Cons.IH) (use Cons.prems in simp_all)
    from loop_post_Cons [OF this b] show ?thesis using False by simp
  qed
qed

lemma detectCycles_spec:
  assumes "def_inv d" "closed_def d"
  shows "case detectCyclesLocked d of
      Some err \<Rightarrow> \<exists>c. err = WfCycle c \<and> is_cycle d c
    | None \<Rightarrow> acyclic (parent_rel d)"
proof -
  have *: "loop_post d (d_order d) (\<lambda>_. White, []) (detectCyclesLocked d)"
    unfolding detectCyclesLocked_def
    by (rule cycles_loop_spec) (use assms in \<open>simp_all add: dfs_inv_def black_rel_def acyclic_def\<close>)
  show ?thesis
  proof (cases "detectCyclesLocked d")
    case None
    with * obtain st' where st': "dfs_inv d st'" "\<forall>x \<in> set (d_order d). fst st' x = Black"
      by (auto simp: loop_post_def)
    have "parent_rel d \<subseteq> black_rel d (fst st')"
      using st'(2) parent_rel_known [OF assms(1)] by (auto simp: black_rel_def parent_rel_def)
    then have "acyclic (parent_rel d)" using st'(1) acyclic_subset unfolding dfs_inv_def by blast
    with None show ?thesis by simp
  qed (use * in \<open>simp add: loop_post_def\<close>)
qed

lemma check_parents_None:
  "check_parents d name ps = None \<longleftrightarrow> (\<forall>p \<in> set ps. map_of (d_nodes d) p \<noteq> None \<and> p \<noteq> name)"
  by (induction ps) auto

definition typed_def :: "workflow_def \<Rightarrow> bool" where
  "typed_def d \<longleftrightarrow> (\<forall>name \<in> set (d_order d). \<forall>n. map_of (d_nodes d) name = Some n \<longrightarrow> n_taskType n \<noteq> [])"

lemma check_nodes_None:
  assumes "def_inv d" "set names \<subseteq> set (d_order d)"
  shows "check_nodes d names = None \<longleftrightarrow>
    (\<forall>name \<in> set names. \<forall>n. map_of (d_nodes d) name = Some n \<longrightarrow> n_taskType n \<noteq> [] \<and>
       (\<forall>p \<in> set (n_parents n). p \<in> set (d_order d) \<and> p \<noteq> name))"
  using assms(2)
proof (induction names)
  case (Cons name rest)
  then obtain n where n: "map_of (d_nodes d) name = Some n" using def_inv_known [OF assms(1), of name] by auto
  have k: "map_of (d_nodes d) p = None \<longleftrightarrow> p \<notin> set (d_order d)" for p
    using def_inv_known [OF assms(1), of p] by auto
  have "check_nodes d (name # rest) = None \<longleftrightarrow>
      n_taskType n \<noteq> [] \<and> check_parents d name (n_parents n) = None \<and> check_nodes d rest = None"
    by (simp add: n split: option.split)
  with Cons show ?case by (simp add: n check_parents_None k)
qed simp

lemma check_nodes_no_cycle:
  "check_nodes d names = Some err \<Longrightarrow> err \<noteq> WfCycle c"
proof (induction names)
  case (Cons name rest)
  have "check_parents d name ps \<noteq> Some (WfCycle c)" for ps by (induction ps) auto
  with Cons show ?case by (auto split: option.splits if_splits)
qed simp

lemma Validate_spec:
  assumes "def_inv d"
  shows "(Validate d = None \<longleftrightarrow>
      d_order d \<noteq> [] \<and> typed_def d \<and> closed_def d \<and> acyclic (parent_rel d)) \<and>
    (\<forall>c. Validate d = Some (WfCycle c) \<longrightarrow> is_cycle d c)"
proof -
  have names: "d_nodes d = [] \<longleftrightarrow> d_order d = []" using assms by (auto simp: def_inv_def)
  have self: "p \<noteq> c" if "acyclic (parent_rel d)" "(p, c) \<in> parent_rel d" for p c
    using that by (auto simp: acyclic_def)
  have known: "\<exists>n. map_of (d_nodes d) c = Some n \<and> p \<in> set (n_parents n)" if "(p, c) \<in> parent_rel d" for p c
    using that by (cases "map_of (d_nodes d) c") (auto simp: parent_rel_def parents_of_def)
  have prel: "(p, c) \<in> parent_rel d" if "map_of (d_nodes d) c = Some n" "p \<in> set (n_parents n)" for p c n
    using that by (simp add: parent_rel_def parents_of_def)
  have nodes: "check_nodes d (d_order d) = None \<longleftrightarrow> typed_def d \<and> closed_def d \<and> (\<forall>c. (c, c) \<notin> parent_rel d)"
    unfolding check_nodes_None [OF assms order_refl] typed_def_def closed_def_def
  proof (intro iffI conjI allI impI ballI; (elim conjE)?)
    fix c p n assume *: "\<forall>name\<in>set (d_order d). \<forall>n. map_of (d_nodes d) name = Some n \<longrightarrow>
      n_taskType n \<noteq> [] \<and> (\<forall>p\<in>set (n_parents n). p \<in> set (d_order d) \<and> p \<noteq> name)"
    show "p \<in> set (d_order d)" if "(p, c) \<in> parent_rel d" using * known [OF that] parent_rel_known [OF assms that] by blast
    show "(c, c) \<notin> parent_rel d" using * known [of c c] parent_rel_known [OF assms, of c c] by blast
  qed (use prel in blast)+
  show ?thesis
  proof (cases "check_nodes d (d_order d)")
    case None
    with nodes have c: "closed_def d" "typed_def d" by auto
    show ?thesis
    proof (cases "detectCyclesLocked d")
      case (Some err)
      with detectCycles_spec [OF assms c(1)] show ?thesis
        using None names is_cycle_not_acyclic by (auto simp: Validate_def)
    next
      case N: None
      with detectCycles_spec [OF assms c(1)] show ?thesis using None names c by (auto simp: Validate_def)
    qed
  next
    case (Some err)
    with nodes self have "\<not> (typed_def d \<and> closed_def d \<and> acyclic (parent_rel d))" by auto
    with Some names check_nodes_no_cycle [OF Some] show ?thesis by (auto simp: Validate_def)
  qed
qed

text \<open>C21: Validation is exact. It accepts a definition if and only if it has a node, every node has a
  task type, every parent is a declared node and the parent relation has no cycle; and when it
  reports a cycle, the reported path leads along parents from a node back to itself.\<close>

theorem Validate_exact:
  assumes "def_inv d"
  shows "(Validate d = None \<longleftrightarrow>
      d_order d \<noteq> [] \<and> typed_def d \<and> closed_def d \<and> acyclic (parent_rel d)) \<and>
    (\<forall>c. Validate d = Some (WfCycle c) \<longrightarrow> is_cycle d c)"
  by (rule Validate_spec [OF assms])

section \<open>Children and descendants\<close>

lemma set_childrenLocked: "def_inv d \<Longrightarrow> set (childrenLocked d p) = {c. (p, c) \<in> parent_rel d}"
  using parent_rel_known [of d p] by (auto simp: childrenLocked_def parent_rel_def)

lemma distinct_childrenLocked: "def_inv d \<Longrightarrow> distinct (childrenLocked d p)"
  by (simp add: childrenLocked_def def_inv_def)

lemma set_roots: "set (roots d) = {r \<in> set (d_order d). parents_of d r = []}"
  by (auto simp: roots_def)

lemma distinct_roots: "def_inv d \<Longrightarrow> distinct (roots d)"
  by (simp add: roots_def def_inv_def)

text \<open>Everything the loop collects is reachable from the start, and what it has collected is closed
  under children up to the queue.\<close>

lemma descend_loop_set:
  assumes "def_inv d" "\<And>x c. x \<in> set out \<Longrightarrow> (x, c) \<in> parent_rel d \<Longrightarrow> c \<in> set out \<union> set queue" "distinct out"
  shows "set (descend_loop d queue out) = set out \<union> (parent_rel d)\<^sup>* `` set queue \<and> distinct (descend_loop d queue out)"
  using assms
proof (induction d queue out rule: descend_loop.induct)
  case (1 d out)
  then show ?case by simp
next
  case (2 d nxt queue out)
  let ?r = "parent_rel d"
  show ?case
  proof (cases "nxt \<in> set out")
    case True
    have IH: "set (descend_loop d queue out) = set out \<union> ?r\<^sup>* `` set queue \<and> distinct (descend_loop d queue out)"
      by (rule 2(1) [OF True 2(3)]) (use 2(4,5) True in auto)
    have "y \<in> set out \<union> ?r\<^sup>* `` set queue" if "(nxt, y) \<in> ?r\<^sup>*" for y
      using that
    proof (induction rule: rtrancl_induct)
      case (step y z)
      then show ?case using 2(4) [of y z] True by (auto intro: rtrancl_into_rtrancl)
    qed (use True in simp)
    with IH True show ?thesis by auto
  next
    case False
    have IH: "set (descend_loop d (queue @ childrenLocked d nxt) (out @ [nxt])) =
        set (out @ [nxt]) \<union> ?r\<^sup>* `` set (queue @ childrenLocked d nxt) \<and>
        distinct (descend_loop d (queue @ childrenLocked d nxt) (out @ [nxt]))"
      by (rule 2(2) [OF False 2(3)])
        (use 2(4,5) False in \<open>auto simp: set_childrenLocked [OF 2(3)]\<close>)
    have "?r\<^sup>* `` {nxt} = insert nxt (?r\<^sup>* `` {c. (nxt, c) \<in> ?r})"
      by (auto intro: converse_rtrancl_into_rtrancl elim: converse_rtranclE)
    then have "set (nxt # out) \<union> ?r\<^sup>* `` set (queue @ childrenLocked d nxt) = set out \<union> ?r\<^sup>* `` set (nxt # queue)"
      using set_childrenLocked [OF 2(3), of nxt] by (auto simp: Image_Un)
    with IH False show ?thesis by simp
  qed
qed


subsection \<open>A concrete workflow\<close>

text \<open>A diamond with a tail: \<open>a\<close> feeds \<open>b\<close> and \<open>c\<close>, both feed \<open>d\<close>.\<close>

definition build_def :: "(string \<times> NodeOption list) list \<Rightarrow> workflow_def" where
  "build_def adds = foldl (\<lambda>d (name, opts). snd (AddNode name opts d)) (NewDefinition ''w'') adds"

lemma def_inv_build: "def_inv (build_def adds)"
proof -
  have "def_inv (foldl (\<lambda>d (name, opts). snd (AddNode name opts d)) d adds)" if "def_inv d" for d
    using that by (induction adds arbitrary: d) (auto split: prod.splits intro: def_inv_Add)
  then show ?thesis by (simp add: build_def_def)
qed

definition diamond :: workflow_def where
  "diamond = build_def [(''a'', [OfType ''t'']), (''b'', [OfType ''t'', DependsOnByName [''a'']]),
     (''c'', [OfType ''u'', DependsOnByName [''a''], OnFail FailContinue]),
     (''d'', [OfType ''t'', DependsOnByName [''b'', ''c'']])]"

lemma def_inv_diamond: "def_inv diamond"
  by (simp add: diamond_def def_inv_build)

theorem Validate_exact_witness:
  "def_inv diamond \<and> Validate diamond = None \<and> acyclic (parent_rel diamond)"
proof -
  have "Validate diamond = None" by code_simp
  then show ?thesis using Validate_exact [OF def_inv_diamond] def_inv_diamond by blast
qed


end
