(* ===== verification/Go_Text.thy ===== *)
theory Go_Text imports
  Prelude
begin

text \<open>
  What the sources use of Go's text encodings: \<^verbatim>\<open>hex.EncodeToString\<close> and the big-endian layout of
  a \<^verbatim>\<open>uint64\<close> (\<^verbatim>\<open>binary.BigEndian.PutUint64\<close>), with the facts identifiers rely on: the text has two
  digits per byte, contains no separator, determines the bytes, and orders like them.
\<close>

definition hex_digit :: "nat \<Rightarrow> char" where
  "hex_digit k = (if k < 10 then char_of (48 + k) else char_of (87 + k))"

definition hex_byte :: "byte \<Rightarrow> string" where
  "hex_byte b = [hex_digit (of_char b div 16), hex_digit (of_char b mod 16)]"

definition hex_EncodeToString :: "bytes \<Rightarrow> string" where
  "hex_EncodeToString bs = concat (map hex_byte bs)"

definition hex_value :: "char \<Rightarrow> nat" where
  "hex_value c = (let n = of_char c in if n < 58 then n - 48 else n - 87)"

fun hex_decode :: "string \<Rightarrow> bytes" where
  "hex_decode (a # b # cs) = char_of (16 * hex_value a + hex_value b) # hex_decode cs"
| "hex_decode _ = []"

lemma of_char_hex_digit: "k < 16 \<Longrightarrow> (of_char (hex_digit k) :: nat) = (if k < 10 then 48 + k else 87 + k)"
  by (simp add: hex_digit_def)

lemma hex_value_digit [simp]: "k < 16 \<Longrightarrow> hex_value (hex_digit k) = k"
  by (simp add: hex_value_def of_char_hex_digit Let_def)

lemma of_char_div_16 [simp]: "(of_char (b :: char) :: nat) div 16 < 16"
  using nat_of_char_less_256 [of b] by (simp add: less_mult_imp_div_less)

lemma hex_decode_encode [simp]: "hex_decode (hex_EncodeToString bs) = bs"
  by (induction bs) (simp_all add: hex_EncodeToString_def hex_byte_def)

lemma hex_injective: "hex_EncodeToString a = hex_EncodeToString b \<longleftrightarrow> a = b"
  by (metis hex_decode_encode)

lemma length_hex [simp]: "length (hex_EncodeToString bs) = 2 * length bs"
  by (induction bs) (simp_all add: hex_EncodeToString_def hex_byte_def)

lemma hex_digit_no_sep: "k < 16 \<Longrightarrow> hex_digit k \<noteq> CHR '':''"
  by (auto dest!: arg_cong [where f = "of_char :: char \<Rightarrow> nat"] simp: of_char_hex_digit split: if_splits)

lemma hex_no_sep: "CHR '':'' \<notin> set (hex_EncodeToString bs)"
proof (induction bs)
  case (Cons b bs)
  have "hex_digit (of_char b div 16) \<noteq> CHR '':''" "hex_digit (of_char b mod 16) \<noteq> CHR '':''"
    by (simp_all add: hex_digit_no_sep)
  with Cons show ?case by (simp add: hex_EncodeToString_def hex_byte_def eq_commute)
qed (simp add: hex_EncodeToString_def)

lemma hex_digit_less: "j < 16 \<Longrightarrow> k < 16 \<Longrightarrow> hex_digit j < hex_digit k \<longleftrightarrow> j < k"
  by (simp add: less_char_def of_char_hex_digit)

lemma hex_byte_append_less:
  "hex_byte a @ xs < hex_byte b @ ys \<longleftrightarrow> a < b \<or> a = b \<and> xs < ys"
proof -
  let ?a = "of_char a :: nat" and ?b = "of_char b :: nat"
  have eq: "hex_digit j = hex_digit k \<longleftrightarrow> j = k" if "j < 16" "k < 16" for j k
    using that by (metis hex_value_digit)
  have "?a < ?b \<longleftrightarrow> ?a div 16 < ?b div 16 \<or> ?a div 16 = ?b div 16 \<and> ?a mod 16 < ?b mod 16"
  proof -
    have "?a = 16 * (?a div 16) + ?a mod 16" "?b = 16 * (?b div 16) + ?b mod 16" by simp_all
    moreover have "?a mod 16 < 16" "?b mod 16 < 16" by simp_all
    ultimately show ?thesis by linarith
  qed
  moreover have "?a = ?b \<longleftrightarrow> ?a div 16 = ?b div 16 \<and> ?a mod 16 = ?b mod 16"
    by (metis div_mult_mod_eq)
  moreover have "a = b \<longleftrightarrow> ?a = ?b" by simp
  ultimately show ?thesis
    unfolding hex_byte_def less_char_def [of a b]
    by (simp add: hex_digit_less eq del: of_char_eq_iff) blast
qed

lemma hex_less: "length a = length b \<Longrightarrow> hex_EncodeToString a < hex_EncodeToString b \<longleftrightarrow> a < b"
  by (induction a b rule: list_induct2) (simp_all add: hex_EncodeToString_def hex_byte_append_less)

text \<open>Decimal numbers as \<^verbatim>\<open>%d\<close> prints them.\<close>

fun digits :: "nat \<Rightarrow> string" where
  "digits n = (if n < 10 then [char_of (48 + n)] else digits (n div 10) @ [char_of (48 + n mod 10)])"

declare digits.simps [simp del]

definition itoa :: "int \<Rightarrow> string" where
  "itoa i = (if i < 0 then CHR ''-'' # digits (nat (- i)) else digits (nat i))"

text \<open>Quoting as \<^verbatim>\<open>%q\<close> does it; bytes outside ASCII are taken for printable text and kept.\<close>

definition quote_char :: "char \<Rightarrow> string" where
  "quote_char c =
     (let n = of_char c :: nat; esc = (\<lambda>x. [CHR 0x5C, x]) in
      if n = 34 \<or> n = 92 then esc c
      else if n = 7 then esc (CHR ''a'') else if n = 8 then esc (CHR ''b'')
      else if n = 12 then esc (CHR ''f'') else if n = 10 then esc (CHR ''n'')
      else if n = 13 then esc (CHR ''r'') else if n = 9 then esc (CHR ''t'')
      else if n = 11 then esc (CHR ''v'')
      else if n < 32 \<or> n = 127 then esc (CHR ''x'') @ hex_byte c
      else [c])"

definition go_quote :: "string \<Rightarrow> string" where
  "go_quote s = [CHR 0x22] @ concat (map quote_char s) @ [CHR 0x22]"

text \<open>Eight bytes, the most significant first.\<close>

fun big_endian :: "nat \<Rightarrow> nat \<Rightarrow> bytes" where
  "big_endian 0 n = []"
| "big_endian (Suc k) n = char_of (n div 256 ^ k mod 256) # big_endian k n"

lemma length_big_endian [simp]: "length (big_endian k n) = k"
  by (induction k) simp_all

lemma big_endian_less:
  "big_endian k m @ xs < big_endian k n @ ys \<longleftrightarrow>
     m mod 256 ^ k < n mod 256 ^ k \<or> m mod 256 ^ k = n mod 256 ^ k \<and> xs < ys"
proof (induction k)
  case (Suc k)
  let ?p = "256 ^ k :: nat"
  have d: "m mod (?p * 256) = ?p * (m div ?p mod 256) + m mod ?p" for m by (rule mod_mult2_eq)
  have lt: "?p * a + c < ?p * b + e \<longleftrightarrow> a < b \<or> a = b \<and> c < e" if "c < ?p" "e < ?p" for a b c e :: nat
  proof (cases a b rule: linorder_cases)
    case less
    then have "?p * Suc a \<le> ?p * b" by (simp only: mult_le_mono2 Suc_leI)
    with less that show ?thesis by simp
  next
    case greater
    then have "?p * Suc b \<le> ?p * a" by (simp only: mult_le_mono2 Suc_leI)
    with greater that show ?thesis by simp
  qed simp
  have eq: "?p * a + c = ?p * b + e \<longleftrightarrow> a = b \<and> c = e" if "c < ?p" "e < ?p" for a b c e :: nat
    using lt [OF that, of a b] lt [OF that(2,1), of b a] by (metis nat_neq_iff)
  have c: "char_of a < (char_of b :: char) \<longleftrightarrow> a mod 256 < b mod 256" for a b :: nat
    by (simp add: less_char_def)
  show ?case using Suc by (simp add: mult.commute [of 256] d lt eq c) blast
qed simp

end
