(* ===== verification/Workflow_Engine.thy ===== *)
theory Workflow_Engine imports
  Workflow_Def
  Task_Types
  Cache_Memory
  Go_Text
begin

text \<open>
  The workflow engine (\<^verbatim>\<open>providers/workflows/engine.go\<close> and \<^verbatim>\<open>state.go\<close>): instances of a definition are
  driven by the bridge handler that the task worker runs once per attempt of a node.

  \<^item> All state of an instance is in the cache, as encoded records under keys of the instance; the
    engine reaches the cache and the task scheduler through their interfaces, here the record
    \<open>engine_api\<close> of functions on an abstract cache \<open>'c\<close> and task queue \<open>'q\<close>.
  \<^item> \<^verbatim>\<open>encoding/json\<close> and the rendering of errors in texts are the parameter record \<open>wf_codec\<close>.
  \<^item> One reading of the clock serves a whole operation. The wrapping of an error in a longer
    message keeps the error.
  \<^item> The bridge is split where it calls the user's handler: other operations may run in between.
\<close>

section \<open>Instance state\<close>

text \<open>The states are Go strings; a decoded record may carry any other text.\<close>

datatype InstanceState =
  InstancePending | InstanceRunning | InstanceCompleted | InstanceFailed | InstanceCancelled | InstanceOther string

datatype NodeState =
  NodePending | NodeEnqueued | NodeCompleted | NodeFailed | NodeSkipped | NodeOther string

definition Terminal :: "NodeState \<Rightarrow> bool" where
  "Terminal s \<longleftrightarrow> s = NodeCompleted \<or> s = NodeFailed \<or> s = NodeSkipped"

record instanceMeta =
  m_ID :: string
  m_Definition :: string
  m_State :: InstanceState
  m_StartedAt :: gotime
  m_EndedAt :: gotime
  m_Tags :: "(string \<times> string) list"

record nodeStateRecord =
  ns_State :: NodeState
  ns_TaskID :: string
  ns_Attempts :: int
  ns_StartedAt :: gotime
  ns_EndedAt :: gotime
  ns_LastError :: string

definition zero_node :: "NodeState \<Rightarrow> nodeStateRecord" where
  "zero_node s = \<lparr>ns_State = s, ns_TaskID = [], ns_Attempts = 0, ns_StartedAt = 0, ns_EndedAt = 0, ns_LastError = []\<rparr>"

definition instanceMetaKey :: "string \<Rightarrow> string \<Rightarrow> string" where
  "instanceMetaKey pre iid = pre @ ''inst:'' @ iid @ '':meta''"

definition nodeStateKey :: "string \<Rightarrow> string \<Rightarrow> string \<Rightarrow> string" where
  "nodeStateKey pre iid node = pre @ ''inst:'' @ iid @ '':node:'' @ node @ '':state''"

definition nodeOutputKey :: "string \<Rightarrow> string \<Rightarrow> string \<Rightarrow> string" where
  "nodeOutputKey pre iid node = pre @ ''inst:'' @ iid @ '':node:'' @ node @ '':out''"

definition instancePrefix :: "string \<Rightarrow> string \<Rightarrow> string" where
  "instancePrefix pre iid = pre @ ''inst:'' @ iid @ '':''"

datatype wf_error =
    WfClosed
  | WfNilDefinition
  | WfInvalid def_error
  | WfMissingOption string
  | WfEmptyType
  | WfNilHandler
  | WfTypeTaken string
  | WfWorker string
  | WfNotRegistered string
  | WfNoRandom
  | WfEncode
  | WfDecode
  | WfCache cache_error
  | WfInstanceNotFound
  | WfUnknownNode string
  | WfNilNode string
  | WfEnqueue task_error
  | WfMissingTags
  | WfDefinitionGone string
  | WfHandlerGone string
  | WfHandlerError string

record wf_codec =
  marshal_meta :: "instanceMeta \<Rightarrow> bytes option"
  unmarshal_meta :: "bytes \<Rightarrow> instanceMeta option"
  marshal_node :: "nodeStateRecord \<Rightarrow> bytes option"
  unmarshal_node :: "bytes \<Rightarrow> nodeStateRecord option"
  error_text :: "wf_error \<Rightarrow> string"
  quote_text :: "string \<Rightarrow> string"

definition encodeInstanceMeta :: "wf_codec \<Rightarrow> instanceMeta \<Rightarrow> wf_error + bytes" where
  "encodeInstanceMeta cd m = (case marshal_meta cd m of None \<Rightarrow> Inl WfEncode | Some b \<Rightarrow> Inr b)"

definition decodeInstanceMeta :: "wf_codec \<Rightarrow> bytes \<Rightarrow> wf_error + instanceMeta" where
  "decodeInstanceMeta cd b = (case unmarshal_meta cd b of None \<Rightarrow> Inl WfDecode | Some m \<Rightarrow> Inr m)"

definition encodeNodeState :: "wf_codec \<Rightarrow> nodeStateRecord \<Rightarrow> wf_error + bytes" where
  "encodeNodeState cd n = (case marshal_node cd n of None \<Rightarrow> Inl WfEncode | Some b \<Rightarrow> Inr b)"

definition decodeNodeState :: "wf_codec \<Rightarrow> bytes \<Rightarrow> wf_error + nodeStateRecord" where
  "decodeNodeState cd b = (case unmarshal_node cd b of None \<Rightarrow> Inl WfDecode | Some n \<Rightarrow> Inr n)"

section \<open>The engine\<close>

type_synonym handler = "(string \<times> bytes) list \<Rightarrow> string + bytes"

record ('c, 'q) engine_api =
  api_Get :: "gotime \<Rightarrow> 'c \<Rightarrow> string \<Rightarrow> (cache_error + bytes option) \<times> 'c"
  api_Set :: "gotime \<Rightarrow> 'c \<Rightarrow> string \<Rightarrow> bytes \<Rightarrow> duration \<Rightarrow> (cache_error + unit) \<times> 'c"
  api_DeletePrefix :: "'c \<Rightarrow> string \<Rightarrow> (cache_error + nat) \<times> 'c"
  api_Enqueue :: "gotime \<Rightarrow> 'q \<Rightarrow> task \<Rightarrow> task_error option \<times> 'q"
  api_Register :: "string \<Rightarrow> 'q \<Rightarrow> string option \<times> 'q"

record ('c, 'q) engine =
  e_api :: "('c, 'q) engine_api"
  e_codec :: wf_codec
  e_KeyPrefix :: string
  e_DefaultQueue :: string
  e_InstanceTTL :: duration
  e_OnError :: bool
  e_definitions :: "string \<rightharpoonup> workflow_def"
  e_handlers :: "string \<rightharpoonup> handler"
  e_registered :: "string set"
  e_closed :: bool

record EngineOpts =
  o_Scheduler :: bool
  o_Worker :: bool
  o_Outputs :: bool
  o_KeyPrefix :: string
  o_DefaultQueue :: string
  o_InstanceTTL :: duration
  o_OnError :: bool

text \<open>What the engine acts on: the cache, the task system, and the calls of the error hook.\<close>

record ('c, 'q) world =
  w_cache :: 'c
  w_queue :: 'q
  w_reported :: "(string \<times> string \<times> wf_error) list"

text \<open>The options say which interfaces were given; \<open>api\<close> is then the one of the given backends, or
  of the default \<^verbatim>\<open>cache.NewMemoryCache\<close> limited to 256 MiB.\<close>

definition default_outputs :: memory_cache where
  "default_outputs = NewMemoryCache (256 * 1024 * 1024)"

definition NewEngine :: "('c, 'q) engine_api \<Rightarrow> wf_codec \<Rightarrow> EngineOpts \<Rightarrow> wf_error + ('c, 'q) engine" where
  "NewEngine api cd opts =
     (if \<not> o_Scheduler opts then Inl (WfMissingOption ''Scheduler'')
      else if \<not> o_Worker opts then Inl (WfMissingOption ''Worker'')
      else Inr \<lparr>e_api = api, e_codec = cd,
        e_KeyPrefix = (if o_KeyPrefix opts = [] then ''wf:'' else o_KeyPrefix opts),
        e_DefaultQueue = (if o_DefaultQueue opts = [] then ''default'' else o_DefaultQueue opts),
        e_InstanceTTL = (if o_InstanceTTL opts = 0 then 24 * hour else o_InstanceTTL opts),
        e_OnError = o_OnError opts, e_definitions = Map.empty, e_handlers = Map.empty,
        e_registered = {}, e_closed = False\<rparr>)"

definition Register :: "workflow_def option \<Rightarrow> ('c, 'q) engine \<Rightarrow> (wf_error + unit) \<times> ('c, 'q) engine" where
  "Register def E =
     (case def of
        None \<Rightarrow> (Inl WfNilDefinition, E)
      | Some d \<Rightarrow>
          (case Validate d of
             Some err \<Rightarrow> (Inl (WfInvalid err), E)
           | None \<Rightarrow>
               if e_closed E then (Inl WfClosed, E)
               else (Inr (), E\<lparr>e_definitions := (e_definitions E)(d_name d \<mapsto> d)\<rparr>)))"

definition RegisterHandler ::
  "string \<Rightarrow> handler option \<Rightarrow> ('c, 'q) engine \<Rightarrow> ('c, 'q) world
   \<Rightarrow> (wf_error + unit) \<times> ('c, 'q) engine \<times> ('c, 'q) world"
where
  "RegisterHandler taskType h E w =
     (if taskType = [] then (Inl WfEmptyType, E, w)
      else (case h of
        None \<Rightarrow> (Inl WfNilHandler, E, w)
      | Some f \<Rightarrow>
          if e_closed E then (Inl WfClosed, E, w)
          else if e_handlers E taskType \<noteq> None then (Inl (WfTypeTaken taskType), E, w)
          else
            let E1 = E\<lparr>e_handlers := (e_handlers E)(taskType \<mapsto> f)\<rparr>;
                alreadyOnWorker = (taskType \<in> e_registered E1);
                E2 = (if \<not> alreadyOnWorker then E1\<lparr>e_registered := insert taskType (e_registered E1)\<rparr> else E1)
            in if alreadyOnWorker then (Inr (), E2, w)
               else (case api_Register (e_api E) taskType (w_queue w) of
                       (None, q) \<Rightarrow> (Inr (), E2, w\<lparr>w_queue := q\<rparr>)
                     | (Some err, q) \<Rightarrow> (Inl (WfWorker err), E2, w\<lparr>w_queue := q\<rparr>))))"

definition wf_Close :: "('c, 'q) engine \<Rightarrow> ('c, 'q) engine" where
  "wf_Close E = E\<lparr>e_closed := True\<rparr>"

subsection \<open>Cache helpers\<close>

definition outputs_Get ::
  "('c, 'q) engine \<Rightarrow> gotime \<Rightarrow> string \<Rightarrow> ('c, 'q) world \<Rightarrow> (wf_error + bytes option) \<times> ('c, 'q) world" where
  "outputs_Get E now k w =
     (case api_Get (e_api E) now (w_cache w) k of
        (Inl err, c) \<Rightarrow> (Inl (WfCache err), w\<lparr>w_cache := c\<rparr>)
      | (Inr r, c) \<Rightarrow> (Inr r, w\<lparr>w_cache := c\<rparr>))"

definition outputs_Set ::
  "('c, 'q) engine \<Rightarrow> gotime \<Rightarrow> string \<Rightarrow> bytes \<Rightarrow> duration \<Rightarrow> ('c, 'q) world \<Rightarrow> (wf_error + unit) \<times> ('c, 'q) world" where
  "outputs_Set E now k v ttl w =
     (case api_Set (e_api E) now (w_cache w) k v ttl of
        (Inl err, c) \<Rightarrow> (Inl (WfCache err), w\<lparr>w_cache := c\<rparr>)
      | (Inr u, c) \<Rightarrow> (Inr (), w\<lparr>w_cache := c\<rparr>))"

definition loadInstanceMeta ::
  "('c, 'q) engine \<Rightarrow> gotime \<Rightarrow> string \<Rightarrow> ('c, 'q) world \<Rightarrow> (wf_error + instanceMeta) \<times> ('c, 'q) world" where
  "loadInstanceMeta E now iid w =
     (case outputs_Get E now (instanceMetaKey (e_KeyPrefix E) iid) w of
        (Inl err, w') \<Rightarrow> (Inl err, w')
      | (Inr None, w') \<Rightarrow> (Inl WfInstanceNotFound, w')
      | (Inr (Some raw), w') \<Rightarrow> (decodeInstanceMeta (e_codec E) raw, w'))"

definition loadNodeState ::
  "('c, 'q) engine \<Rightarrow> gotime \<Rightarrow> string \<Rightarrow> string \<Rightarrow> ('c, 'q) world \<Rightarrow> (wf_error + nodeStateRecord) \<times> ('c, 'q) world" where
  "loadNodeState E now iid node w =
     (case outputs_Get E now (nodeStateKey (e_KeyPrefix E) iid node) w of
        (Inl err, w') \<Rightarrow> (Inl err, w')
      | (Inr None, w') \<Rightarrow> (Inr (zero_node NodePending), w')
      | (Inr (Some raw), w') \<Rightarrow> (decodeNodeState (e_codec E) raw, w'))"

text \<open>Where the source ignores the error it goes on with the zero record.\<close>

definition or_zero :: "wf_error + nodeStateRecord \<Rightarrow> nodeStateRecord" where
  "or_zero r = (case r of Inl err \<Rightarrow> zero_node (NodeOther []) | Inr ns \<Rightarrow> ns)"

definition writeNodeState ::
  "('c, 'q) engine \<Rightarrow> gotime \<Rightarrow> string \<Rightarrow> string \<Rightarrow> nodeStateRecord \<Rightarrow> ('c, 'q) world
   \<Rightarrow> (wf_error + unit) \<times> ('c, 'q) world" where
  "writeNodeState E now iid node n w =
     (case encodeNodeState (e_codec E) n of
        Inl err \<Rightarrow> (Inl err, w)
      | Inr b \<Rightarrow> outputs_Set E now (nodeStateKey (e_KeyPrefix E) iid node) b (e_InstanceTTL E) w)"

definition reportErr ::
  "('c, 'q) engine \<Rightarrow> string \<Rightarrow> string \<Rightarrow> wf_error \<Rightarrow> ('c, 'q) world \<Rightarrow> ('c, 'q) world" where
  "reportErr E iid op err w = (if e_OnError E then w\<lparr>w_reported := w_reported w @ [(iid, op, err)]\<rparr> else w)"

text \<open>A write whose failure is only reported.\<close>

definition report_failure ::
  "('c, 'q) engine \<Rightarrow> string \<Rightarrow> string \<Rightarrow> (wf_error + unit) \<times> ('c, 'q) world \<Rightarrow> ('c, 'q) world" where
  "report_failure E iid op rw = (case rw of (Inl err, w) \<Rightarrow> reportErr E iid op err w | (Inr u, w) \<Rightarrow> w)"

definition meta_done :: "instanceMeta \<Rightarrow> bool" where
  "meta_done meta \<longleftrightarrow> m_State meta = InstanceCompleted \<or> m_State meta = InstanceFailed \<or> m_State meta = InstanceCancelled"

definition markInstanceFailed ::
  "('c, 'q) engine \<Rightarrow> gotime \<Rightarrow> string \<Rightarrow> string \<Rightarrow> ('c, 'q) world \<Rightarrow> ('c, 'q) world" where
  "markInstanceFailed E now iid reason w =
     (case loadInstanceMeta E now iid w of
        (Inl err, w1) \<Rightarrow> reportErr E iid ''mark-failed-load'' err w1
      | (Inr meta, w1) \<Rightarrow>
          if meta_done meta then w1
          else
            let meta' = meta\<lparr>m_State := InstanceFailed, m_EndedAt := now,
                             m_Tags := alist_put ''failure_reason'' reason (m_Tags meta)\<rparr>
            in case encodeInstanceMeta (e_codec E) meta' of
                 Inl err \<Rightarrow> reportErr E iid ''mark-failed-encode'' err w1
               | Inr updated \<Rightarrow>
                   report_failure E iid ''mark-failed-write''
                     (outputs_Set E now (instanceMetaKey (e_KeyPrefix E) iid) updated (e_InstanceTTL E) w1))"

subsection \<open>Enqueueing a node\<close>

definition fire_key :: "string \<Rightarrow> string \<Rightarrow> string" where
  "fire_key iid nodeName = ''wf:'' @ iid @ '':'' @ nodeName @ '':fire''"

definition node_task :: "('c, 'q) engine \<Rightarrow> string \<Rightarrow> string \<Rightarrow> node \<Rightarrow> task" where
  "node_task E iid nodeName n =
     \<lparr>t_id = [], t_type = n_taskType n, t_payload = [], t_queue = e_DefaultQueue E,
      t_priority = n_priority n,
      t_max_retries = (case n_maxRetries n of None \<Rightarrow> Some 0 | Some k \<Rightarrow> Some k),
      t_timeout = 0, t_deadline = 0, t_delay_until = 0, t_unique_key = fire_key iid nodeName,
      t_tags = [''wf.instance'' \<mapsto> iid, ''wf.node'' \<mapsto> nodeName]\<rparr>"

definition enqueueNode ::
  "('c, 'q) engine \<Rightarrow> gotime \<Rightarrow> workflow_def \<Rightarrow> string \<Rightarrow> string \<Rightarrow> ('c, 'q) world
   \<Rightarrow> (wf_error + unit) \<times> ('c, 'q) world"
where
  "enqueueNode E now def iid nodeName w =
     (case map_of (d_nodes def) nodeName of
        None \<Rightarrow> (Inl (WfUnknownNode nodeName), w)
      | Some n \<Rightarrow>
          let (r, w1) = loadNodeState E now iid nodeName w;
              ns = (or_zero r)\<lparr>ns_State := NodeEnqueued\<rparr>
          in case writeNodeState E now iid nodeName ns w1 of
               (Inl err, w2) \<Rightarrow> (Inl err, w2)
             | (Inr u, w2) \<Rightarrow>
                 (case api_Enqueue (e_api E) now (w_queue w2) (node_task E iid nodeName n) of
                    (Some err, q) \<Rightarrow>
                      if err \<noteq> ErrUniqueViolation then (Inl (WfEnqueue err), w2\<lparr>w_queue := q\<rparr>)
                      else (Inr (), w2\<lparr>w_queue := q\<rparr>)
                  | (None, q) \<Rightarrow> (Inr (), w2\<lparr>w_queue := q\<rparr>)))"

subsection \<open>Advancement\<close>

fun parents_ready_loop ::
  "('c, 'q) engine \<Rightarrow> gotime \<Rightarrow> string \<Rightarrow> string list \<Rightarrow> bool \<Rightarrow> ('c, 'q) world
   \<Rightarrow> (wf_error + bool \<times> bool) \<times> ('c, 'q) world"
where
  "parents_ready_loop E now iid [] allCompleted w = (Inr (True, allCompleted), w)"
| "parents_ready_loop E now iid (p # ps) allCompleted w =
     (case loadNodeState E now iid p w of
        (Inl err, w1) \<Rightarrow> (Inl err, w1)
      | (Inr ns, w1) \<Rightarrow>
          if \<not> Terminal (ns_State ns) then (Inr (False, False), w1)
          else
            let allCompleted' = (if ns_State ns \<noteq> NodeCompleted then False else allCompleted)
            in if ns_State ns = NodeSkipped then (Inr (False, False), w1)
               else parents_ready_loop E now iid ps allCompleted' w1)"

definition parentsReady ::
  "('c, 'q) engine \<Rightarrow> gotime \<Rightarrow> workflow_def \<Rightarrow> string \<Rightarrow> string \<Rightarrow> ('c, 'q) world
   \<Rightarrow> (wf_error + bool \<times> bool) \<times> ('c, 'q) world"
where
  "parentsReady E now def iid child w =
     (case map_of (d_nodes def) child of
        None \<Rightarrow> (Inl (WfNilNode child), w)
      | Some n \<Rightarrow> parents_ready_loop E now iid (n_parents n) True w)"

fun advance_loop ::
  "('c, 'q) engine \<Rightarrow> gotime \<Rightarrow> workflow_def \<Rightarrow> string \<Rightarrow> string list \<Rightarrow> ('c, 'q) world
   \<Rightarrow> (wf_error + unit) \<times> ('c, 'q) world"
where
  "advance_loop E now def iid [] w = (Inr (), w)"
| "advance_loop E now def iid (child # rest) w =
     (case parentsReady E now def iid child w of
        (Inl err, w1) \<Rightarrow> (Inl err, w1)
      | (Inr (ready, allCompleted), w1) \<Rightarrow>
          if \<not> ready then advance_loop E now def iid rest w1
          else
            (case loadNodeState E now iid child w1 of
               (Inl err, w2) \<Rightarrow> (Inl err, w2)
             | (Inr ns, w2) \<Rightarrow>
                 if ns_State ns \<noteq> NodePending then advance_loop E now def iid rest w2
                 else
                   (case enqueueNode E now def iid child w2 of
                      (Inl err, w3) \<Rightarrow> (Inl err, w3)
                    | (Inr u, w3) \<Rightarrow> advance_loop E now def iid rest w3)))"

definition advance ::
  "('c, 'q) engine \<Rightarrow> gotime \<Rightarrow> workflow_def \<Rightarrow> string \<Rightarrow> string \<Rightarrow> ('c, 'q) world
   \<Rightarrow> (wf_error + unit) \<times> ('c, 'q) world"
where
  "advance E now def iid parent w = advance_loop E now def iid (childrenLocked def parent) w"

subsection \<open>Finalisation\<close>

text \<open>The scan over the nodes: an error, a node that is not terminal yet (\<open>None\<close>), or whether some
  node failed.\<close>

fun finalize_scan ::
  "('c, 'q) engine \<Rightarrow> gotime \<Rightarrow> string \<Rightarrow> string list \<Rightarrow> bool \<Rightarrow> ('c, 'q) world
   \<Rightarrow> (wf_error + bool option) \<times> ('c, 'q) world"
where
  "finalize_scan E now iid [] anyFailed w = (Inr (Some anyFailed), w)"
| "finalize_scan E now iid (name # rest) anyFailed w =
     (case loadNodeState E now iid name w of
        (Inl err, w1) \<Rightarrow> (Inl err, w1)
      | (Inr ns, w1) \<Rightarrow>
          if \<not> Terminal (ns_State ns) then (Inr None, w1)
          else finalize_scan E now iid rest (if ns_State ns = NodeFailed then True else anyFailed) w1)"

definition maybeFinalize ::
  "('c, 'q) engine \<Rightarrow> gotime \<Rightarrow> workflow_def \<Rightarrow> string \<Rightarrow> ('c, 'q) world \<Rightarrow> ('c, 'q) world"
where
  "maybeFinalize E now def iid w =
     (case finalize_scan E now iid (nodeNames def) False w of
        (Inl err, w1) \<Rightarrow> reportErr E iid ''finalize-load'' err w1
      | (Inr None, w1) \<Rightarrow> w1
      | (Inr (Some anyFailed), w1) \<Rightarrow>
          (case loadInstanceMeta E now iid w1 of
             (Inl err, w2) \<Rightarrow> reportErr E iid ''finalize-load-meta'' err w2
           | (Inr meta, w2) \<Rightarrow>
               if meta_done meta then w2
               else
                 let meta' = meta\<lparr>m_State := (if anyFailed then InstanceFailed else InstanceCompleted),
                                  m_EndedAt := now\<rparr>
                 in case encodeInstanceMeta (e_codec E) meta' of
                      Inl err \<Rightarrow> reportErr E iid ''finalize-encode'' err w2
                    | Inr updated \<Rightarrow>
                        report_failure E iid ''finalize-write''
                          (outputs_Set E now (instanceMetaKey (e_KeyPrefix E) iid) updated (e_InstanceTTL E) w2)))"

subsection \<open>Failure policies\<close>

fun skip_nodes ::
  "('c, 'q) engine \<Rightarrow> gotime \<Rightarrow> string \<Rightarrow> string \<Rightarrow> string \<Rightarrow> string list \<Rightarrow> ('c, 'q) world \<Rightarrow> ('c, 'q) world"
where
  "skip_nodes E now iid loadOp writeOp [] w = w"
| "skip_nodes E now iid loadOp writeOp (name # rest) w =
     (case loadNodeState E now iid name w of
        (Inl err, w1) \<Rightarrow> skip_nodes E now iid loadOp writeOp rest (reportErr E iid loadOp err w1)
      | (Inr ns, w1) \<Rightarrow>
          if \<not> Terminal (ns_State ns) then
            skip_nodes E now iid loadOp writeOp rest
              (report_failure E iid writeOp
                 (writeNodeState E now iid name (ns\<lparr>ns_State := NodeSkipped, ns_EndedAt := now\<rparr>) w1))
          else skip_nodes E now iid loadOp writeOp rest w1)"

text \<open>The bridge has dereferenced the failed node before it gets here, so the node exists.\<close>

definition applyFailurePolicy ::
  "('c, 'q) engine \<Rightarrow> gotime \<Rightarrow> workflow_def \<Rightarrow> string \<Rightarrow> string \<Rightarrow> ('c, 'q) world \<Rightarrow> ('c, 'q) world"
where
  "applyFailurePolicy E now def iid failed w =
     (case map_of (d_nodes def) failed of
        None \<Rightarrow> w
      | Some n \<Rightarrow>
          (case n_failure n of
             FailHaltWorkflow \<Rightarrow>
               let w1 = skip_nodes E now iid ''policy-load-state'' ''policy-skip-write'' (nodeNames def) w
               in markInstanceFailed E now iid
                    (''node '' @ quote_text (e_codec E) failed @ '' failed; workflow halted'') w1
           | FailSkipDownstream \<Rightarrow>
               let w1 = skip_nodes E now iid ''policy-load-descendant'' ''policy-skip-descendant''
                          (descendants def failed) w
               in maybeFinalize E now def iid w1
           | FailContinue \<Rightarrow>
               let w1 = report_failure E iid ''policy-continue-output''
                          (outputs_Set E now (nodeOutputKey (e_KeyPrefix E) iid failed) [] (e_InstanceTTL E) w);
                   w2 = report_failure E iid ''policy-continue-advance'' (advance E now def iid failed w1)
               in maybeFinalize E now def iid w2))"

definition isFinalAttempt :: "task \<Rightarrow> int \<Rightarrow> bool" where
  "isFinalAttempt t attempts = (case t_max_retries t of None \<Rightarrow> False | Some m \<Rightarrow> attempts > m)"

subsection \<open>Submission\<close>

text \<open>\<open>rnd\<close> is the outcome of \<^verbatim>\<open>rand.Read\<close> on eight bytes.\<close>

definition newInstanceID :: "bytes option \<Rightarrow> wf_error + string" where
  "newInstanceID rnd = (case rnd of None \<Rightarrow> Inl WfNoRandom | Some b \<Rightarrow> Inr (hex_EncodeToString b))"

fun submit_nodes ::
  "('c, 'q) engine \<Rightarrow> gotime \<Rightarrow> string \<Rightarrow> string list \<Rightarrow> ('c, 'q) world \<Rightarrow> (wf_error + unit) \<times> ('c, 'q) world"
where
  "submit_nodes E now iid [] w = (Inr (), w)"
| "submit_nodes E now iid (name # rest) w =
     (case encodeNodeState (e_codec E) (zero_node NodePending) of
        Inl err \<Rightarrow> (Inl err, w)
      | Inr stateBytes \<Rightarrow>
          (case outputs_Set E now (nodeStateKey (e_KeyPrefix E) iid name) stateBytes 0 w of
             (Inl err, w1) \<Rightarrow> (Inl err, w1)
           | (Inr u, w1) \<Rightarrow> submit_nodes E now iid rest w1))"

fun submit_roots ::
  "('c, 'q) engine \<Rightarrow> gotime \<Rightarrow> workflow_def \<Rightarrow> string \<Rightarrow> string list \<Rightarrow> ('c, 'q) world
   \<Rightarrow> wf_error option \<times> ('c, 'q) world"
where
  "submit_roots E now def iid [] w = (None, w)"
| "submit_roots E now def iid (root # rest) w =
     (case enqueueNode E now def iid root w of
        (Inl err, w1) \<Rightarrow>
          (Some err, markInstanceFailed E now iid
             (''submit: enqueue '' @ root @ '': '' @ error_text (e_codec E) err) w1)
      | (Inr u, w1) \<Rightarrow> submit_roots E now def iid rest w1)"

definition submit_input ::
  "('c, 'q) engine \<Rightarrow> gotime \<Rightarrow> string \<Rightarrow> bytes option \<Rightarrow> ('c, 'q) world \<Rightarrow> (wf_error + unit) \<times> ('c, 'q) world"
where
  "submit_input E now iid input w =
     (case input of
        None \<Rightarrow> (Inr (), w)
      | Some v \<Rightarrow> outputs_Set E now (nodeOutputKey (e_KeyPrefix E) iid []) v 0 w)"

definition Submit ::
  "('c, 'q) engine \<Rightarrow> gotime \<Rightarrow> bytes option \<Rightarrow> string \<Rightarrow> bytes option \<Rightarrow> ('c, 'q) world
   \<Rightarrow> (string \<times> wf_error option) \<times> ('c, 'q) world"
where
  "Submit E now rnd definitionName input w =
     (if e_closed E then (([], Some WfClosed), w)
      else (case e_definitions E definitionName of
        None \<Rightarrow> (([], Some (WfNotRegistered definitionName)), w)
      | Some def \<Rightarrow>
      (case newInstanceID rnd of
        Inl err \<Rightarrow> (([], Some err), w)
      | Inr iid \<Rightarrow>
      (case encodeInstanceMeta (e_codec E)
              \<lparr>m_ID = iid, m_Definition = definitionName, m_State = InstanceRunning, m_StartedAt = now,
               m_EndedAt = 0, m_Tags = []\<rparr> of
        Inl err \<Rightarrow> (([], Some err), w)
      | Inr metaBytes \<Rightarrow>
      (case outputs_Set E now (instanceMetaKey (e_KeyPrefix E) iid) metaBytes 0 w of
        (Inl err, w1) \<Rightarrow> (([], Some err), w1)
      | (Inr u, w1) \<Rightarrow>
      (case submit_nodes E now iid (nodeNames def) w1 of
        (Inl err, w2) \<Rightarrow> (([], Some err), w2)
      | (Inr u, w2) \<Rightarrow>
      (case submit_input E now iid input w2 of
        (Inl err, w3) \<Rightarrow> (([], Some err), w3)
      | (Inr u, w3) \<Rightarrow>
      (case submit_roots E now def iid (roots def) w3 of
        (res, w4) \<Rightarrow> ((iid, res), w4)))))))))"

subsection \<open>Reading, cancelling and cleaning up\<close>

record InstanceInfo =
  ii_ID :: string
  ii_Definition :: string
  ii_State :: InstanceState
  ii_StartedAt :: gotime
  ii_EndedAt :: gotime
  ii_Nodes :: "(string \<times> nodeStateRecord) list"

text \<open>\<^verbatim>\<open>NodeInfo\<close> has the fields of \<open>nodeStateRecord\<close>.\<close>

fun inspect_nodes ::
  "('c, 'q) engine \<Rightarrow> gotime \<Rightarrow> string \<Rightarrow> string list \<Rightarrow> ('c, 'q) world
   \<Rightarrow> (string \<times> nodeStateRecord) list \<times> ('c, 'q) world"
where
  "inspect_nodes E now iid [] w = ([], w)"
| "inspect_nodes E now iid (name # rest) w =
     (case loadNodeState E now iid name w of
        (Inl err, w1) \<Rightarrow> inspect_nodes E now iid rest w1
      | (Inr n, w1) \<Rightarrow> (case inspect_nodes E now iid rest w1 of (ns, w2) \<Rightarrow> (alist_put name n ns, w2)))"

definition wf_Inspect ::
  "('c, 'q) engine \<Rightarrow> gotime \<Rightarrow> string \<Rightarrow> ('c, 'q) world \<Rightarrow> (wf_error + InstanceInfo) \<times> ('c, 'q) world"
where
  "wf_Inspect E now iid w =
     (case loadInstanceMeta E now iid w of
        (Inl err, w1) \<Rightarrow> (Inl err, w1)
      | (Inr meta, w1) \<Rightarrow>
          let (ns, w2) = (case e_definitions E (m_Definition meta) of
                            None \<Rightarrow> ([], w1)
                          | Some def \<Rightarrow> inspect_nodes E now iid (nodeNames def) w1)
          in (Inr \<lparr>ii_ID = m_ID meta, ii_Definition = m_Definition meta, ii_State = m_State meta,
                   ii_StartedAt = m_StartedAt meta, ii_EndedAt = m_EndedAt meta, ii_Nodes = ns\<rparr>, w2))"

definition wf_Cancel ::
  "('c, 'q) engine \<Rightarrow> gotime \<Rightarrow> string \<Rightarrow> ('c, 'q) world \<Rightarrow> (wf_error + unit) \<times> ('c, 'q) world"
where
  "wf_Cancel E now iid w =
     (case loadInstanceMeta E now iid w of
        (Inl err, w1) \<Rightarrow> (Inl err, w1)
      | (Inr meta, w1) \<Rightarrow>
          if meta_done meta then (Inr (), w1)
          else
            (case encodeInstanceMeta (e_codec E) (meta\<lparr>m_State := InstanceCancelled, m_EndedAt := now\<rparr>) of
               Inl err \<Rightarrow> (Inl err, w1)
             | Inr updated \<Rightarrow> outputs_Set E now (instanceMetaKey (e_KeyPrefix E) iid) updated 0 w1))"

definition Cleanup ::
  "('c, 'q) engine \<Rightarrow> string \<Rightarrow> ('c, 'q) world \<Rightarrow> (wf_error + unit) \<times> ('c, 'q) world"
where
  "Cleanup E iid w =
     (case api_DeletePrefix (e_api E) (w_cache w) (instancePrefix (e_KeyPrefix E) iid) of
        (Inl err, c) \<Rightarrow> (Inl (WfCache err), w\<lparr>w_cache := c\<rparr>)
      | (Inr n, c) \<Rightarrow> (Inr (), w\<lparr>w_cache := c\<rparr>))"

subsection \<open>The bridge\<close>

fun collect_loop ::
  "('c, 'q) engine \<Rightarrow> gotime \<Rightarrow> string \<Rightarrow> string list \<Rightarrow> (string \<times> bytes) list \<Rightarrow> ('c, 'q) world
   \<Rightarrow> (wf_error + (string \<times> bytes) list) \<times> ('c, 'q) world"
where
  "collect_loop E now iid [] out w = (Inr out, w)"
| "collect_loop E now iid (p # ps) out w =
     (case outputs_Get E now (nodeOutputKey (e_KeyPrefix E) iid p) w of
        (Inl err, w1) \<Rightarrow> (Inl err, w1)
      | (Inr None, w1) \<Rightarrow> collect_loop E now iid ps out w1
      | (Inr (Some val), w1) \<Rightarrow> collect_loop E now iid ps (alist_put p val out) w1)"

definition collectParents ::
  "('c, 'q) engine \<Rightarrow> gotime \<Rightarrow> workflow_def \<Rightarrow> string \<Rightarrow> string \<Rightarrow> ('c, 'q) world
   \<Rightarrow> (wf_error + (string \<times> bytes) list) \<times> ('c, 'q) world"
where
  "collectParents E now def iid nodeName w =
     (case map_of (d_nodes def) nodeName of
        None \<Rightarrow> (Inl (WfNilNode nodeName), w)
      | Some n \<Rightarrow>
          if length (n_parents n) = 0 then
            (case outputs_Get E now (nodeOutputKey (e_KeyPrefix E) iid []) w of
               (Inl err, w1) \<Rightarrow> (Inl err, w1)
             | (Inr None, w1) \<Rightarrow> (Inr [], w1)
             | (Inr (Some val), w1) \<Rightarrow> (Inr [([], val)], w1))
          else collect_loop E now iid (n_parents n) [] w)"

text \<open>Up to the call of the user's handler: either the bridge returns (\<open>Inl\<close> of its error, if any), or
  it calls the handler with the collected outputs, keeping the definition and the node's record.\<close>

record invocation =
  b_instance :: string
  b_node :: string
  b_def :: workflow_def
  b_state :: nodeStateRecord
  b_parents :: "(string \<times> bytes) list"
  b_handler :: handler

definition tag :: "task \<Rightarrow> string \<Rightarrow> string" where
  "tag t k = (case t_tags t k of None \<Rightarrow> [] | Some v \<Rightarrow> v)"

definition started :: "gotime \<Rightarrow> task \<Rightarrow> nodeStateRecord \<Rightarrow> nodeStateRecord" where
  "started now t ns =
     ns\<lparr>ns_StartedAt := (if is_zero_time (ns_StartedAt ns) then now else ns_StartedAt ns),
        ns_Attempts := ns_Attempts ns + 1, ns_TaskID := t_id t, ns_State := NodeEnqueued\<rparr>"

definition bridge_start ::
  "('c, 'q) engine \<Rightarrow> gotime \<Rightarrow> string \<Rightarrow> task \<Rightarrow> ('c, 'q) world
   \<Rightarrow> (wf_error option + invocation) \<times> ('c, 'q) world"
where
  "bridge_start E now taskType t w =
     (let iid = tag t ''wf.instance''; nodeName = tag t ''wf.node'' in
      if iid = [] \<or> nodeName = [] then (Inl (Some WfMissingTags), w)
      else (case loadInstanceMeta E now iid w of
        (Inl err, w1) \<Rightarrow> (Inl (Some err), w1)
      | (Inr meta, w1) \<Rightarrow>
          if meta_done meta then (Inl None, w1)
          else (case e_definitions E (m_Definition meta) of
            None \<Rightarrow> (Inl (Some (WfDefinitionGone (m_Definition meta))), w1)
          | Some def \<Rightarrow>
          (case e_handlers E taskType of
            None \<Rightarrow> (Inl (Some (WfHandlerGone taskType)), w1)
          | Some userHandler \<Rightarrow>
          (case collectParents E now def iid nodeName w1 of
            (Inl err, w2) \<Rightarrow> (Inl (Some err), w2)
          | (Inr parents, w2) \<Rightarrow>
              let (r, w3) = loadNodeState E now iid nodeName w2;
                  startState = started now t (or_zero r);
                  w4 = report_failure E iid ''write-start-state'' (writeNodeState E now iid nodeName startState w3)
              in (Inr \<lparr>b_instance = iid, b_node = nodeName, b_def = def, b_state = startState,
                       b_parents = parents, b_handler = userHandler\<rparr>, w4))))))"

text \<open>After the handler returned.\<close>

definition bridge_failed ::
  "('c, 'q) engine \<Rightarrow> gotime \<Rightarrow> task \<Rightarrow> invocation \<Rightarrow> string \<Rightarrow> ('c, 'q) world \<Rightarrow> ('c, 'q) world"
where
  "bridge_failed E now t b msg w =
     (let iid = b_instance b; nodeName = b_node b;
          startState = (b_state b)\<lparr>ns_LastError := msg\<rparr>;
          w1 = report_failure E iid ''write-error-state'' (writeNodeState E now iid nodeName startState w)
      in if isFinalAttempt t (ns_Attempts startState) then
           let failedState = startState\<lparr>ns_State := NodeFailed, ns_EndedAt := now\<rparr>;
               w2 = report_failure E iid ''write-failed-state'' (writeNodeState E now iid nodeName failedState w1)
           in applyFailurePolicy E now (b_def b) iid nodeName w2
         else w1)"

definition bridge_succeeded ::
  "('c, 'q) engine \<Rightarrow> gotime \<Rightarrow> invocation \<Rightarrow> bytes \<Rightarrow> ('c, 'q) world \<Rightarrow> wf_error option \<times> ('c, 'q) world"
where
  "bridge_succeeded E now b out w =
     (let iid = b_instance b; nodeName = b_node b in
      case outputs_Set E now (nodeOutputKey (e_KeyPrefix E) iid nodeName) out (e_InstanceTTL E) w of
        (Inl err, w1) \<Rightarrow> (Some err, w1)
      | (Inr u, w1) \<Rightarrow>
          (case writeNodeState E now iid nodeName
                  ((b_state b)\<lparr>ns_State := NodeCompleted, ns_EndedAt := now, ns_LastError := []\<rparr>) w1 of
             (Inl err, w2) \<Rightarrow> (Some err, w2)
           | (Inr u, w2) \<Rightarrow>
               let w3 = report_failure E iid ''advance'' (advance E now (b_def b) iid nodeName w2)
               in (None, maybeFinalize E now (b_def b) iid w3)))"

definition bridge_finish ::
  "('c, 'q) engine \<Rightarrow> gotime \<Rightarrow> task \<Rightarrow> invocation \<Rightarrow> string + bytes \<Rightarrow> ('c, 'q) world
   \<Rightarrow> wf_error option \<times> ('c, 'q) world"
where
  "bridge_finish E now t b result w =
     (case result of
        Inl msg \<Rightarrow> (Some (WfHandlerError msg), bridge_failed E now t b msg w)
      | Inr out \<Rightarrow> bridge_succeeded E now b out w)"

definition bridge ::
  "('c, 'q) engine \<Rightarrow> gotime \<Rightarrow> string \<Rightarrow> task \<Rightarrow> ('c, 'q) world \<Rightarrow> wf_error option \<times> ('c, 'q) world"
where
  "bridge E now taskType t w =
     (case bridge_start E now taskType t w of
        (Inl res, w1) \<Rightarrow> (res, w1)
      | (Inr b, w1) \<Rightarrow> bridge_finish E now t b (b_handler b (b_parents b)) w1)"

end
