(* ===== verification/Workflow_Spec.thy ===== *)
theory Workflow_Spec imports
  Workflow_Engine
begin

text \<open>
  What the engine promises, free of caches and encodings: an instance as a record of its header, one
  record per node, the outputs and the accepted tasks, and one plain function per operation of the
  engine on it. The locale \<open>engine_client\<close> states what the engine relies on of its cache (an exact
  time-to-live map) and of its task queue, and shows that the operations of \<open>Workflow_Engine\<close>
  implement those functions.
\<close>

section \<open>Keys\<close>

lemma nodeStateKey_inj [simp]: "nodeStateKey pre iid n = nodeStateKey pre iid n' \<longleftrightarrow> n = n'"
  by (simp add: nodeStateKey_def)

lemma nodeOutputKey_inj [simp]: "nodeOutputKey pre iid n = nodeOutputKey pre iid n' \<longleftrightarrow> n = n'"
  by (simp add: nodeOutputKey_def)

lemma keys_distinct [simp]:
  "nodeStateKey pre iid n \<noteq> nodeOutputKey pre iid n'" "nodeOutputKey pre iid n' \<noteq> nodeStateKey pre iid n"
  "nodeStateKey pre iid n \<noteq> instanceMetaKey pre iid" "instanceMetaKey pre iid \<noteq> nodeStateKey pre iid n"
  "nodeOutputKey pre iid n \<noteq> instanceMetaKey pre iid" "instanceMetaKey pre iid \<noteq> nodeOutputKey pre iid n"
  by (auto dest!: arg_cong [where f = last] simp: nodeStateKey_def nodeOutputKey_def instanceMetaKey_def)

lemma fire_key_inj [simp]: "fire_key iid n = fire_key iid n' \<longleftrightarrow> n = n'"
  by (simp add: fire_key_def)

section \<open>The abstract instance\<close>

record inst =
  i_meta :: instanceMeta
  i_node :: "string \<Rightarrow> nodeStateRecord"
  i_out :: "string \<Rightarrow> bytes option"
  i_tasks :: "task list"

abbreviation (input) st :: "inst \<Rightarrow> string \<Rightarrow> NodeState" where
  "st S n \<equiv> ns_State (i_node S n)"

definition set_node :: "string \<Rightarrow> nodeStateRecord \<Rightarrow> inst \<Rightarrow> inst" where
  "set_node n r S = S\<lparr>i_node := (i_node S)(n := r)\<rparr>"

definition set_out :: "string \<Rightarrow> bytes \<Rightarrow> inst \<Rightarrow> inst" where
  "set_out n v S = S\<lparr>i_out := (i_out S)(n \<mapsto> v)\<rparr>"

lemma set_node_simps [simp]:
  "i_meta (set_node n r S) = i_meta S" "i_node (set_node n r S) = (i_node S)(n := r)"
  "i_out (set_node n r S) = i_out S" "i_tasks (set_node n r S) = i_tasks S"
  by (simp_all add: set_node_def)

lemma set_out_simps [simp]:
  "i_meta (set_out n v S) = i_meta S" "i_node (set_out n v S) = i_node S"
  "i_out (set_out n v S) = (i_out S)(n \<mapsto> v)" "i_tasks (set_out n v S) = i_tasks S"
  by (simp_all add: set_out_def)

definition a_enqueue :: "(string \<Rightarrow> node \<Rightarrow> task) \<Rightarrow> workflow_def \<Rightarrow> string \<Rightarrow> inst \<Rightarrow> inst" where
  "a_enqueue mk d n S =
     (set_node n ((i_node S n)\<lparr>ns_State := NodeEnqueued\<rparr>) S)\<lparr>i_tasks := i_tasks S @ [mk n (the (map_of (d_nodes d) n))]\<rparr>"

text \<open>A node may start when every parent has completed, or has failed without its branch being
  skipped.\<close>

definition a_ready :: "workflow_def \<Rightarrow> inst \<Rightarrow> string \<Rightarrow> bool" where
  "a_ready d S n \<longleftrightarrow> (\<forall>p \<in> set (parents_of d n). st S p = NodeCompleted \<or> st S p = NodeFailed)"

definition a_promote :: "(string \<Rightarrow> node \<Rightarrow> task) \<Rightarrow> workflow_def \<Rightarrow> inst \<Rightarrow> string \<Rightarrow> inst" where
  "a_promote mk d S c = (if a_ready d S c \<and> st S c = NodePending then a_enqueue mk d c S else S)"

definition a_advance :: "(string \<Rightarrow> node \<Rightarrow> task) \<Rightarrow> workflow_def \<Rightarrow> string \<Rightarrow> inst \<Rightarrow> inst" where
  "a_advance mk d p S = foldl (a_promote mk d) S (childrenLocked d p)"

definition a_finalize :: "gotime \<Rightarrow> workflow_def \<Rightarrow> inst \<Rightarrow> inst" where
  "a_finalize now d S =
     (if (\<forall>n \<in> set (d_order d). Terminal (st S n)) \<and> \<not> meta_done (i_meta S) then
        S\<lparr>i_meta := (i_meta S)
            \<lparr>m_State := (if \<exists>n \<in> set (d_order d). st S n = NodeFailed then InstanceFailed else InstanceCompleted),
             m_EndedAt := now\<rparr>\<rparr>
      else S)"

definition a_skip :: "gotime \<Rightarrow> string set \<Rightarrow> inst \<Rightarrow> inst" where
  "a_skip now ns S = S\<lparr>i_node := (\<lambda>n. if n \<in> ns \<and> \<not> Terminal (st S n)
                                      then (i_node S n)\<lparr>ns_State := NodeSkipped, ns_EndedAt := now\<rparr> else i_node S n)\<rparr>"

definition a_mark_failed :: "gotime \<Rightarrow> string \<Rightarrow> inst \<Rightarrow> inst" where
  "a_mark_failed now reason S =
     (if meta_done (i_meta S) then S
      else S\<lparr>i_meta := (i_meta S)\<lparr>m_State := InstanceFailed, m_EndedAt := now,
                                  m_Tags := alist_put ''failure_reason'' reason (m_Tags (i_meta S))\<rparr>\<rparr>)"

definition policy_of :: "workflow_def \<Rightarrow> string \<Rightarrow> FailPolicy" where
  "policy_of d n = (case map_of (d_nodes d) n of None \<Rightarrow> FailHaltWorkflow | Some nd \<Rightarrow> n_failure nd)"

definition a_policy :: "(string \<Rightarrow> node \<Rightarrow> task) \<Rightarrow> (string \<Rightarrow> string) \<Rightarrow> gotime \<Rightarrow> workflow_def \<Rightarrow> string \<Rightarrow> inst \<Rightarrow> inst" where
  "a_policy mk qt now d failed S =
     (case policy_of d failed of
        FailHaltWorkflow \<Rightarrow>
          a_mark_failed now (''node '' @ qt failed @ '' failed; workflow halted'') (a_skip now (set (d_order d)) S)
      | FailSkipDownstream \<Rightarrow> a_finalize now d (a_skip now {x. (failed, x) \<in> (parent_rel d)\<^sup>+} S)
      | FailContinue \<Rightarrow> a_finalize now d (a_advance mk d failed (set_out failed [] S)))"

definition a_fail ::
  "(string \<Rightarrow> node \<Rightarrow> task) \<Rightarrow> (string \<Rightarrow> string) \<Rightarrow> gotime \<Rightarrow> workflow_def \<Rightarrow> task \<Rightarrow> string \<Rightarrow> nodeStateRecord \<Rightarrow> string \<Rightarrow> inst \<Rightarrow> inst"
where
  "a_fail mk qt now d t n r msg S =
     (let r1 = r\<lparr>ns_LastError := msg\<rparr> in
      if isFinalAttempt t (ns_Attempts r1)
      then a_policy mk qt now d n (set_node n (r1\<lparr>ns_State := NodeFailed, ns_EndedAt := now\<rparr>) S)
      else set_node n r1 S)"

definition a_succeed ::
  "(string \<Rightarrow> node \<Rightarrow> task) \<Rightarrow> gotime \<Rightarrow> workflow_def \<Rightarrow> string \<Rightarrow> nodeStateRecord \<Rightarrow> bytes \<Rightarrow> inst \<Rightarrow> inst"
where
  "a_succeed mk now d n r out S =
     a_finalize now d (a_advance mk d n
       (set_node n (r\<lparr>ns_State := NodeCompleted, ns_EndedAt := now, ns_LastError := []\<rparr>) (set_out n out S)))"

definition a_finish ::
  "(string \<Rightarrow> node \<Rightarrow> task) \<Rightarrow> (string \<Rightarrow> string) \<Rightarrow> gotime \<Rightarrow> workflow_def \<Rightarrow> task \<Rightarrow> string \<Rightarrow> nodeStateRecord \<Rightarrow> string + bytes \<Rightarrow> inst \<Rightarrow> inst"
where
  "a_finish mk qt now d t n r result S =
     (case result of Inl msg \<Rightarrow> a_fail mk qt now d t n r msg S | Inr out \<Rightarrow> a_succeed mk now d n r out S)"

text \<open>The outputs handed to the handler of a node.\<close>

definition a_parents :: "workflow_def \<Rightarrow> string \<Rightarrow> inst \<Rightarrow> string \<Rightarrow> bytes option" where
  "a_parents d n S =
     (if parents_of d n = [] then (\<lambda>k. if k = [] then i_out S [] else None)
      else (\<lambda>k. if k \<in> set (parents_of d n) then i_out S k else None))"

text \<open>A submitted instance: everything pending, the roots enqueued.\<close>

definition blank :: "string \<Rightarrow> string \<Rightarrow> gotime \<Rightarrow> bytes option \<Rightarrow> task list \<Rightarrow> inst" where
  "blank iid dn now input ts =
     \<lparr>i_meta = \<lparr>m_ID = iid, m_Definition = dn, m_State = InstanceRunning, m_StartedAt = now, m_EndedAt = 0, m_Tags = []\<rparr>,
      i_node = (\<lambda>_. zero_node NodePending), i_out = (\<lambda>n. if n = [] then input else None), i_tasks = ts\<rparr>"

definition a_submit :: "(string \<Rightarrow> node \<Rightarrow> task) \<Rightarrow> workflow_def \<Rightarrow> string \<Rightarrow> string \<Rightarrow> gotime \<Rightarrow> bytes option \<Rightarrow> task list \<Rightarrow> inst" where
  "a_submit mk d iid dn now input ts =
     foldl (\<lambda>S n. a_enqueue mk d n S) (blank iid dn now input ts) (roots d)"

section \<open>What the engine relies on\<close>

locale task_queue =
  fixes enq :: "gotime \<Rightarrow> 'q \<Rightarrow> task \<Rightarrow> task_error option \<times> 'q"
    and accepted :: "'q \<Rightarrow> task list"
    and q_ok :: "'q \<Rightarrow> bool"
  assumes enq_ok: "q_ok q \<Longrightarrow> q_ok (snd (enq now q t))"
    and enq_accept: "q_ok q \<Longrightarrow> fst (enq now q t) = None \<Longrightarrow> accepted (snd (enq now q t)) = accepted q @ [t]"
    and enq_reject: "q_ok q \<Longrightarrow> fst (enq now q t) = Some err \<Longrightarrow> accepted (snd (enq now q t)) = accepted q \<and>
      err = ErrUniqueViolation \<and> (\<exists>t' \<in> set (accepted q). t_unique_key t' = t_unique_key t)"

definition codec_rt :: "wf_codec \<Rightarrow> bool" where
  "codec_rt cd \<longleftrightarrow> (\<forall>m. \<exists>b. marshal_meta cd m = Some b \<and> unmarshal_meta cd b = Some m) \<and>
     (\<forall>n. \<exists>b. marshal_node cd n = Some b \<and> unmarshal_node cd b = Some n)"

text \<open>The part of the cache that belongs to an instance, read through the codec.\<close>

definition shows_inst :: "('c, 'q) engine \<Rightarrow> string \<Rightarrow> (string \<Rightarrow> bytes option) \<Rightarrow> inst \<Rightarrow> bool" where
  "shows_inst E iid f S \<longleftrightarrow>
     (\<exists>raw. f (instanceMetaKey (e_KeyPrefix E) iid) = Some raw \<and> decodeInstanceMeta (e_codec E) raw = Inr (i_meta S)) \<and>
     (\<forall>n. (case f (nodeStateKey (e_KeyPrefix E) iid n) of
             None \<Rightarrow> Inr (zero_node NodePending)
           | Some raw \<Rightarrow> decodeNodeState (e_codec E) raw) = Inr (i_node S n)) \<and>
     (\<forall>n. f (nodeOutputKey (e_KeyPrefix E) iid n) = i_out S n)"

locale engine_client =
  lossless_cache get put del del_prefix look ok + task_queue enq accepted q_ok
  for get :: "gotime \<Rightarrow> 'c \<Rightarrow> string \<Rightarrow> (cache_error + bytes option) \<times> 'c"
    and put :: "gotime \<Rightarrow> 'c \<Rightarrow> string \<Rightarrow> bytes \<Rightarrow> duration \<Rightarrow> (cache_error + unit) \<times> 'c"
    and del del_prefix look ok
    and enq :: "gotime \<Rightarrow> 'q \<Rightarrow> task \<Rightarrow> task_error option \<times> 'q"
    and accepted q_ok +
  fixes E :: "('c, 'q) engine"
  assumes api: "api_Get (e_api E) = get" "api_Set (e_api E) = put" "api_DeletePrefix (e_api E) = del_prefix"
    "api_Enqueue (e_api E) = enq"
begin

text \<open>\<open>rep iid t1 now w S\<close>: from \<open>now\<close> to the horizon \<open>t1\<close>, before which nothing written from now on
  expires, the world \<open>w\<close> holds the instance \<open>S\<close>.\<close>

definition rep :: "string \<Rightarrow> gotime \<Rightarrow> gotime \<Rightarrow> ('c, 'q) world \<Rightarrow> inst \<Rightarrow> bool" where
  "rep iid t1 now w S \<longleftrightarrow> codec_rt (e_codec E) \<and> 0 \<le> now \<and> now \<le> t1 \<and>
     (0 < e_InstanceTTL E \<longrightarrow> t1 \<le> now + e_InstanceTTL E) \<and>
     ok (w_cache w) \<and> q_ok (w_queue w) \<and> accepted (w_queue w) = i_tasks S \<and>
     (\<forall>t. now \<le> t \<longrightarrow> t \<le> t1 \<longrightarrow> shows_inst E iid (look (w_cache w) t) S)"

lemma rep_later: "rep iid t1 now w S \<Longrightarrow> now \<le> now' \<Longrightarrow> now' \<le> t1 \<Longrightarrow> rep iid t1 now' w S"
  by (auto simp: rep_def)

lemma rep_codec: "rep iid t1 now w S \<Longrightarrow> codec_rt (e_codec E)"
  by (simp add: rep_def)

lemma rep_report [simp]: "rep iid t1 now (w\<lparr>w_reported := x\<rparr>) S = rep iid t1 now w S"
  by (simp add: rep_def)

lemma get_rep:
  assumes "rep iid t1 now w S"
  shows "\<exists>w'. outputs_Get E now k w = (Inr (look (w_cache w) now k), w') \<and> rep iid t1 now w' S \<and>
    w_reported w' = w_reported w"
proof -
  have ok: "ok (w_cache w)" using assms by (simp add: rep_def)
  obtain c where c: "get now (w_cache w) k = (Inr (look (w_cache w) now k), c)"
    using get_hit [OF ok, of now k] by (cases "get now (w_cache w) k") auto
  have "ok c" "\<And>t j. now \<le> t \<Longrightarrow> look c t j = look (w_cache w) t j"
    using get_ok [OF ok, of now k] get_look [OF ok, of now _ k] c by auto
  then have "rep iid t1 now (w\<lparr>w_cache := c\<rparr>) S"
    using assms by (simp add: rep_def shows_inst_def)
  then show ?thesis by (simp add: outputs_Get_def api c)
qed

lemma loadInstanceMeta_rep:
  assumes "rep iid t1 now w S"
  shows "\<exists>w'. loadInstanceMeta E now iid w = (Inr (i_meta S), w') \<and> rep iid t1 now w' S \<and> w_reported w' = w_reported w"
proof -
  have "shows_inst E iid (look (w_cache w) now) S" using assms by (simp add: rep_def)
  then obtain raw where "look (w_cache w) now (instanceMetaKey (e_KeyPrefix E) iid) = Some raw"
    "decodeInstanceMeta (e_codec E) raw = Inr (i_meta S)" by (auto simp: shows_inst_def)
  with get_rep [OF assms, of "instanceMetaKey (e_KeyPrefix E) iid"] show ?thesis
    by (auto simp: loadInstanceMeta_def)
qed

lemma loadNodeState_rep:
  assumes "rep iid t1 now w S"
  shows "\<exists>w'. loadNodeState E now iid n w = (Inr (i_node S n), w') \<and> rep iid t1 now w' S \<and> w_reported w' = w_reported w"
proof -
  have "shows_inst E iid (look (w_cache w) now) S" using assms by (simp add: rep_def)
  then have "(case look (w_cache w) now (nodeStateKey (e_KeyPrefix E) iid n) of
      None \<Rightarrow> Inr (zero_node NodePending) | Some raw \<Rightarrow> decodeNodeState (e_codec E) raw) = Inr (i_node S n)"
    by (simp add: shows_inst_def)
  with get_rep [OF assms, of "nodeStateKey (e_KeyPrefix E) iid n"] show ?thesis
    by (auto simp: loadNodeState_def split: option.splits)
qed

lemma outputs_Get_rep:
  assumes "rep iid t1 now w S"
  shows "\<exists>w'. outputs_Get E now (nodeOutputKey (e_KeyPrefix E) iid n) w = (Inr (i_out S n), w') \<and>
    rep iid t1 now w' S \<and> w_reported w' = w_reported w"
proof -
  have "look (w_cache w) now (nodeOutputKey (e_KeyPrefix E) iid n) = i_out S n"
    using assms by (simp add: rep_def shows_inst_def)
  with get_rep [OF assms, of "nodeOutputKey (e_KeyPrefix E) iid n"] show ?thesis by simp
qed

lemma put_rep:
  assumes "rep iid t1 now w S" "ttl = e_InstanceTTL E \<or> ttl = 0"
    "\<And>f. shows_inst E iid f S \<Longrightarrow> shows_inst E iid (f(k \<mapsto> v)) S'" "i_tasks S' = i_tasks S"
  shows "\<exists>w'. outputs_Set E now k v ttl w = (Inr (), w') \<and> rep iid t1 now w' S' \<and> w_reported w' = w_reported w"
proof -
  have w: "ok (w_cache w)" "0 \<le> now" using assms by (simp_all add: rep_def)
  obtain c where c: "put now (w_cache w) k v ttl = (Inr (), c)"
    using put_ok [OF w(1), of now k v ttl] by (cases "put now (w_cache w) k v ttl") auto
  have "look c t = (look (w_cache w) t)(k \<mapsto> v)" if "now \<le> t" "t \<le> t1" for t
  proof (rule ext)
    fix j
    have "ttl_value now ttl v t = Some v" using assms(1,2) that by (auto simp: ttl_value_def rep_def)
    then show "look c t j = ((look (w_cache w) t)(k \<mapsto> v)) j"
      using put_look_exact [OF w, of k v ttl t j] c by simp
  qed
  moreover have "ok c" using put_ok [OF w(1), of now k v ttl] c by simp
  ultimately have "rep iid t1 now (w\<lparr>w_cache := c\<rparr>) S'"
    using assms(1,3,4) by (simp add: rep_def)
  then show ?thesis by (simp add: outputs_Set_def api c)
qed

end

context engine_client
begin

lemma writeNodeState_rep:
  assumes "rep iid t1 now w S"
  shows "\<exists>w'. writeNodeState E now iid n r w = (Inr (), w') \<and> rep iid t1 now w' (set_node n r S) \<and> w_reported w' = w_reported w"
proof -
  obtain b where b: "marshal_node (e_codec E) r = Some b" "unmarshal_node (e_codec E) b = Some r"
    using rep_codec [OF assms] unfolding codec_rt_def by blast
  have "\<exists>w'. outputs_Set E now (nodeStateKey (e_KeyPrefix E) iid n) b (e_InstanceTTL E) w = (Inr (), w') \<and>
      rep iid t1 now w' (set_node n r S) \<and> w_reported w' = w_reported w"
    by (rule put_rep [OF assms]) (auto simp: shows_inst_def decodeNodeState_def b)
  then show ?thesis by (simp add: writeNodeState_def encodeNodeState_def b)
qed

lemma write_meta_rep:
  assumes "rep iid t1 now w S" "ttl = e_InstanceTTL E \<or> ttl = 0"
  shows "\<exists>b w'. encodeInstanceMeta (e_codec E) m = Inr b \<and>
    outputs_Set E now (instanceMetaKey (e_KeyPrefix E) iid) b ttl w = (Inr (), w') \<and>
    rep iid t1 now w' (S\<lparr>i_meta := m\<rparr>) \<and> w_reported w' = w_reported w"
proof -
  obtain b where b: "marshal_meta (e_codec E) m = Some b" "unmarshal_meta (e_codec E) b = Some m"
    using rep_codec [OF assms(1)] unfolding codec_rt_def by blast
  have "\<exists>w'. outputs_Set E now (instanceMetaKey (e_KeyPrefix E) iid) b ttl w = (Inr (), w') \<and>
      rep iid t1 now w' (S\<lparr>i_meta := m\<rparr>) \<and> w_reported w' = w_reported w"
    by (rule put_rep [OF assms]) (auto simp: shows_inst_def decodeInstanceMeta_def b)
  then show ?thesis by (simp add: encodeInstanceMeta_def b)
qed

lemma write_out_rep:
  assumes "rep iid t1 now w S" "ttl = e_InstanceTTL E \<or> ttl = 0"
  shows "\<exists>w'. outputs_Set E now (nodeOutputKey (e_KeyPrefix E) iid n) v ttl w = (Inr (), w') \<and>
    rep iid t1 now w' (set_out n v S) \<and> w_reported w' = w_reported w"
  by (rule put_rep [OF assms]) (auto simp: shows_inst_def)

abbreviation mk :: "string \<Rightarrow> string \<Rightarrow> node \<Rightarrow> task" where
  "mk iid \<equiv> node_task E iid"

definition fresh :: "string \<Rightarrow> inst \<Rightarrow> string \<Rightarrow> bool" where
  "fresh iid S n \<longleftrightarrow> fire_key iid n \<notin> t_unique_key ` set (i_tasks S)"

lemma enqueueNode_rep:
  assumes "rep iid t1 now w S" "map_of (d_nodes d) n = Some nd" "fresh iid S n"
  shows "\<exists>w'. enqueueNode E now d iid n w = (Inr (), w') \<and> rep iid t1 now w' (a_enqueue (mk iid) d n S) \<and>
    w_reported w' = w_reported w"
proof -
  obtain w1 where w1: "loadNodeState E now iid n w = (Inr (i_node S n), w1)" "rep iid t1 now w1 S"
      "w_reported w1 = w_reported w"
    using loadNodeState_rep [OF assms(1)] by blast
  let ?r = "(i_node S n)\<lparr>ns_State := NodeEnqueued\<rparr>"
  obtain w2 where w2: "writeNodeState E now iid n ?r w1 = (Inr (), w2)" "rep iid t1 now w2 (set_node n ?r S)"
      "w_reported w2 = w_reported w"
    using writeNodeState_rep [OF w1(2)] w1(3) by metis
  let ?t = "node_task E iid n nd"
  have q: "q_ok (w_queue w2)" "accepted (w_queue w2) = i_tasks S" using w2 by (simp_all add: rep_def)
  have "t_unique_key ?t = fire_key iid n" by (simp add: node_task_def)
  then have "fst (enq now (w_queue w2) ?t) = None"
    using enq_reject [OF q(1), of now ?t] q(2) assms(3) by (cases "fst (enq now (w_queue w2) ?t)") (auto simp: fresh_def image_iff)
  then obtain q' where q': "enq now (w_queue w2) ?t = (None, q')" "q_ok q'" "accepted q' = i_tasks S @ [?t]"
    using enq_accept [OF q(1), of now ?t] enq_ok [OF q(1), of now ?t] q(2) by (cases "enq now (w_queue w2) ?t") auto
  have "rep iid t1 now (w2\<lparr>w_queue := q'\<rparr>) (a_enqueue (mk iid) d n S)"
    using w2(2) q'(2,3) by (simp add: rep_def a_enqueue_def assms(2) shows_inst_def)
  then show ?thesis using w1 w2 q' by (simp add: enqueueNode_def assms(2) or_zero_def api)
qed

lemma parents_ready_loop_rep:
  assumes "rep iid t1 now w S"
  shows "\<exists>w' b. parents_ready_loop E now iid ps a w =
      (Inr (\<forall>p \<in> set ps. st S p = NodeCompleted \<or> st S p = NodeFailed, b), w') \<and> rep iid t1 now w' S \<and>
    w_reported w' = w_reported w"
  using assms
proof (induction ps arbitrary: w a)
  case (Cons p ps)
  obtain w1 where w1: "loadNodeState E now iid p w = (Inr (i_node S p), w1)" "rep iid t1 now w1 S"
      "w_reported w1 = w_reported w"
    using loadNodeState_rep [OF Cons.prems] by blast
  show ?case
    using w1 Cons.IH [OF w1(2)] by (simp add: Let_def Terminal_def) metis
qed auto

lemma parentsReady_rep:
  assumes "rep iid t1 now w S" "map_of (d_nodes d) c = Some nd"
  shows "\<exists>w' b. parentsReady E now d iid c w = (Inr (a_ready d S c, b), w') \<and> rep iid t1 now w' S \<and>
    w_reported w' = w_reported w"
  using parents_ready_loop_rep [OF assms(1), of "n_parents nd" True] assms(2)
  by (simp add: parentsReady_def a_ready_def parents_of_def)

text \<open>Nothing that is still pending has been accepted by the queue.\<close>

definition once :: "string \<Rightarrow> inst \<Rightarrow> bool" where
  "once iid S \<longleftrightarrow> (\<forall>n. st S n = NodePending \<longrightarrow> fresh iid S n)"

lemma once_enqueue: "once iid S \<Longrightarrow> once iid (a_enqueue (mk iid) d n S)"
  by (auto simp: once_def fresh_def a_enqueue_def node_task_def)

lemma once_promote: "once iid S \<Longrightarrow> once iid (a_promote (mk iid) d S c)"
  by (simp add: a_promote_def once_enqueue)

lemma advance_loop_rep:
  assumes "rep iid t1 now w S" "once iid S" "\<forall>c \<in> set cs. map_of (d_nodes d) c \<noteq> None"
  shows "\<exists>w'. advance_loop E now d iid cs w = (Inr (), w') \<and> rep iid t1 now w' (foldl (a_promote (mk iid) d) S cs) \<and>
    once iid (foldl (a_promote (mk iid) d) S cs) \<and> w_reported w' = w_reported w"
  using assms
proof (induction cs arbitrary: w S)
  case (Cons c cs)
  then obtain nd where nd: "map_of (d_nodes d) c = Some nd" by auto
  obtain w1 b where w1: "parentsReady E now d iid c w = (Inr (a_ready d S c, b), w1)" "rep iid t1 now w1 S"
      "w_reported w1 = w_reported w"
    using parentsReady_rep [OF Cons.prems(1) nd] by blast
  obtain w2 where w2: "loadNodeState E now iid c w1 = (Inr (i_node S c), w2)" "rep iid t1 now w2 S"
      "w_reported w2 = w_reported w"
    using loadNodeState_rep [OF w1(2)] w1(3) by metis
  have rest: "\<forall>c \<in> set cs. map_of (d_nodes d) c \<noteq> None" using Cons.prems(3) by simp
  show ?case
  proof (cases "a_ready d S c \<and> st S c = NodePending")
    case True
    then have "fresh iid S c" using Cons.prems(2) by (simp add: once_def)
    from enqueueNode_rep [OF w2(2) nd this] obtain w3 where
      w3: "enqueueNode E now d iid c w2 = (Inr (), w3)" "rep iid t1 now w3 (a_enqueue (mk iid) d c S)"
        "w_reported w3 = w_reported w" using w2(3) by metis
    show ?thesis
      using Cons.IH [OF w3(2) once_enqueue [OF Cons.prems(2)] rest] True w1 w2 w3
      by (simp add: a_promote_def)
  next
    case False
    then show ?thesis
      using Cons.IH [OF w1(2) Cons.prems(2) rest] Cons.IH [OF w2(2) Cons.prems(2) rest] w1 w2
      by (cases "a_ready d S c") (auto simp: a_promote_def)
  qed
qed auto

lemma advance_rep:
  assumes "rep iid t1 now w S" "once iid S" "def_inv d"
  shows "\<exists>w'. advance E now d iid p w = (Inr (), w') \<and> rep iid t1 now w' (a_advance (mk iid) d p S) \<and>
    once iid (a_advance (mk iid) d p S) \<and> w_reported w' = w_reported w"
proof -
  have "\<forall>c \<in> set (childrenLocked d p). map_of (d_nodes d) c \<noteq> None"
    using def_inv_known [OF assms(3)] by (auto simp: childrenLocked_def)
  from advance_loop_rep [OF assms(1,2) this] show ?thesis by (simp add: advance_def a_advance_def)
qed


lemma finalize_scan_rep:
  assumes "rep iid t1 now w S"
  shows "\<exists>w'. finalize_scan E now iid ns a w =
      (Inr (if \<forall>n \<in> set ns. Terminal (st S n) then Some (a \<or> (\<exists>n \<in> set ns. st S n = NodeFailed)) else None), w') \<and>
    rep iid t1 now w' S \<and> w_reported w' = w_reported w"
  using assms
proof (induction ns arbitrary: w a)
  case (Cons n ns)
  obtain w1 where w1: "loadNodeState E now iid n w = (Inr (i_node S n), w1)" "rep iid t1 now w1 S"
      "w_reported w1 = w_reported w"
    using loadNodeState_rep [OF Cons.prems] by blast
  show ?case
    using w1 Cons.IH [OF w1(2), of "if st S n = NodeFailed then True else a"] by (auto simp: Let_def)
qed auto

lemma maybeFinalize_rep:
  assumes "rep iid t1 now w S"
  shows "rep iid t1 now (maybeFinalize E now d iid w) (a_finalize now d S) \<and>
    w_reported (maybeFinalize E now d iid w) = w_reported w"
proof -
  define T F where "T = (\<forall>n \<in> set (d_order d). Terminal (st S n))"
    and "F = (\<exists>n \<in> set (d_order d). st S n = NodeFailed)"
  obtain w1 where w1: "finalize_scan E now iid (d_order d) False w = (Inr (if T then Some F else None), w1)"
      "rep iid t1 now w1 S" "w_reported w1 = w_reported w"
    using finalize_scan_rep [OF assms, of "d_order d" False] unfolding T_def F_def by auto
  obtain w2 where w2: "loadInstanceMeta E now iid w1 = (Inr (i_meta S), w2)" "rep iid t1 now w2 S"
      "w_reported w2 = w_reported w"
    using loadInstanceMeta_rep [OF w1(2)] w1(3) by metis
  let ?m = "(i_meta S)\<lparr>m_State := (if F then InstanceFailed else InstanceCompleted), m_EndedAt := now\<rparr>"
  obtain b w3 where w3: "encodeInstanceMeta (e_codec E) ?m = Inr b"
      "outputs_Set E now (instanceMetaKey (e_KeyPrefix E) iid) b (e_InstanceTTL E) w2 = (Inr (), w3)"
      "rep iid t1 now w3 (S\<lparr>i_meta := ?m\<rparr>)" "w_reported w3 = w_reported w"
    using write_meta_rep [OF w2(2), of "e_InstanceTTL E" ?m] w2(3) by metis
  have a: "a_finalize now d S = (if T \<and> \<not> meta_done (i_meta S) then S\<lparr>i_meta := ?m\<rparr> else S)"
    unfolding a_finalize_def T_def F_def ..
  have "maybeFinalize E now d iid w = (if T then if meta_done (i_meta S) then w2 else w3 else w1)"
    using w1(1) w2(1) w3(1,2) by (simp add: maybeFinalize_def nodeNames_def report_failure_def Let_def)
  then show ?thesis using w1 w2 w3 unfolding a by simp
qed

lemma markInstanceFailed_rep:
  assumes "rep iid t1 now w S"
  shows "rep iid t1 now (markInstanceFailed E now iid reason w) (a_mark_failed now reason S) \<and>
    w_reported (markInstanceFailed E now iid reason w) = w_reported w"
proof -
  obtain w2 where w2: "loadInstanceMeta E now iid w = (Inr (i_meta S), w2)" "rep iid t1 now w2 S"
      "w_reported w2 = w_reported w"
    using loadInstanceMeta_rep [OF assms] by metis
  let ?m = "(i_meta S)\<lparr>m_State := InstanceFailed, m_EndedAt := now,
               m_Tags := alist_put ''failure_reason'' reason (m_Tags (i_meta S))\<rparr>"
  obtain b w3 where "encodeInstanceMeta (e_codec E) ?m = Inr b"
      "outputs_Set E now (instanceMetaKey (e_KeyPrefix E) iid) b (e_InstanceTTL E) w2 = (Inr (), w3)"
      "rep iid t1 now w3 (S\<lparr>i_meta := ?m\<rparr>)" "w_reported w3 = w_reported w"
    using write_meta_rep [OF w2(2), of "e_InstanceTTL E" ?m] w2(3) by metis
  then show ?thesis
    using w2 by (simp add: markInstanceFailed_def a_mark_failed_def report_failure_def Let_def)
qed

lemma a_skip_step:
  "a_skip now (set (n # ns)) S =
    a_skip now (set ns) (if Terminal (st S n) then S
      else set_node n ((i_node S n)\<lparr>ns_State := NodeSkipped, ns_EndedAt := now\<rparr>) S)"
  by (simp add: a_skip_def set_node_def Terminal_def fun_eq_iff)

lemma skip_nodes_rep:
  assumes "rep iid t1 now w S"
  shows "rep iid t1 now (skip_nodes E now iid a b ns w) (a_skip now (set ns) S) \<and>
    w_reported (skip_nodes E now iid a b ns w) = w_reported w"
  using assms
proof (induction ns arbitrary: w S)
  case Nil
  then show ?case by (simp add: a_skip_def)
next
  case (Cons n ns)
  obtain w1 where w1: "loadNodeState E now iid n w = (Inr (i_node S n), w1)" "rep iid t1 now w1 S"
      "w_reported w1 = w_reported w"
    using loadNodeState_rep [OF Cons.prems] by blast
  let ?r = "(i_node S n)\<lparr>ns_State := NodeSkipped, ns_EndedAt := now\<rparr>"
  obtain w2 where w2: "writeNodeState E now iid n ?r w1 = (Inr (), w2)" "rep iid t1 now w2 (set_node n ?r S)"
      "w_reported w2 = w_reported w"
    using writeNodeState_rep [OF w1(2)] w1(3) by metis
  show ?case
    unfolding a_skip_step using w1 w2 Cons.IH [OF w1(2)] Cons.IH [OF w2(2)]
    by (simp add: report_failure_def)
qed

lemma once_simps [simp]:
  "once iid (a_finalize now d S) = once iid S"
  "once iid (a_mark_failed now reason S) = once iid S"
  "once iid (set_out n v S) = once iid S"
  by (simp_all add: once_def fresh_def a_finalize_def a_mark_failed_def)

lemma once_skip: "once iid S \<Longrightarrow> once iid (a_skip now ns S)"
  by (auto simp: once_def fresh_def a_skip_def split: if_splits)

lemma once_set_node: "once iid S \<Longrightarrow> ns_State r \<noteq> NodePending \<Longrightarrow> once iid (set_node n r S)"
  by (auto simp: once_def fresh_def)

lemma applyFailurePolicy_rep:
  assumes "rep iid t1 now w S" "once iid S" "def_inv d" "n \<in> set (d_order d)"
  shows "rep iid t1 now (applyFailurePolicy E now d iid n w) (a_policy (mk iid) (quote_text (e_codec E)) now d n S) \<and>
    once iid (a_policy (mk iid) (quote_text (e_codec E)) now d n S) \<and>
    w_reported (applyFailurePolicy E now d iid n w) = w_reported w"
proof -
  obtain nd where nd: "map_of (d_nodes d) n = Some nd" using def_inv_known [OF assms(3), of n] assms(4) by auto
  have p: "policy_of d n = n_failure nd" by (simp add: policy_of_def nd)
  show ?thesis
  proof (cases "n_failure nd")
    case FailHaltWorkflow
    have s: "rep iid t1 now (skip_nodes E now iid ''policy-load-state'' ''policy-skip-write'' (d_order d) w)
        (a_skip now (set (d_order d)) S)"
      "w_reported (skip_nodes E now iid ''policy-load-state'' ''policy-skip-write'' (d_order d) w) = w_reported w"
      using skip_nodes_rep [OF assms(1)] by blast+
    show ?thesis
      using markInstanceFailed_rep [OF s(1)] s(2) FailHaltWorkflow once_skip [OF assms(2)]
      by (simp add: applyFailurePolicy_def nd a_policy_def p Let_def nodeNames_def)
  next
    case FailSkipDownstream
    have ds: "set (descendants d n) = {x. (n, x) \<in> (parent_rel d)\<^sup>+}"
      using descend_loop_set [OF assms(3), of "[]" "childrenLocked d n"]
      by (auto simp: descendants_def set_childrenLocked [OF assms(3)] trancl_unfold_left)
    have s: "rep iid t1 now (skip_nodes E now iid ''policy-load-descendant'' ''policy-skip-descendant'' (descendants d n) w)
        (a_skip now {x. (n, x) \<in> (parent_rel d)\<^sup>+} S)"
      "w_reported (skip_nodes E now iid ''policy-load-descendant'' ''policy-skip-descendant'' (descendants d n) w) = w_reported w"
      using skip_nodes_rep [OF assms(1), where ns = "descendants d n"] by (simp_all add: ds)
    show ?thesis
      using maybeFinalize_rep [OF s(1)] s(2) FailSkipDownstream once_skip [OF assms(2)]
      by (simp add: applyFailurePolicy_def nd a_policy_def p Let_def)
  next
    case FailContinue
    obtain w1 where w1: "outputs_Set E now (nodeOutputKey (e_KeyPrefix E) iid n) [] (e_InstanceTTL E) w = (Inr (), w1)"
        "rep iid t1 now w1 (set_out n [] S)" "w_reported w1 = w_reported w"
      using write_out_rep [OF assms(1)] by blast
    have "once iid (set_out n [] S)" using assms(2) by simp
    from advance_rep [OF w1(2) this assms(3)] obtain w2 where
      "advance E now d iid n w1 = (Inr (), w2)" "rep iid t1 now w2 (a_advance (mk iid) d n (set_out n [] S))"
      "once iid (a_advance (mk iid) d n (set_out n [] S))" "w_reported w2 = w_reported w"
      using w1(3) by metis
    then show ?thesis
      using maybeFinalize_rep [of iid t1 now w2] w1 FailContinue
      by (simp add: applyFailurePolicy_def nd a_policy_def p Let_def report_failure_def)
  qed
qed


lemma collect_loop_rep:
  assumes "rep iid t1 now w S"
  shows "\<exists>out' w'. collect_loop E now iid ps out w = (Inr out', w') \<and> rep iid t1 now w' S \<and>
    w_reported w' = w_reported w \<and>
    map_of out' = (\<lambda>k. if k \<in> set ps \<and> i_out S k \<noteq> None then i_out S k else map_of out k)"
  using assms
proof (induction ps arbitrary: w out)
  case (Cons p ps)
  obtain w1 where w1: "outputs_Get E now (nodeOutputKey (e_KeyPrefix E) iid p) w = (Inr (i_out S p), w1)"
      "rep iid t1 now w1 S" "w_reported w1 = w_reported w"
    using outputs_Get_rep [OF Cons.prems] by blast
  let ?o = "case i_out S p of None \<Rightarrow> out | Some v \<Rightarrow> alist_put p v out"
  have "collect_loop E now iid (p # ps) out w = collect_loop E now iid ps ?o w1"
    using w1(1) by (simp split: option.split)
  with Cons.IH [OF w1(2), of ?o] w1(3) show ?case
    by (auto simp: fun_eq_iff split: option.splits)
qed auto

lemma collectParents_rep:
  assumes "rep iid t1 now w S" "map_of (d_nodes d) n = Some nd"
  shows "\<exists>ps w'. collectParents E now d iid n w = (Inr ps, w') \<and> rep iid t1 now w' S \<and>
    w_reported w' = w_reported w \<and> map_of ps = a_parents d n S"
proof (cases "n_parents nd = []")
  case True
  obtain w1 where w1: "outputs_Get E now (nodeOutputKey (e_KeyPrefix E) iid []) w = (Inr (i_out S []), w1)"
      "rep iid t1 now w1 S" "w_reported w1 = w_reported w"
    using outputs_Get_rep [OF assms(1)] by blast
  with True assms(2) show ?thesis
    by (cases "i_out S []") (auto simp: collectParents_def a_parents_def parents_of_def fun_eq_iff)
next
  case False
  then show ?thesis
    using collect_loop_rep [OF assms(1), of "n_parents nd" "[]"] assms(2)
    by (auto simp: collectParents_def a_parents_def parents_of_def fun_eq_iff)
qed

text \<open>The task is one of node \<open>n\<close> of the instance, whose definition and handler are registered.\<close>

definition task_for :: "string \<Rightarrow> workflow_def \<Rightarrow> inst \<Rightarrow> string \<Rightarrow> task \<Rightarrow> string \<Rightarrow> bool" where
  "task_for iid d S taskType t n \<longleftrightarrow> iid \<noteq> [] \<and> n \<in> set (d_order d) \<and> def_inv d \<and>
     tag t ''wf.instance'' = iid \<and> tag t ''wf.node'' = n \<and>
     e_definitions E (m_Definition (i_meta S)) = Some d \<and> e_handlers E taskType \<noteq> None"

lemma bridge_start_done:
  assumes "rep iid t1 now w S" "task_for iid d S taskType t n" "meta_done (i_meta S)"
  shows "\<exists>w'. bridge_start E now taskType t w = (Inl None, w') \<and> rep iid t1 now w' S \<and> w_reported w' = w_reported w"
proof -
  obtain w2 where w2: "loadInstanceMeta E now iid w = (Inr (i_meta S), w2)" "rep iid t1 now w2 S"
      "w_reported w2 = w_reported w"
    using loadInstanceMeta_rep [OF assms(1)] by metis
  have "n \<noteq> []" using assms(2) by (auto simp: task_for_def def_inv_def)
  with w2 assms show ?thesis by (simp add: bridge_start_def task_for_def)
qed

lemma bridge_start_rep:
  assumes "rep iid t1 now w S" "task_for iid d S taskType t n" "\<not> meta_done (i_meta S)"
  shows "\<exists>ps w'. bridge_start E now taskType t w =
      (Inr \<lparr>b_instance = iid, b_node = n, b_def = d, b_state = started now t (i_node S n), b_parents = ps,
            b_handler = the (e_handlers E taskType)\<rparr>, w') \<and>
    map_of ps = a_parents d n S \<and> rep iid t1 now w' (set_node n (started now t (i_node S n)) S) \<and>
    w_reported w' = w_reported w"
proof -
  have n: "n \<noteq> []" "n \<in> set (d_order d)" "def_inv d" using assms(2) by (auto simp: task_for_def def_inv_def)
  then obtain nd where nd: "map_of (d_nodes d) n = Some nd" using def_inv_known [of d n] by auto
  obtain h where h: "e_handlers E taskType = Some h" using assms(2) by (auto simp: task_for_def)
  obtain w1 where w1: "loadInstanceMeta E now iid w = (Inr (i_meta S), w1)" "rep iid t1 now w1 S"
      "w_reported w1 = w_reported w"
    using loadInstanceMeta_rep [OF assms(1)] by metis
  obtain ps w2 where w2: "collectParents E now d iid n w1 = (Inr ps, w2)" "rep iid t1 now w2 S"
      "w_reported w2 = w_reported w" "map_of ps = a_parents d n S"
    using collectParents_rep [OF w1(2) nd] w1(3) by metis
  obtain w3 where w3: "loadNodeState E now iid n w2 = (Inr (i_node S n), w3)" "rep iid t1 now w3 S"
      "w_reported w3 = w_reported w"
    using loadNodeState_rep [OF w2(2)] w2(3) by metis
  let ?r = "started now t (i_node S n)"
  obtain w4 where w4: "writeNodeState E now iid n ?r w3 = (Inr (), w4)" "rep iid t1 now w4 (set_node n ?r S)"
      "w_reported w4 = w_reported w"
    using writeNodeState_rep [OF w3(2)] w3(3) by metis
  show ?thesis
    using w1 w2 w3 w4 n assms(2,3) h
    by (simp add: bridge_start_def task_for_def or_zero_def report_failure_def Let_def)
qed

lemma bridge_finish_rep:
  assumes "rep iid t1 now w S" "once iid S" "def_inv d" "n \<in> set (d_order d)"
    "b_instance b = iid" "b_node b = n" "b_def b = d" "ns_State (b_state b) = NodeEnqueued"
  shows "\<exists>w'. bridge_finish E now t b result w =
      (case result of Inl msg \<Rightarrow> Some (WfHandlerError msg) | Inr out \<Rightarrow> None, w') \<and>
    rep iid t1 now w' (a_finish (mk iid) (quote_text (e_codec E)) now d t n (b_state b) result S) \<and>
    once iid (a_finish (mk iid) (quote_text (e_codec E)) now d t n (b_state b) result S) \<and>
    w_reported w' = w_reported w"
proof (cases result)
  case (Inl msg)
  let ?r1 = "(b_state b)\<lparr>ns_LastError := msg\<rparr>"
  let ?r2 = "?r1\<lparr>ns_State := NodeFailed, ns_EndedAt := now\<rparr>"
  obtain w1 where w1: "writeNodeState E now iid n ?r1 w = (Inr (), w1)" "rep iid t1 now w1 (set_node n ?r1 S)"
      "w_reported w1 = w_reported w"
    using writeNodeState_rep [OF assms(1)] by metis
  obtain w2 where w2: "writeNodeState E now iid n ?r2 w1 = (Inr (), w2)"
      "rep iid t1 now w2 (set_node n ?r2 (set_node n ?r1 S))" "w_reported w2 = w_reported w"
    using writeNodeState_rep [OF w1(2), of n ?r2] w1(3) by metis
  have s2: "set_node n ?r2 (set_node n ?r1 S) = set_node n ?r2 S" by (simp add: set_node_def)
  have o2: "once iid (set_node n ?r2 S)" and o1: "once iid (set_node n ?r1 S)"
    using assms(8) by (simp_all add: once_set_node [OF assms(2)])
  show ?thesis
    using Inl w1 w2(1,3) applyFailurePolicy_rep [OF w2(2) [unfolded s2] o2 assms(3,4)] assms(5,6,7) o1
    by (simp add: bridge_finish_def bridge_failed_def a_finish_def a_fail_def report_failure_def Let_def)
next
  case (Inr out)
  let ?r = "(b_state b)\<lparr>ns_State := NodeCompleted, ns_EndedAt := now, ns_LastError := []\<rparr>"
  obtain w1 where w1: "outputs_Set E now (nodeOutputKey (e_KeyPrefix E) iid n) out (e_InstanceTTL E) w = (Inr (), w1)"
      "rep iid t1 now w1 (set_out n out S)" "w_reported w1 = w_reported w"
    using write_out_rep [OF assms(1)] by blast
  obtain w2 where w2: "writeNodeState E now iid n ?r w1 = (Inr (), w2)"
      "rep iid t1 now w2 (set_node n ?r (set_out n out S))" "w_reported w2 = w_reported w"
    using writeNodeState_rep [OF w1(2), of n ?r] w1(3) by metis
  have o: "once iid (set_node n ?r (set_out n out S))" using assms(2) by (simp add: once_set_node)
  obtain w3 where w3: "advance E now d iid n w2 = (Inr (), w3)"
      "rep iid t1 now w3 (a_advance (mk iid) d n (set_node n ?r (set_out n out S)))"
      "once iid (a_advance (mk iid) d n (set_node n ?r (set_out n out S)))" "w_reported w3 = w_reported w"
    using advance_rep [OF w2(2) o assms(3), of n] w2(3) by metis
  show ?thesis
    using Inr w1 w2 w3 maybeFinalize_rep [OF w3(2), of d] assms(5,6,7)
    by (simp add: bridge_finish_def bridge_succeeded_def a_finish_def a_succeed_def report_failure_def Let_def)
qed


text \<open>The world in which an instance can be submitted: the backends work, and neither the cache nor
  the queue knows the identifier.\<close>

definition unused :: "string \<Rightarrow> gotime \<Rightarrow> gotime \<Rightarrow> ('c, 'q) world \<Rightarrow> bool" where
  "unused iid t1 now w \<longleftrightarrow> codec_rt (e_codec E) \<and> 0 \<le> now \<and> now \<le> t1 \<and>
     (0 < e_InstanceTTL E \<longrightarrow> t1 \<le> now + e_InstanceTTL E) \<and> ok (w_cache w) \<and> q_ok (w_queue w) \<and>
     (\<forall>n. fire_key iid n \<notin> t_unique_key ` set (accepted (w_queue w))) \<and>
     (\<forall>t n. now \<le> t \<longrightarrow> t \<le> t1 \<longrightarrow> look (w_cache w) t (nodeStateKey (e_KeyPrefix E) iid n) = None \<and>
        look (w_cache w) t (nodeOutputKey (e_KeyPrefix E) iid n) = None)"

lemma submit_meta_rep:
  assumes "unused iid t1 now w" "marshal_meta (e_codec E) m = Some b" "unmarshal_meta (e_codec E) b = Some m"
  shows "\<exists>w'. outputs_Set E now (instanceMetaKey (e_KeyPrefix E) iid) b 0 w = (Inr (), w') \<and>
    rep iid t1 now w' \<lparr>i_meta = m, i_node = (\<lambda>_. zero_node NodePending), i_out = (\<lambda>_. None),
      i_tasks = accepted (w_queue w)\<rparr> \<and> w_reported w' = w_reported w"
proof -
  let ?k = "instanceMetaKey (e_KeyPrefix E) iid"
  have w: "ok (w_cache w)" "0 \<le> now" using assms by (simp_all add: unused_def)
  obtain c where c: "put now (w_cache w) ?k b 0 = (Inr (), c)"
    using put_ok [OF w(1), of now ?k b 0] by (cases "put now (w_cache w) ?k b 0") auto
  have "look c t = (look (w_cache w) t)(?k \<mapsto> b)" for t
    using put_look_exact [OF w, of ?k b 0 t] c by (auto simp: ttl_value_def)
  moreover have "ok c" using put_ok [OF w(1), of now ?k b 0] c by simp
  ultimately have "rep iid t1 now (w\<lparr>w_cache := c\<rparr>) \<lparr>i_meta = m, i_node = (\<lambda>_. zero_node NodePending),
      i_out = (\<lambda>_. None), i_tasks = accepted (w_queue w)\<rparr>"
    using assms by (simp add: rep_def unused_def shows_inst_def decodeInstanceMeta_def)
  then show ?thesis by (simp add: outputs_Set_def api c)
qed

lemma submit_nodes_rep:
  assumes "rep iid t1 now w S" "\<And>n. i_node S n = zero_node NodePending"
  shows "\<exists>w'. submit_nodes E now iid ns w = (Inr (), w') \<and> rep iid t1 now w' S \<and> w_reported w' = w_reported w"
  using assms(1)
proof (induction ns arbitrary: w)
  case (Cons n ns)
  obtain b where b: "marshal_node (e_codec E) (zero_node NodePending) = Some b"
      "unmarshal_node (e_codec E) b = Some (zero_node NodePending)"
    using rep_codec [OF assms(1)] unfolding codec_rt_def by blast
  have "\<exists>w'. outputs_Set E now (nodeStateKey (e_KeyPrefix E) iid n) b 0 w = (Inr (), w') \<and> rep iid t1 now w' S \<and>
      w_reported w' = w_reported w"
    by (rule put_rep [OF Cons.prems]) (auto simp: shows_inst_def decodeNodeState_def b assms(2))
  then obtain w1 where w1: "outputs_Set E now (nodeStateKey (e_KeyPrefix E) iid n) b 0 w = (Inr (), w1)"
      "rep iid t1 now w1 S" "w_reported w1 = w_reported w" by blast
  then show ?case using Cons.IH [OF w1(2)] by (simp add: encodeNodeState_def b)
qed auto

lemma submit_roots_rep:
  assumes "rep iid t1 now w S" "once iid S" "\<forall>n \<in> set ns. map_of (d_nodes d) n \<noteq> None \<and> st S n = NodePending" "distinct ns"
  shows "\<exists>w'. submit_roots E now d iid ns w = (None, w') \<and>
    rep iid t1 now w' (foldl (\<lambda>S n. a_enqueue (mk iid) d n S) S ns) \<and>
    once iid (foldl (\<lambda>S n. a_enqueue (mk iid) d n S) S ns) \<and> w_reported w' = w_reported w"
  using assms
proof (induction ns arbitrary: w S)
  case (Cons n ns)
  then obtain nd where nd: "map_of (d_nodes d) n = Some nd" by auto
  have "fresh iid S n" using Cons.prems(2,3) by (simp add: once_def)
  from enqueueNode_rep [OF Cons.prems(1) nd this] obtain w1 where
    w1: "enqueueNode E now d iid n w = (Inr (), w1)" "rep iid t1 now w1 (a_enqueue (mk iid) d n S)"
      "w_reported w1 = w_reported w" by metis
  have "\<forall>m \<in> set ns. map_of (d_nodes d) m \<noteq> None \<and> st (a_enqueue (mk iid) d n S) m = NodePending"
    using Cons.prems(3,4) by (auto simp: a_enqueue_def)
  then show ?case
    using Cons.IH [OF w1(2) once_enqueue [OF Cons.prems(2)]] w1 Cons.prems(4) by simp
qed auto

lemma Submit_rep:
  assumes "unused iid t1 now w" "\<not> e_closed E" "e_definitions E dn = Some d" "def_inv d"
    "rnd = Some rb" "iid = hex_EncodeToString rb"
  shows "\<exists>w'. Submit E now rnd dn input w = ((iid, None), w') \<and>
    rep iid t1 now w' (a_submit (mk iid) d iid dn now input (accepted (w_queue w))) \<and>
    once iid (a_submit (mk iid) d iid dn now input (accepted (w_queue w))) \<and> w_reported w' = w_reported w"
proof -
  let ?m = "\<lparr>m_ID = iid, m_Definition = dn, m_State = InstanceRunning, m_StartedAt = now, m_EndedAt = 0, m_Tags = []\<rparr>"
  obtain b where b: "marshal_meta (e_codec E) ?m = Some b" "unmarshal_meta (e_codec E) b = Some ?m"
    using assms(1) unfolding unused_def codec_rt_def by blast
  let ?S = "\<lparr>i_meta = ?m, i_node = (\<lambda>_. zero_node NodePending), i_out = (\<lambda>_. None), i_tasks = accepted (w_queue w)\<rparr>"
  obtain w1 where w1: "outputs_Set E now (instanceMetaKey (e_KeyPrefix E) iid) b 0 w = (Inr (), w1)"
      "rep iid t1 now w1 ?S" "w_reported w1 = w_reported w"
    using submit_meta_rep [OF assms(1) b] by blast
  obtain w2 where w2: "submit_nodes E now iid (d_order d) w1 = (Inr (), w2)" "rep iid t1 now w2 ?S"
      "w_reported w2 = w_reported w"
    using submit_nodes_rep [OF w1(2), of "d_order d"] w1(3) by auto
  let ?B = "blank iid dn now input (accepted (w_queue w))"
  have "\<exists>w3. submit_input E now iid input w2 = (Inr (), w3) \<and> rep iid t1 now w3 ?B \<and> w_reported w3 = w_reported w"
  proof (cases input)
    case None
    then have "?B = ?S" by (simp add: blank_def fun_eq_iff)
    with None w2 show ?thesis by (simp add: submit_input_def)
  next
    case (Some v)
    then have "?B = set_out [] v ?S" by (auto simp: blank_def set_out_def fun_eq_iff)
    with Some write_out_rep [OF w2(2), of 0 "[]" v] w2(3) show ?thesis by (simp add: submit_input_def)
  qed
  then obtain w3 where w3: "submit_input E now iid input w2 = (Inr (), w3)" "rep iid t1 now w3 ?B"
    "w_reported w3 = w_reported w" by blast
  have o: "once iid ?B" using assms(1) by (simp add: once_def fresh_def blank_def unused_def)
  have r: "\<forall>n \<in> set (roots d). map_of (d_nodes d) n \<noteq> None \<and> st ?B n = NodePending"
    using def_inv_known [OF assms(4)] by (auto simp: set_roots blank_def zero_node_def)
  show ?thesis
    using w1(1) w2(1) w3(1) submit_roots_rep [OF w3(2) o r distinct_roots [OF assms(4)]] w3(3) assms b
    by (auto simp: Submit_def newInstanceID_def encodeInstanceMeta_def nodeNames_def a_submit_def)
qed


lemma inspect_nodes_rep:
  assumes "rep iid t1 now w S"
  shows "\<exists>ns w'. inspect_nodes E now iid names w = (ns, w') \<and> rep iid t1 now w' S \<and>
    map_of ns = (\<lambda>n. if n \<in> set names then Some (i_node S n) else None)"
  using assms
proof (induction names arbitrary: w)
  case (Cons n names)
  obtain w1 where w1: "loadNodeState E now iid n w = (Inr (i_node S n), w1)" "rep iid t1 now w1 S"
    using loadNodeState_rep [OF Cons.prems] by blast
  obtain ns w2 where "inspect_nodes E now iid names w1 = (ns, w2)" "rep iid t1 now w2 S"
    "map_of ns = (\<lambda>n. if n \<in> set names then Some (i_node S n) else None)"
    using Cons.IH [OF w1(2)] by blast
  with w1 show ?case by (auto simp: fun_eq_iff)
qed auto

lemma wf_Inspect_rep:
  assumes "rep iid t1 now w S" "e_definitions E (m_Definition (i_meta S)) = Some d"
  shows "\<exists>info. fst (wf_Inspect E now iid w) = Inr info \<and> ii_State info = m_State (i_meta S) \<and>
    map_of (ii_Nodes info) = (\<lambda>n. if n \<in> set (d_order d) then Some (i_node S n) else None)"
proof -
  obtain w1 where w1: "loadInstanceMeta E now iid w = (Inr (i_meta S), w1)" "rep iid t1 now w1 S"
    using loadInstanceMeta_rep [OF assms(1)] by metis
  obtain ns w2 where "inspect_nodes E now iid (d_order d) w1 = (ns, w2)"
    "map_of ns = (\<lambda>n. if n \<in> set (d_order d) then Some (i_node S n) else None)"
    using inspect_nodes_rep [OF w1(2)] by blast
  with w1(1) assms(2) show ?thesis by (simp add: wf_Inspect_def nodeNames_def)
qed


lemma wf_Cancel_rep:
  assumes "rep iid t1 now w S"
  shows "\<exists>w'. wf_Cancel E now iid w = (Inr (), w') \<and>
    rep iid t1 now w' (if meta_done (i_meta S) then S
      else S\<lparr>i_meta := (i_meta S)\<lparr>m_State := InstanceCancelled, m_EndedAt := now\<rparr>\<rparr>) \<and> w_reported w' = w_reported w"
proof -
  obtain w2 where w2: "loadInstanceMeta E now iid w = (Inr (i_meta S), w2)" "rep iid t1 now w2 S"
      "w_reported w2 = w_reported w"
    using loadInstanceMeta_rep [OF assms] by metis
  let ?m = "(i_meta S)\<lparr>m_State := InstanceCancelled, m_EndedAt := now\<rparr>"
  obtain b w3 where "encodeInstanceMeta (e_codec E) ?m = Inr b"
      "outputs_Set E now (instanceMetaKey (e_KeyPrefix E) iid) b 0 w2 = (Inr (), w3)"
      "rep iid t1 now w3 (S\<lparr>i_meta := ?m\<rparr>)" "w_reported w3 = w_reported w"
    using write_meta_rep [OF w2(2), of 0 ?m] w2(3) by metis
  then show ?thesis using w2 by (simp add: wf_Cancel_def)
qed

end

end
