(* ===== verification/Workflow_Run.thy ===== *)
theory Workflow_Run imports
  Workflow_Spec
begin

text \<open>
  Runs of a workflow instance: the invariant of the abstract instance (dependency order, skipped
  branches, progress) and its preservation by every attempt of a node, whatever the handler returns;
  the number of attempts left as a measure that every attempt decreases.
\<close>

section \<open>The invariant\<close>

definition good :: "workflow_def \<Rightarrow> inst \<Rightarrow> string \<Rightarrow> bool" where
  "good d S p \<longleftrightarrow> st S p = NodeCompleted \<or> st S p = NodeFailed \<and> policy_of d p = FailContinue"

definition bad :: "workflow_def \<Rightarrow> inst \<Rightarrow> string \<Rightarrow> bool" where
  "bad d S p \<longleftrightarrow> st S p = NodeSkipped \<or> st S p = NodeFailed \<and> policy_of d p \<noteq> FailContinue"

definition entered :: "NodeState \<Rightarrow> bool" where
  "entered s \<longleftrightarrow> s = NodeEnqueued \<or> s = NodeCompleted \<or> s = NodeFailed"

definition limit :: "workflow_def \<Rightarrow> string \<Rightarrow> int" where
  "limit d n = (case map_of (d_nodes d) n of
     None \<Rightarrow> 1 | Some nd \<Rightarrow> max 1 (1 + (case n_maxRetries nd of None \<Rightarrow> 0 | Some k \<Rightarrow> k)))"

text \<open>The five parts: known states; a node that was enqueued has only good parents; a bad parent means
  skipped; a pending node still waits for a parent; attempts stay below the limit.\<close>

definition dep_inv :: "workflow_def \<Rightarrow> inst \<Rightarrow> bool" where
  "dep_inv d S \<longleftrightarrow> (\<forall>n \<in> set (d_order d).
     (st S n = NodePending \<or> st S n = NodeSkipped \<or> entered (st S n)) \<and>
     (entered (st S n) \<longrightarrow> (\<forall>p \<in> set (parents_of d n). good d S p)) \<and>
     ((\<exists>p \<in> set (parents_of d n). bad d S p) \<longrightarrow> st S n = NodeSkipped) \<and>
     (st S n = NodePending \<longrightarrow> ns_Attempts (i_node S n) = 0) \<and>
     (st S n = NodeEnqueued \<longrightarrow> 0 \<le> ns_Attempts (i_node S n) \<and> ns_Attempts (i_node S n) < limit d n))"

definition waits :: "workflow_def \<Rightarrow> inst \<Rightarrow> bool" where
  "waits d S \<longleftrightarrow> (\<forall>n \<in> set (d_order d). st S n = NodePending \<longrightarrow> (\<exists>p \<in> set (parents_of d n). \<not> Terminal (st S p)))"

definition all_terminal :: "workflow_def \<Rightarrow> inst \<Rightarrow> bool" where
  "all_terminal d S \<longleftrightarrow> (\<forall>n \<in> set (d_order d). Terminal (st S n))"

definition outcome :: "workflow_def \<Rightarrow> inst \<Rightarrow> InstanceState" where
  "outcome d S = (if \<exists>n \<in> set (d_order d). st S n = NodeFailed then InstanceFailed else InstanceCompleted)"

text \<open>The instance is running as long as some node has not ended, and then carries the outcome.\<close>

definition meta_inv :: "workflow_def \<Rightarrow> inst \<Rightarrow> bool" where
  "meta_inv d S \<longleftrightarrow> m_State (i_meta S) = (if all_terminal d S then outcome d S else InstanceRunning)"

definition wf_inv :: "workflow_def \<Rightarrow> inst \<Rightarrow> bool" where
  "wf_inv d S \<longleftrightarrow> dep_inv d S \<and> waits d S \<and> meta_inv d S"

lemma meta_inv_done: "meta_inv d S \<Longrightarrow> meta_done (i_meta S) = all_terminal d S"
  by (auto simp: meta_inv_def meta_done_def outcome_def)

text \<open>A valid definition in the sense of \<open>Validate_exact\<close>.\<close>

definition valid_def :: "workflow_def \<Rightarrow> bool" where
  "valid_def d \<longleftrightarrow> def_inv d \<and> d_order d \<noteq> [] \<and> closed_def d \<and> acyclic (parent_rel d)"

lemma valid_finite: "valid_def d \<Longrightarrow> finite (parent_rel d)"
  by (rule finite_subset [of _ "set (d_order d) \<times> set (d_order d)"])
    (auto simp: valid_def_def closed_def_def dest: parent_rel_known)

lemma valid_wf: "valid_def d \<Longrightarrow> wf (parent_rel d)"
  using valid_finite by (auto simp: valid_def_def finite_acyclic_wf)

lemma parents_known: "valid_def d \<Longrightarrow> p \<in> set (parents_of d n) \<Longrightarrow> p \<in> set (d_order d)"
  by (auto simp: valid_def_def closed_def_def parent_rel_def)

lemma no_self_parent: "valid_def d \<Longrightarrow> n \<notin> set (parents_of d n)"
  by (auto simp: valid_def_def acyclic_def parent_rel_def)

section \<open>Progress\<close>

lemma some_enqueued:
  assumes v: "valid_def d" and "wf_inv d S" "\<not> meta_done (i_meta S)"
  shows "\<exists>n \<in> set (d_order d). st S n = NodeEnqueued"
proof -
  have "\<not> all_terminal d S" using assms meta_inv_done by (auto simp: wf_inv_def)
  then obtain x where x: "x \<in> set (d_order d)" "\<not> Terminal (st S x)" by (auto simp: all_terminal_def)
  from valid_wf [OF v] show ?thesis using x
  proof (induction x rule: wf_induct_rule)
    case (less x)
    have "st S x = NodePending \<or> st S x = NodeSkipped \<or> entered (st S x)"
      using assms(2) less.prems(1) by (simp add: wf_inv_def dep_inv_def)
    with less.prems(2) consider "st S x = NodeEnqueued" | "st S x = NodePending"
      by (auto simp: entered_def Terminal_def)
    then show ?case
    proof cases
      case 2
      then obtain p where "p \<in> set (parents_of d x)" "\<not> Terminal (st S p)"
        using assms(2) less.prems(1) by (auto simp: wf_inv_def waits_def)
      then show ?thesis using less.IH [of p] parents_known [OF v] by (simp add: parent_rel_def)
    qed (use less.prems(1) in blast)
  qed
qed

section \<open>Advancing\<close>

definition enqueued_at :: "workflow_def \<Rightarrow> inst \<Rightarrow> string set \<Rightarrow> string \<Rightarrow> nodeStateRecord" where
  "enqueued_at d S cs n = (if n \<in> cs \<and> a_ready d S n \<and> st S n = NodePending
     then (i_node S n)\<lparr>ns_State := NodeEnqueued\<rparr> else i_node S n)"

lemma a_ready_enqueued:
  "i_node S' = enqueued_at d S cs \<Longrightarrow> a_ready d S' n = a_ready d S n"
  by (auto simp: a_ready_def enqueued_at_def split: if_splits)

lemma a_promote_frame [simp]:
  "i_meta (a_promote mk d S c) = i_meta S" "i_out (a_promote mk d S c) = i_out S"
  by (simp_all add: a_promote_def a_enqueue_def)

lemma i_node_promote: "i_node (a_promote mk d S c) = enqueued_at d S {c}"
  by (auto simp: a_promote_def a_enqueue_def enqueued_at_def fun_eq_iff)

lemma enqueued_at_comp:
  assumes "i_node S' = enqueued_at d S cs"
  shows "enqueued_at d S' cs' = enqueued_at d S (cs \<union> cs')"
proof (rule ext)
  fix n
  show "enqueued_at d S' cs' n = enqueued_at d S (cs \<union> cs') n"
    using a_ready_enqueued [OF assms, of n] assms
    by (cases "n \<in> cs \<and> a_ready d S n \<and> st S n = NodePending") (auto simp: enqueued_at_def)
qed

lemma a_promote_all:
  "i_node (foldl (a_promote mk d) S cs) = enqueued_at d S (set cs) \<and>
   i_meta (foldl (a_promote mk d) S cs) = i_meta S \<and> i_out (foldl (a_promote mk d) S cs) = i_out S"
proof (induction cs arbitrary: S)
  case Nil
  show ?case by (auto simp: enqueued_at_def fun_eq_iff)
next
  case (Cons c cs)
  show ?case
    using Cons [of "a_promote mk d S c"] enqueued_at_comp [OF i_node_promote [of mk d S c], of "set cs"] by simp
qed

lemma a_advance_node: "i_node (a_advance mk d p S) = enqueued_at d S (set (childrenLocked d p))"
  and a_advance_meta [simp]: "i_meta (a_advance mk d p S) = i_meta S"
  and a_advance_out [simp]: "i_out (a_advance mk d p S) = i_out S"
  using a_promote_all by (simp_all add: a_advance_def)

section \<open>Preservation\<close>

lemma dep_inv_cong: "i_node S' = i_node S \<Longrightarrow> dep_inv d S' = dep_inv d S"
  by (simp add: dep_inv_def good_def bad_def)

lemma waits_cong: "i_node S' = i_node S \<Longrightarrow> waits d S' = waits d S"
  by (simp add: waits_def)

lemma a_finalize_node [simp]: "i_node (a_finalize now d S) = i_node S"
  by (simp add: a_finalize_def)

lemma a_mark_failed_node [simp]: "i_node (a_mark_failed now reason S) = i_node S"
  by (simp add: a_mark_failed_def)

lemma nodes_cong:
  "i_node S' = i_node S \<Longrightarrow> all_terminal d S' = all_terminal d S"
  "i_node S' = i_node S \<Longrightarrow> outcome d S' = outcome d S"
  by (simp_all add: all_terminal_def outcome_def)

lemma a_finalize_alt:
  "a_finalize now d S = (if all_terminal d S \<and> \<not> meta_done (i_meta S)
     then S\<lparr>i_meta := (i_meta S)\<lparr>m_State := outcome d S, m_EndedAt := now\<rparr>\<rparr> else S)"
  unfolding a_finalize_def all_terminal_def outcome_def ..

lemma finalize_inv:
  assumes "dep_inv d S" "waits d S" "m_State (i_meta S) = InstanceRunning"
  shows "wf_inv d (a_finalize now d S)"
proof -
  have "\<not> meta_done (i_meta S)" using assms(3) by (simp add: meta_done_def)
  then have "m_State (i_meta (a_finalize now d S)) = (if all_terminal d S then outcome d S else InstanceRunning)"
    using assms(3) by (simp add: a_finalize_alt)
  then have "meta_inv d (a_finalize now d S)"
    by (simp only: meta_inv_def nodes_cong [OF a_finalize_node])
  then show ?thesis using assms(1,2)
    by (simp only: wf_inv_def dep_inv_cong [OF a_finalize_node] waits_cong [OF a_finalize_node])
qed

lemma limit_pos: "0 < limit d n"
  by (auto simp: limit_def split: option.split)

text \<open>A node that waits on \<open>n\<close> alone is promoted as soon as \<open>n\<close> has ended well.\<close>

lemma advance_inv:
  assumes v: "valid_def d" and i: "dep_inv d S"
    and w: "\<And>m. m \<in> set (d_order d) \<Longrightarrow> st S m = NodePending \<Longrightarrow>
      (\<exists>p \<in> set (parents_of d m). \<not> Terminal (st S p)) \<or> n \<in> set (parents_of d m)"
  shows "dep_inv d (a_advance mk d n S) \<and> waits d (a_advance mk d n S)"
proof
  let ?S = "a_advance mk d n S" and ?cs = "set (childrenLocked d n)"
  have nd: "i_node ?S m = enqueued_at d S ?cs m" for m by (simp add: a_advance_node)
  have gb: "good d ?S p = good d S p" "bad d ?S p = bad d S p" "Terminal (st ?S p) = Terminal (st S p)" for p
    by (auto simp: good_def bad_def Terminal_def nd enqueued_at_def)
  have ready: "\<forall>p \<in> set (parents_of d m). good d S p"
    if "m \<in> set (d_order d)" "a_ready d S m" "st S m = NodePending" for m
  proof
    fix p assume p: "p \<in> set (parents_of d m)"
    have "\<not> bad d S p" using i that p by (auto simp: dep_inv_def)
    with that(2) p show "good d S p" by (auto simp: good_def bad_def a_ready_def)
  qed
  show "dep_inv d ?S"
    unfolding dep_inv_def gb
  proof (intro ballI)
    fix m assume m: "m \<in> set (d_order d)"
    show "(st ?S m = NodePending \<or> st ?S m = NodeSkipped \<or> entered (st ?S m)) \<and>
     (entered (st ?S m) \<longrightarrow> (\<forall>p \<in> set (parents_of d m). good d S p)) \<and>
     ((\<exists>p \<in> set (parents_of d m). bad d S p) \<longrightarrow> st ?S m = NodeSkipped) \<and>
     (st ?S m = NodePending \<longrightarrow> ns_Attempts (i_node ?S m) = 0) \<and>
     (st ?S m = NodeEnqueued \<longrightarrow> 0 \<le> ns_Attempts (i_node ?S m) \<and> ns_Attempts (i_node ?S m) < limit d m)"
    proof (cases "m \<in> ?cs \<and> a_ready d S m \<and> st S m = NodePending")
      case True
      then have g: "\<forall>p \<in> set (parents_of d m). good d S p" using ready [OF m] by simp
      then have "\<not> (\<exists>p \<in> set (parents_of d m). bad d S p)" by (auto simp: good_def bad_def)
      with True g i m limit_pos [of d m] show ?thesis by (simp add: nd enqueued_at_def entered_def dep_inv_def)
    next
      case False
      then have "i_node ?S m = i_node S m" by (auto simp: nd enqueued_at_def)
      with i m show ?thesis by (simp add: dep_inv_def)
    qed
  qed
  show "waits d ?S"
    unfolding waits_def gb
  proof (intro ballI impI)
    fix m assume m: "m \<in> set (d_order d)" and p: "st ?S m = NodePending"
    then have np: "\<not> (m \<in> ?cs \<and> a_ready d S m)" "st S m = NodePending"
      by (auto simp: nd enqueued_at_def split: if_splits)
    show "\<exists>p \<in> set (parents_of d m). \<not> Terminal (st S p)"
    proof (rule ccontr)
      assume t: "\<not> (\<exists>p \<in> set (parents_of d m). \<not> Terminal (st S p))"
      with w [OF m np(2)] have "n \<in> set (parents_of d m)" by blast
      then have "m \<in> ?cs" using v by (simp add: set_childrenLocked valid_def_def parent_rel_def)
      moreover have "\<not> bad d S q" if "q \<in> set (parents_of d m)" for q
        using i m np(2) that by (auto simp: dep_inv_def)
      then have "a_ready d S m" using t by (auto simp: a_ready_def bad_def Terminal_def)
      ultimately show False using np(1) by simp
    qed
  qed
qed

text \<open>An enqueued node that ends well.\<close>

lemma ended_well_inv:
  assumes v: "valid_def d" and i: "wf_inv d S" and n: "n \<in> set (d_order d)" "st S n = NodeEnqueued"
    and r: "ns_State r = NodeCompleted \<or> ns_State r = NodeFailed \<and> policy_of d n = FailContinue"
    and S': "i_node S' = (i_node S)(n := r)"
  shows "dep_inv d (a_advance mk d n S') \<and> waits d (a_advance mk d n S')"
proof (rule advance_inv [OF v])
  have d: "dep_inv d S" and w: "waits d S" using i by (simp_all add: wf_inv_def)
  have good: "good d S' p" if "good d S p" for p using that n(2) r S' by (auto simp: good_def)
  have bad: "bad d S p" if "bad d S' p" for p using that n(2) r S' by (auto simp: bad_def split: if_splits)
  show "dep_inv d S'"
    unfolding dep_inv_def
  proof (intro ballI)
    fix m assume m: "m \<in> set (d_order d)"
    have g: "entered (st S m) \<longrightarrow> (\<forall>p \<in> set (parents_of d m). good d S p)"
      and b: "(\<exists>p \<in> set (parents_of d m). bad d S p) \<longrightarrow> st S m = NodeSkipped" using d m by (simp_all add: dep_inv_def)
    have "\<exists>p \<in> set (parents_of d m). bad d S p" if "\<exists>p \<in> set (parents_of d m). bad d S' p" using that bad by blast
    with b have b': "(\<exists>p \<in> set (parents_of d m). bad d S' p) \<longrightarrow> st S m = NodeSkipped" by blast
    have g': "entered (st S m) \<longrightarrow> (\<forall>p \<in> set (parents_of d m). good d S' p)" using g good by blast
    show "(st S' m = NodePending \<or> st S' m = NodeSkipped \<or> entered (st S' m)) \<and>
     (entered (st S' m) \<longrightarrow> (\<forall>p \<in> set (parents_of d m). good d S' p)) \<and>
     ((\<exists>p \<in> set (parents_of d m). bad d S' p) \<longrightarrow> st S' m = NodeSkipped) \<and>
     (st S' m = NodePending \<longrightarrow> ns_Attempts (i_node S' m) = 0) \<and>
     (st S' m = NodeEnqueued \<longrightarrow> 0 \<le> ns_Attempts (i_node S' m) \<and> ns_Attempts (i_node S' m) < limit d m)"
    proof (cases "m = n")
      case True
      with r S' g' b' n(2) show ?thesis by (auto simp: entered_def)
    next
      case False
      with S' d m g' b' show ?thesis by (simp add: dep_inv_def)
    qed
  qed
  fix m assume m: "m \<in> set (d_order d)" "st S' m = NodePending"
  then have "st S m = NodePending" "m \<noteq> n" using r S' by (auto split: if_splits)
  with w m(1) obtain p where "p \<in> set (parents_of d m)" "\<not> Terminal (st S p)" by (auto simp: waits_def)
  then show "(\<exists>p \<in> set (parents_of d m). \<not> Terminal (st S' p)) \<or> n \<in> set (parents_of d m)"
    using S' by (cases "p = n") auto
qed

lemma good_not_bad: "good d S p \<Longrightarrow> \<not> bad d S p"
  by (auto simp: good_def bad_def)

lemma a_skip_state:
  "st (a_skip now D S) x = (if x \<in> D \<and> \<not> Terminal (st S x) then NodeSkipped else st S x)"
  by (simp add: a_skip_def)

lemma a_skip_attempts [simp]: "ns_Attempts (i_node (a_skip now D S) x) = ns_Attempts (i_node S x)"
  by (simp add: a_skip_def)

lemma a_skip_meta [simp]: "i_meta (a_skip now D S) = i_meta S"
  by (simp add: a_skip_def)

text \<open>After a failure at \<open>n\<close> that is not continued, the nodes of a set \<open>D\<close> that contains all below
  \<open>n\<close> and is closed downwards are skipped.\<close>

lemma skip_inv:
  assumes v: "valid_def d" and i: "dep_inv d S" and n: "n \<in> set (d_order d)" "st S n = NodeEnqueued"
    and r: "ns_State r = NodeFailed" "policy_of d n \<noteq> FailContinue" and S': "i_node S' = (i_node S)(n := r)"
    and D: "\<And>p c. (p, c) \<in> parent_rel d \<Longrightarrow> p = n \<or> p \<in> D \<Longrightarrow> c \<in> D"
  shows "dep_inv d (a_skip now D S')"
  unfolding dep_inv_def
proof (intro ballI)
  let ?S = "a_skip now D S'"
  have s: "st ?S x = (if x = n then NodeFailed else if x \<in> D \<and> \<not> Terminal (st S x) then NodeSkipped else st S x)" for x
    using S' r(1) by (simp add: a_skip_state Terminal_def)
  have good: "good d ?S p" if "good d S p" for p
    using that n(2) by (auto simp: good_def s Terminal_def)
  fix m assume m: "m \<in> set (d_order d)"
  have rel: "(p, m) \<in> parent_rel d" if "p \<in> set (parents_of d m)" for p using that by (simp add: parent_rel_def)
  have g: "entered (st S m) \<Longrightarrow> p \<in> set (parents_of d m) \<Longrightarrow> good d S p"
    and b: "p \<in> set (parents_of d m) \<Longrightarrow> bad d S p \<Longrightarrow> st S m = NodeSkipped" for p
    using i m by (auto simp: dep_inv_def)
  have states: "st S m = NodePending \<or> st S m = NodeSkipped \<or> entered (st S m)"
    "st S m = NodePending \<longrightarrow> ns_Attempts (i_node S m) = 0"
    "st S m = NodeEnqueued \<longrightarrow> 0 \<le> ns_Attempts (i_node S m) \<and> ns_Attempts (i_node S m) < limit d m"
    using i m unfolding dep_inv_def by blast+
  have ent: "entered (st S m)" if "entered (st ?S m)" using that n(2) by (auto simp: s entered_def split: if_splits)
  have "st ?S m = NodeSkipped" if p: "p \<in> set (parents_of d m)" "bad d ?S p" for p
  proof (cases "p = n \<or> p \<in> D")
    case True
    then have mD: "m \<in> D" using D(1) [OF rel [OF p(1)]] by blast
    have "m \<noteq> n"
    proof
      assume "m = n"
      then have "good d S p" using g p(1) n(2) by (simp add: entered_def)
      then show False using p(2) good good_not_bad by blast
    qed
    moreover have "\<not> Terminal (st S m) \<or> st S m = NodeSkipped"
    proof (rule ccontr)
      assume "\<not> ?thesis"
      then have "entered (st S m)" by (auto simp: Terminal_def entered_def)
      then have "good d ?S p" using g p(1) good by blast
      then show False using p(2) good_not_bad by blast
    qed
    ultimately show ?thesis using mD by (auto simp: s)
  next
    case False
    then have "bad d S p" using p(2) by (auto simp: bad_def s)
    then have "st S m = NodeSkipped" using b p(1) by blast
    then show ?thesis using n(2) by (auto simp: s)
  qed
  moreover have "\<forall>p \<in> set (parents_of d m). good d ?S p" if "entered (st ?S m)"
    using g good ent [OF that] by blast
  moreover have "st ?S m = NodePending \<or> st ?S m = NodeSkipped \<or> entered (st ?S m)"
    using states(1) by (auto simp: s entered_def)
  moreover have "st ?S m = NodePending \<longrightarrow> ns_Attempts (i_node ?S m) = 0"
    using states(2) S' by (auto simp: s split: if_splits)
  moreover have "st ?S m = NodeEnqueued \<longrightarrow> 0 \<le> ns_Attempts (i_node ?S m) \<and> ns_Attempts (i_node ?S m) < limit d m"
    using states(3) S' by (auto simp: s split: if_splits)
  ultimately show "(st ?S m = NodePending \<or> st ?S m = NodeSkipped \<or> entered (st ?S m)) \<and>
     (entered (st ?S m) \<longrightarrow> (\<forall>p \<in> set (parents_of d m). good d ?S p)) \<and>
     ((\<exists>p \<in> set (parents_of d m). bad d ?S p) \<longrightarrow> st ?S m = NodeSkipped) \<and>
     (st ?S m = NodePending \<longrightarrow> ns_Attempts (i_node ?S m) = 0) \<and>
     (st ?S m = NodeEnqueued \<longrightarrow> 0 \<le> ns_Attempts (i_node ?S m) \<and> ns_Attempts (i_node ?S m) < limit d m)"
    by blast
qed

lemma policy_inv:
  assumes v: "valid_def d" and i: "wf_inv d S" and n: "n \<in> set (d_order d)" "st S n = NodeEnqueued"
    and m: "m_State (i_meta S) = InstanceRunning"
    and r: "ns_State r = NodeFailed" and S': "i_node S' = (i_node S)(n := r)" "i_meta S' = i_meta S"
  shows "wf_inv d (a_policy mk qt now d n S')"
proof (cases "policy_of d n")
  case FailHaltWorkflow
  let ?S = "a_skip now (set (d_order d)) S'"
  have "dep_inv d ?S"
    by (rule skip_inv [OF v _ n r _ S'(1)])
      (use i FailHaltWorkflow v in \<open>auto simp: wf_inv_def valid_def_def dest: parent_rel_known\<close>)
  moreover have t: "all_terminal d ?S" by (auto simp: all_terminal_def a_skip_state Terminal_def)
  moreover have "outcome d ?S = InstanceFailed"
    using n(1) r S'(1) by (auto simp: outcome_def a_skip_state Terminal_def)
  moreover have "waits d ?S"
    unfolding waits_def
  proof (intro ballI impI)
    fix x assume "x \<in> set (d_order d)" "st ?S x = NodePending"
    with t have "Terminal NodePending" unfolding all_terminal_def by metis
    then show "\<exists>p \<in> set (parents_of d x). \<not> Terminal (st ?S p)" by (simp add: Terminal_def)
  qed
  moreover have "m_State (i_meta (a_mark_failed now reason ?S)) = InstanceFailed" for reason
    using m S'(2) by (simp add: a_mark_failed_def meta_done_def)
  ultimately have "wf_inv d (a_mark_failed now reason ?S)" for reason
    by (simp only: wf_inv_def meta_inv_def dep_inv_cong [OF a_mark_failed_node] waits_cong [OF a_mark_failed_node]
        nodes_cong [OF a_mark_failed_node] if_True simp_thms)
  then show ?thesis using FailHaltWorkflow by (simp add: a_policy_def)
next
  case FailSkipDownstream
  let ?D = "{x. (n, x) \<in> (parent_rel d)\<^sup>+}"
  let ?S = "a_skip now ?D S'"
  have "dep_inv d ?S"
    by (rule skip_inv [OF v _ n r _ S'(1)])
      (use i FailSkipDownstream in \<open>auto simp: wf_inv_def intro: trancl_into_trancl\<close>)
  moreover have "waits d ?S"
    unfolding waits_def
  proof (intro ballI impI)
    fix x assume x: "x \<in> set (d_order d)" "st ?S x = NodePending"
    then have "st S x = NodePending" "x \<notin> ?D" using S'(1) r by (auto simp: a_skip_state Terminal_def split: if_splits)
    with x(1) i obtain p where p: "p \<in> set (parents_of d x)" "\<not> Terminal (st S p)"
      by (auto simp: wf_inv_def waits_def)
    have "(p, x) \<in> parent_rel d" using p(1) by (simp add: parent_rel_def)
    then have "p \<noteq> n" "p \<notin> ?D" using \<open>x \<notin> ?D\<close> by (auto intro: trancl_into_trancl)
    then have "\<not> Terminal (st ?S p)" using p(2) S'(1) by (simp add: a_skip_state)
    with p(1) show "\<exists>p \<in> set (parents_of d x). \<not> Terminal (st ?S p)" by blast
  qed
  ultimately show ?thesis
    using finalize_inv [of d ?S] m S'(2) FailSkipDownstream by (simp add: a_policy_def)
next
  case FailContinue
  have "dep_inv d (a_advance mk d n (set_out n [] S')) \<and> waits d (a_advance mk d n (set_out n [] S'))"
    by (rule ended_well_inv [OF v i n]) (use r FailContinue S'(1) in auto)
  then show ?thesis using finalize_inv m S'(2) FailContinue by (simp add: a_policy_def)
qed

section \<open>One attempt of a node\<close>

text \<open>An attempt of node \<open>n\<close> by task \<open>t\<close>, all of the bridge at once, when the handler returns
  \<open>result\<close>.\<close>

definition a_attempt ::
  "(string \<Rightarrow> node \<Rightarrow> task) \<Rightarrow> (string \<Rightarrow> string) \<Rightarrow> gotime \<Rightarrow> workflow_def \<Rightarrow> task \<Rightarrow> string \<Rightarrow> string + bytes \<Rightarrow> inst \<Rightarrow> inst"
where
  "a_attempt mk qt now d t n result S =
     a_finish mk qt now d t n (started now t (i_node S n)) result (set_node n (started now t (i_node S n)) S)"

text \<open>The task carries the retry limit of the node.\<close>

definition node_limit :: "workflow_def \<Rightarrow> string \<Rightarrow> task \<Rightarrow> bool" where
  "node_limit d n t \<longleftrightarrow> (\<exists>k. t_max_retries t = Some k \<and> limit d n = max 1 (1 + k))"

lemma set_node_twice [simp]: "set_node n r (set_node n r' S) = set_node n r S"
  by (simp add: set_node_def)

lemma dep_inv_retry:
  assumes i: "dep_inv d S" and n: "st S n = NodeEnqueued"
    and r: "ns_State r = NodeEnqueued" "0 \<le> ns_Attempts r" "ns_Attempts r < limit d n"
  shows "dep_inv d (set_node n r S)"
proof -
  have gb: "good d (set_node n r S) p = good d S p" "bad d (set_node n r S) p = bad d S p"
    "st (set_node n r S) p = st S p" for p
    using n r(1) by (auto simp: good_def bad_def)
  have "(st S m = NodePending \<longrightarrow> ns_Attempts (i_node (set_node n r S) m) = 0) \<and>
     (st S m = NodeEnqueued \<longrightarrow> 0 \<le> ns_Attempts (i_node (set_node n r S) m) \<and>
        ns_Attempts (i_node (set_node n r S) m) < limit d m)" if "m \<in> set (d_order d)" for m
    using i n r(2,3) that by (cases "m = n") (simp_all add: dep_inv_def)
  with i show ?thesis unfolding dep_inv_def gb by blast
qed

lemma retry_inv:
  assumes i: "wf_inv d S" and n: "st S n = NodeEnqueued"
    and r: "ns_State r = NodeEnqueued" "0 \<le> ns_Attempts r" "ns_Attempts r < limit d n"
  shows "wf_inv d (set_node n r S)"
proof -
  have s: "st (set_node n r S) m = st S m" for m using n r(1) by simp
  then have "waits d (set_node n r S)" "meta_inv d (set_node n r S)"
    using i unfolding wf_inv_def waits_def meta_inv_def all_terminal_def outcome_def by simp_all
  then show ?thesis using dep_inv_retry [OF _ n r] i by (simp add: wf_inv_def)
qed

lemma a_attempt_inv:
  assumes v: "valid_def d" and i: "wf_inv d S" and n: "n \<in> set (d_order d)" "st S n = NodeEnqueued"
    and m: "m_State (i_meta S) = InstanceRunning" and t: "node_limit d n t"
  shows "wf_inv d (a_attempt mk qt now d t n result S)"
proof (cases result)
  case (Inr out)
  let ?r = "started now t (i_node S n)"
  let ?r2 = "?r\<lparr>ns_State := NodeCompleted, ns_EndedAt := now, ns_LastError := []\<rparr>"
  let ?S = "set_node n ?r2 (set_out n out (set_node n ?r S))"
  have "dep_inv d (a_advance mk d n ?S) \<and> waits d (a_advance mk d n ?S)"
    by (rule ended_well_inv [OF v i n, of ?r2]) simp_all
  then have "wf_inv d (a_finalize now d (a_advance mk d n ?S))" using finalize_inv m by simp
  then show ?thesis using Inr by (simp add: a_attempt_def a_finish_def a_succeed_def)
next
  case (Inl msg)
  let ?r = "(started now t (i_node S n))\<lparr>ns_LastError := msg\<rparr>"
  obtain k where k: "t_max_retries t = Some k" "limit d n = max 1 (1 + k)" using t by (auto simp: node_limit_def)
  have a: "ns_Attempts ?r = ns_Attempts (i_node S n) + 1" "ns_State ?r = NodeEnqueued" by (simp_all add: started_def)
  have a0: "0 \<le> ns_Attempts (i_node S n)" using i n by (simp add: wf_inv_def dep_inv_def)
  show ?thesis
  proof (cases "isFinalAttempt t (ns_Attempts ?r)")
    case True
    let ?r2 = "?r\<lparr>ns_State := NodeFailed, ns_EndedAt := now\<rparr>"
    have "wf_inv d (a_policy mk qt now d n (set_node n ?r2 (set_node n (started now t (i_node S n)) S)))"
      by (rule policy_inv [OF v i n m, of ?r2]) simp_all
    then show ?thesis using Inl True by (simp add: a_attempt_def a_finish_def a_fail_def Let_def)
  next
    case False
    then have "ns_Attempts ?r < limit d n" using k by (simp add: isFinalAttempt_def)
    then have "wf_inv d (set_node n ?r S)" using retry_inv [OF i n(2), of ?r] a a0 by simp
    then show ?thesis using Inl False by (simp add: a_attempt_def a_finish_def a_fail_def Let_def)
  qed
qed

section \<open>Attempts left\<close>

definition budget :: "workflow_def \<Rightarrow> inst \<Rightarrow> string \<Rightarrow> int" where
  "budget d S n = (if st S n = NodePending then limit d n
     else if st S n = NodeEnqueued then limit d n - ns_Attempts (i_node S n) else 0)"

definition attempts_left :: "workflow_def \<Rightarrow> inst \<Rightarrow> int" where
  "attempts_left d S = (\<Sum>n \<in> set (d_order d). budget d S n)"

lemma budget_nonneg: "dep_inv d S \<Longrightarrow> n \<in> set (d_order d) \<Longrightarrow> 0 \<le> budget d S n"
  using limit_pos [of d n] by (fastforce simp: budget_def dep_inv_def)

lemma attempts_left_nonneg: "dep_inv d S \<Longrightarrow> 0 \<le> attempts_left d S"
  unfolding attempts_left_def by (rule sum_nonneg) (rule budget_nonneg)

lemma attempts_left_less:
  assumes "n \<in> set (d_order d)" "budget d S' n < budget d S n"
    "\<And>m. m \<in> set (d_order d) \<Longrightarrow> m \<noteq> n \<Longrightarrow> budget d S' m \<le> budget d S m"
  shows "attempts_left d S' < attempts_left d S"
  unfolding attempts_left_def
  by (rule sum_strict_mono_ex1) (use assms in \<open>auto intro: less_imp_le\<close>)

text \<open>What an attempt may do to a node other than its own: nothing, enqueue it, or skip it.\<close>

definition follows :: "inst \<Rightarrow> inst \<Rightarrow> string \<Rightarrow> bool" where
  "follows S S' m \<longleftrightarrow> i_node S' m = i_node S m \<or> st S' m = NodeSkipped \<or>
     st S m = NodePending \<and> i_node S' m = (i_node S m)\<lparr>ns_State := NodeEnqueued\<rparr>"

lemma follows_budget:
  assumes "dep_inv d S" "m \<in> set (d_order d)" "follows S S' m"
  shows "budget d S' m \<le> budget d S m"
proof -
  have "0 \<le> budget d S m" by (rule budget_nonneg [OF assms(1,2)])
  moreover have "ns_Attempts (i_node S m) = 0" if "st S m = NodePending" using assms(1,2) that by (simp add: dep_inv_def)
  ultimately show ?thesis using assms(3) by (auto simp: follows_def budget_def)
qed

lemma follows_advance: "m \<noteq> n \<Longrightarrow> i_node S' m = i_node S m \<Longrightarrow> follows S (a_finalize now d (a_advance mk d p S')) m"
  by (auto simp: follows_def a_advance_node enqueued_at_def)

lemma follows_policy:
  assumes "m \<noteq> n" "i_node S' m = i_node S m"
  shows "follows S (a_policy mk qt now d n S') m"
  using assms follows_advance [of m n "set_out n [] S'"]
  by (cases "policy_of d n") (auto simp: a_policy_def follows_def a_skip_def)

lemma policy_self: "st S' n = NodeFailed \<Longrightarrow> i_node (a_policy mk qt now d n S') n = i_node S' n"
  by (cases "policy_of d n") (simp_all add: a_policy_def a_skip_def Terminal_def a_advance_node enqueued_at_def)

lemma a_attempt_follows:
  assumes "m \<noteq> n"
  shows "follows S (a_attempt mk qt now d t n result S) m"
proof (cases result)
  case (Inl msg)
  show ?thesis
  proof (cases "isFinalAttempt t (ns_Attempts (started now t (i_node S n)))")
    case True
    then show ?thesis
      using Inl follows_policy [OF assms] assms by (simp add: a_attempt_def a_finish_def a_fail_def Let_def)
  qed (use Inl assms in \<open>simp add: a_attempt_def a_finish_def a_fail_def follows_def\<close>)
next
  case (Inr out)
  then show ?thesis using follows_advance [OF assms] assms by (simp add: a_attempt_def a_finish_def a_succeed_def)
qed

lemma a_attempt_self:
  "Terminal (st (a_attempt mk qt now d t n result S) n) \<or>
   st (a_attempt mk qt now d t n result S) n = NodeEnqueued \<and>
     ns_Attempts (i_node (a_attempt mk qt now d t n result S) n) = ns_Attempts (i_node S n) + 1"
proof (cases result)
  case (Inl msg)
  show ?thesis
  proof (cases "isFinalAttempt t (ns_Attempts (started now t (i_node S n)))")
    case True
    then show ?thesis
      using Inl by (simp add: a_attempt_def a_finish_def a_fail_def Let_def policy_self Terminal_def)
  qed (use Inl in \<open>simp add: a_attempt_def a_finish_def a_fail_def started_def\<close>)
next
  case (Inr out)
  then show ?thesis
    by (simp add: a_attempt_def a_finish_def a_succeed_def a_advance_node enqueued_at_def Terminal_def)
qed

lemma a_attempt_budget:
  assumes "dep_inv d S" "n \<in> set (d_order d)" "st S n = NodeEnqueued"
  shows "attempts_left d (a_attempt mk qt now d t n result S) < attempts_left d S"
proof (rule attempts_left_less [OF assms(2)])
  have "ns_Attempts (i_node S n) < limit d n" using assms by (simp add: dep_inv_def)
  then show "budget d (a_attempt mk qt now d t n result S) n < budget d S n"
    using a_attempt_self [of mk qt now d t n result S] assms(3) by (auto simp: budget_def Terminal_def)
qed (rule follows_budget [OF assms(1) _ a_attempt_follows])

section \<open>Submission\<close>

lemma enqueue_all_nodes:
  "i_node (foldl (\<lambda>S n. a_enqueue mk d n S) S ns) =
     (\<lambda>n. if n \<in> set ns then (i_node S n)\<lparr>ns_State := NodeEnqueued\<rparr> else i_node S n) \<and>
   i_meta (foldl (\<lambda>S n. a_enqueue mk d n S) S ns) = i_meta S"
  by (induction ns arbitrary: S) (auto simp: a_enqueue_def fun_eq_iff)

lemma a_submit_inv:
  assumes "valid_def d"
  shows "wf_inv d (a_submit mk d iid dn now input ts)"
    "m_State (i_meta (a_submit mk d iid dn now input ts)) = InstanceRunning"
    "attempts_left d (a_submit mk d iid dn now input ts) = (\<Sum>n \<in> set (d_order d). limit d n)"
proof -
  let ?S = "a_submit mk d iid dn now input ts"
  have nodes: "i_node ?S n = zero_node (if n \<in> set (roots d) then NodeEnqueued else NodePending)" for n
    using enqueue_all_nodes [of mk d "blank iid dn now input ts" "roots d"]
    by (simp add: a_submit_def blank_def zero_node_def)
  have s: "st ?S n = (if n \<in> set (roots d) then NodeEnqueued else NodePending)" "ns_Attempts (i_node ?S n) = 0" for n
    by (simp_all add: nodes zero_node_def)
  show meta: "m_State (i_meta ?S) = InstanceRunning"
    using enqueue_all_nodes [of mk d "blank iid dn now input ts" "roots d"] by (simp add: a_submit_def blank_def)
  have nt: "\<not> Terminal (st ?S n)" for n by (simp add: s Terminal_def)
  have "\<not> bad d ?S p" for p by (simp add: bad_def s)
  then have "dep_inv d ?S"
    using limit_pos by (auto simp: dep_inv_def s set_roots entered_def)
  moreover have "waits d ?S" using nt by (auto simp: waits_def s set_roots neq_Nil_conv split: if_splits)
  moreover have "meta_inv d ?S" using meta nt assms by (auto simp: meta_inv_def all_terminal_def valid_def_def)
  ultimately show "wf_inv d ?S" by (simp add: wf_inv_def)
  show "attempts_left d ?S = (\<Sum>n \<in> set (d_order d). limit d n)"
    unfolding attempts_left_def by (rule sum.cong) (simp_all add: budget_def s)
qed

end
