(* ===== verification/Workflow_Live.thy ===== *)
theory Workflow_Live imports
  Workflow_Run
  Task_Memory
begin

text \<open>
  Runs of the engine itself, on the memory cache and the memory task store: from a submission on,
  the bridge is run for nodes that are reported as enqueued, in any order. The interpretation of
  \<open>engine_client\<close> carries the invariant of \<open>Workflow_Run\<close> over to the cached records, and the
  properties are stated on what \<open>Submit\<close>, the bridge and \<open>Inspect\<close> return.
\<close>

section \<open>The memory backends\<close>

text \<open>The task system as the engine sees it: the store behind the scheduler (\<^verbatim>\<open>scheduler.go\<close>), the
  identifiers it will draw, the tasks accepted so far, and the types registered on the worker.\<close>

record mem_tasks =
  q_store :: memory_store
  q_ids :: "nat \<Rightarrow> string"
  q_log :: "task list"
  q_types :: "string list"

definition sched_Enqueue :: "gotime \<Rightarrow> mem_tasks \<Rightarrow> task \<Rightarrow> task_error option \<times> mem_tasks" where
  "sched_Enqueue now q t =
     (case Enqueue now now (q_ids q (length (q_log q))) (q_store q) t of
        (Inl err, s) \<Rightarrow> (Some err, q\<lparr>q_store := s\<rparr>)
      | (Inr rec, s) \<Rightarrow> (None, q\<lparr>q_store := s, q_log := q_log q @ [t]\<rparr>))"

definition worker_Register :: "string \<Rightarrow> mem_tasks \<Rightarrow> string option \<times> mem_tasks" where
  "worker_Register typeName q =
     (if typeName = [] then (Some ''typeName must not be empty'', q)
      else if typeName \<in> set (q_types q) then (Some ''already registered'', q)
      else (None, q\<lparr>q_types := q_types q @ [typeName]\<rparr>))"

definition tasks_ok :: "mem_tasks \<Rightarrow> bool" where
  "tasks_ok q \<longleftrightarrow> \<not> s_closed (q_store q) \<and>
     (\<forall>k. s_dedup (q_store q) k \<noteq> None \<longrightarrow> (\<exists>t \<in> set (q_log q). t_unique_key t = k))"

definition memory_api :: "(memory_cache, mem_tasks) engine_api" where
  "memory_api = \<lparr>api_Get = cache_Get, api_Set = cache_Set, api_DeletePrefix = cache_DeletePrefix,
     api_Enqueue = sched_Enqueue, api_Register = worker_Register\<rparr>"

lemma insert_task_frame:
  "s_dedup (snd (insert_task now s t)) = s_dedup s" "s_closed (snd (insert_task now s t)) = s_closed s"
  by (simp_all add: insert_task_def Let_def push_scheduled_def push_pending_def put_record_def put_queue_def queueLocked_def
      split: option.split prod.split)

lemma sched_Enqueue_cases:
  assumes "tasks_ok q"
  obtains (accept) q' where "sched_Enqueue now q t = (None, q')" "q_log q' = q_log q @ [t]" "tasks_ok q'"
  | (reject) q' t' where "sched_Enqueue now q t = (Some ErrUniqueViolation, q')" "q_log q' = q_log q" "tasks_ok q'"
      "t' \<in> set (q_log q)" "t_unique_key t' = t_unique_key t"
proof -
  let ?s = "q_store q" and ?t = "fill_task (q_ids q (length (q_log q))) t"
  let ?s1 = "evictDedupExpiredLocked now ?s"
  let ?ins = "\<lambda>s. q\<lparr>q_store := snd (insert_task now s ?t), q_log := q_log q @ [t]\<rparr>"
  have opn: "\<not> s_closed ?s" and dd: "\<And>k. s_dedup ?s k \<noteq> None \<Longrightarrow> \<exists>t \<in> set (q_log q). t_unique_key t = k"
    using assms by (auto simp: tasks_ok_def)
  have sub: "s_dedup ?s k \<noteq> None" if "s_dedup ?s1 k \<noteq> None" for k
    using that by (auto simp: evictDedupExpiredLocked_def split: option.splits)
  have cl: "s_closed ?s1 = s_closed ?s" by (simp add: evictDedupExpiredLocked_def)
  consider (direct) "\<not> (t_unique_key t \<noteq> [] \<and> s_dedup_window ?s > 0)"
    | (dup) e where "t_unique_key t \<noteq> [] \<and> s_dedup_window ?s > 0" "s_dedup ?s1 (t_unique_key t) = Some e"
    | (new) "t_unique_key t \<noteq> [] \<and> s_dedup_window ?s > 0" "s_dedup ?s1 (t_unique_key t) = None"
    by fastforce
  then show thesis
  proof cases
    case direct
    then have "Enqueue now now (q_ids q (length (q_log q))) ?s t = (Inr (fst (insert_task now ?s ?t)), snd (insert_task now ?s ?t))"
      using opn by (auto simp: Enqueue_def split_beta)
    then have "sched_Enqueue now q t = (None, ?ins ?s)" by (simp add: sched_Enqueue_def)
    then show ?thesis by (rule accept) (use opn dd in \<open>auto simp: tasks_ok_def insert_task_frame\<close>)
  next
    case (dup e)
    obtain t' where "t' \<in> set (q_log q)" "t_unique_key t' = t_unique_key t" using dd sub dup(2) by blast
    moreover have "sched_Enqueue now q t = (Some ErrUniqueViolation, q\<lparr>q_store := ?s1\<rparr>)"
      using dup opn by (simp add: sched_Enqueue_def Enqueue_def Let_def)
    moreover have "tasks_ok (q\<lparr>q_store := ?s1\<rparr>)" using opn cl sub dd by (simp add: tasks_ok_def)
    ultimately show ?thesis using reject by auto
  next
    case new
    let ?s2 = "?s1\<lparr>s_dedup := (s_dedup ?s1)(t_unique_key t \<mapsto> now + s_dedup_window ?s1)\<rparr>"
    have "sched_Enqueue now q t = (None, ?ins ?s2)"
      using new opn by (simp add: sched_Enqueue_def Enqueue_def Let_def split: prod.split)
    moreover have "tasks_ok (?ins ?s2)"
      using opn cl sub dd by (auto simp: tasks_ok_def insert_task_frame)
    ultimately show ?thesis using accept by auto
  qed
qed

interpretation memq: task_queue sched_Enqueue q_log tasks_ok
proof unfold_locales
  fix q now t err assume q: "tasks_ok q"
  show "tasks_ok (snd (sched_Enqueue now q t))" using q by (cases rule: sched_Enqueue_cases [where now = now and t = t]) auto
  show "q_log (snd (sched_Enqueue now q t)) = q_log q @ [t]" if "fst (sched_Enqueue now q t) = None"
    using q by (cases rule: sched_Enqueue_cases [where now = now and t = t]) (use that in auto)
  show "q_log (snd (sched_Enqueue now q t)) = q_log q \<and> err = ErrUniqueViolation \<and>
      (\<exists>t' \<in> set (q_log q). t_unique_key t' = t_unique_key t)" if "fst (sched_Enqueue now q t) = Some err"
    using q by (cases rule: sched_Enqueue_cases [where now = now and t = t]) (use that in auto)
qed

section \<open>Runs\<close>

definition node_of :: "workflow_def \<Rightarrow> string \<Rightarrow> node" where
  "node_of d n = the (map_of (d_nodes d) n)"

text \<open>The worker runs the bridge on the task of node \<open>n\<close>, which the store gave the identifier \<open>tid\<close>.\<close>

definition run_node ::
  "('c, 'q) engine \<Rightarrow> gotime \<Rightarrow> workflow_def \<Rightarrow> string \<Rightarrow> string \<Rightarrow> string \<Rightarrow> ('c, 'q) world \<Rightarrow> ('c, 'q) world"
where
  "run_node E now d iid tid n w =
     snd (bridge E now (n_taskType (node_of d n)) ((node_task E iid n (node_of d n))\<lparr>t_id := tid\<rparr>) w)"

definition reported_state :: "('c, 'q) engine \<Rightarrow> gotime \<Rightarrow> string \<Rightarrow> string \<Rightarrow> ('c, 'q) world \<Rightarrow> NodeState option" where
  "reported_state E now iid n w = (case fst (loadNodeState E now iid n w) of Inl err \<Rightarrow> None | Inr r \<Rightarrow> Some (ns_State r))"

text \<open>A run: each event is a clock reading, a node that the engine reports as enqueued at that time,
  and the identifier of its task; the clock does not go back and stays below the horizon.\<close>

fun legal_run ::
  "('c, 'q) engine \<Rightarrow> workflow_def \<Rightarrow> string \<Rightarrow> gotime \<Rightarrow> gotime \<Rightarrow> (gotime \<times> string \<times> string) list \<Rightarrow> ('c, 'q) world \<Rightarrow> bool"
where
  "legal_run E d iid t1 now [] w = True"
| "legal_run E d iid t1 now ((t, n, tid) # evs) w =
     (now \<le> t \<and> t \<le> t1 \<and> n \<in> set (d_order d) \<and> reported_state E t iid n w = Some NodeEnqueued \<and>
      legal_run E d iid t1 t evs (run_node E t d iid tid n w))"

fun exec_run ::
  "('c, 'q) engine \<Rightarrow> workflow_def \<Rightarrow> string \<Rightarrow> (gotime \<times> string \<times> string) list \<Rightarrow> ('c, 'q) world \<Rightarrow> ('c, 'q) world"
where
  "exec_run E d iid [] w = w"
| "exec_run E d iid ((t, n, tid) # evs) w = exec_run E d iid evs (run_node E t d iid tid n w)"

fun last_time :: "gotime \<Rightarrow> (gotime \<times> string \<times> string) list \<Rightarrow> gotime" where
  "last_time now [] = now"
| "last_time now ((t, n, tid) # evs) = last_time t evs"

lemma a_policy_definition [simp]: "m_Definition (i_meta (a_policy mk qt now d n S)) = m_Definition (i_meta S)"
  by (cases "policy_of d n") (simp_all add: a_policy_def a_finalize_def a_mark_failed_def a_skip_def)

lemma a_attempt_definition [simp]:
  "m_Definition (i_meta (a_attempt mk qt now d t n result S)) = m_Definition (i_meta S)"
  by (cases result) (simp_all add: a_attempt_def a_finish_def a_fail_def a_succeed_def Let_def a_finalize_def)

lemma node_limit_task: "map_of (d_nodes d) n = Some nd \<Longrightarrow> node_limit d n ((node_task E iid n nd)\<lparr>t_id := tid\<rparr>)"
  by (auto simp: node_limit_def node_task_def limit_def split: option.split)

lemma tags_node_task [simp]:
  "tag ((node_task E iid n nd)\<lparr>t_id := tid\<rparr>) ''wf.instance'' = iid" "tag ((node_task E iid n nd)\<lparr>t_id := tid\<rparr>) ''wf.node'' = n"
  by (simp_all add: tag_def node_task_def)

lemma enqueued_running:
  assumes "wf_inv d S" "n \<in> set (d_order d)" "st S n = NodeEnqueued"
  shows "m_State (i_meta S) = InstanceRunning \<and> \<not> meta_done (i_meta S)"
proof -
  have "\<not> all_terminal d S" using assms(2,3) by (auto simp: all_terminal_def Terminal_def intro!: bexI [of _ n])
  then show ?thesis using assms(1) by (simp add: wf_inv_def meta_inv_def meta_done_def)
qed

context engine_client
begin

text \<open>Everything the run keeps.\<close>

definition running :: "string \<Rightarrow> workflow_def \<Rightarrow> gotime \<Rightarrow> gotime \<Rightarrow> ('c, 'q) world \<Rightarrow> inst \<Rightarrow> bool" where
  "running iid d t1 now w S \<longleftrightarrow> rep iid t1 now w S \<and> once iid S \<and> wf_inv d S \<and> valid_def d \<and> iid \<noteq> [] \<and>
     e_definitions E (m_Definition (i_meta S)) = Some d \<and>
     (\<forall>n \<in> set (d_order d). e_handlers E (n_taskType (node_of d n)) \<noteq> None)"

lemma reported_state_rep: "rep iid t1 now w S \<Longrightarrow> reported_state E now iid n w = Some (st S n)"
  using loadNodeState_rep [of iid t1 now w S n] by (auto simp: reported_state_def)

lemma run_node_running:
  assumes "running iid d t1 now w S" "n \<in> set (d_order d)" "st S n = NodeEnqueued"
  shows "\<exists>S'. running iid d t1 now (run_node E now d iid tid n w) S' \<and> attempts_left d S' < attempts_left d S"
proof -
  have r: "rep iid t1 now w S" "once iid S" "wf_inv d S" "valid_def d" and inv: "def_inv d"
    using assms(1) by (auto simp: running_def valid_def_def)
  obtain nd where nd: "map_of (d_nodes d) n = Some nd" using def_inv_known [OF inv, of n] assms(2) by auto
  let ?t = "(node_task E iid n nd)\<lparr>t_id := tid\<rparr>"
  have tf: "task_for iid d S (n_taskType nd) ?t n"
    using assms(1,2) inv nd by (auto simp: task_for_def running_def node_of_def)
  have m: "m_State (i_meta S) = InstanceRunning" "\<not> meta_done (i_meta S)"
    using enqueued_running [OF r(3) assms(2,3)] by simp_all
  let ?r = "started now ?t (i_node S n)"
  obtain ps w1 where w1: "bridge_start E now (n_taskType nd) ?t w =
      (Inr \<lparr>b_instance = iid, b_node = n, b_def = d, b_state = ?r, b_parents = ps,
            b_handler = the (e_handlers E (n_taskType nd))\<rparr>, w1)" "rep iid t1 now w1 (set_node n ?r S)"
    using bridge_start_rep [OF r(1) tf m(2)] by blast
  have s: "ns_State ?r = NodeEnqueued" by (simp add: started_def)
  have o: "once iid (set_node n ?r S)" using r(2) s by (simp add: once_set_node)
  let ?b = "\<lparr>b_instance = iid, b_node = n, b_def = d, b_state = ?r, b_parents = ps,
            b_handler = the (e_handlers E (n_taskType nd))\<rparr>"
  let ?res = "the (e_handlers E (n_taskType nd)) ps"
  let ?S = "a_attempt (mk iid) (quote_text (e_codec E)) now d ?t n ?res S"
  obtain w2 where w2: "snd (bridge_finish E now ?t ?b ?res w1) = w2" "rep iid t1 now w2 ?S" "once iid ?S"
    using bridge_finish_rep [OF w1(2) o inv assms(2), of ?b ?t ?res] s by (auto simp: a_attempt_def)
  have "wf_inv d ?S" by (rule a_attempt_inv [OF r(4,3) assms(2,3) m(1) node_limit_task [OF nd]])
  moreover have "attempts_left d ?S < attempts_left d S"
    by (rule a_attempt_budget [OF _ assms(2,3)]) (use r(3) in \<open>simp add: wf_inv_def\<close>)
  moreover have "run_node E now d iid tid n w = w2"
    using w1(1) w2(1) by (simp add: run_node_def node_of_def nd bridge_def)
  ultimately show ?thesis using w2(2,3) assms(1) unfolding running_def by (metis a_attempt_definition)
qed

lemma exec_run_running:
  assumes "running iid d t1 now w S" "legal_run E d iid t1 now evs w"
  shows "\<exists>S'. running iid d t1 (last_time now evs) (exec_run E d iid evs w) S' \<and>
    attempts_left d S' + int (length evs) \<le> attempts_left d S"
  using assms
proof (induction evs arbitrary: now w S)
  case (Cons ev evs)
  obtain t n tid where ev: "ev = (t, n, tid)" by (cases ev)
  with Cons.prems have l: "now \<le> t" "t \<le> t1" "n \<in> set (d_order d)" "reported_state E t iid n w = Some NodeEnqueued"
    "legal_run E d iid t1 t evs (run_node E t d iid tid n w)" by simp_all
  have t: "running iid d t1 t w S" using Cons.prems(1) l(1,2) rep_later by (auto simp: running_def)
  then have "st S n = NodeEnqueued" using reported_state_rep [of iid t1 t w S n] l(4) by (simp add: running_def)
  from run_node_running [OF t l(3) this, of tid] obtain S1 where
    S1: "running iid d t1 t (run_node E t d iid tid n w) S1" "attempts_left d S1 < attempts_left d S" by blast
  from Cons.IH [OF S1(1) l(5)] S1(2) show ?case by (force simp: ev)
qed auto


lemma Submit_running:
  assumes "unused iid t1 now w" "\<not> e_closed E" "e_definitions E dn = Some d" "valid_def d" "rb \<noteq> []"
    "iid = hex_EncodeToString rb" "\<forall>n \<in> set (d_order d). e_handlers E (n_taskType (node_of d n)) \<noteq> None"
  shows "\<exists>w' S. Submit E now (Some rb) dn input w = ((iid, None), w') \<and> running iid d t1 now w' S \<and>
    attempts_left d S = (\<Sum>n \<in> set (d_order d). limit d n)"
proof -
  let ?S = "a_submit (mk iid) d iid dn now input (accepted (w_queue w))"
  have inv: "def_inv d" using assms(4) by (simp add: valid_def_def)
  obtain w' where "Submit E now (Some rb) dn input w = ((iid, None), w')" "rep iid t1 now w' ?S" "once iid ?S"
    using Submit_rep [OF assms(1-3) inv, of "Some rb" rb input] assms(6) by auto
  moreover have "iid \<noteq> []" using assms(5,6) length_hex [of rb] by (cases rb) (auto simp del: length_hex)
  moreover have "m_Definition (i_meta ?S) = dn"
    using enqueue_all_nodes [of "mk iid" d "blank iid dn now input (accepted (w_queue w))" "roots d"]
    by (simp add: a_submit_def blank_def)
  ultimately show ?thesis using a_submit_inv [OF assms(4)] assms(3,4,7) unfolding running_def by metis
qed

text \<open>What a reader sees of a running instance.\<close>

lemma running_Inspect:
  assumes "running iid d t1 now w S"
  shows "\<exists>info. fst (wf_Inspect E now iid w) = Inr info \<and> ii_State info = m_State (i_meta S) \<and>
    (\<forall>n \<in> set (d_order d). map_of (ii_Nodes info) n = Some (i_node S n))"
proof -
  have "rep iid t1 now w S" "e_definitions E (m_Definition (i_meta S)) = Some d"
    using assms by (simp_all add: running_def)
  from wf_Inspect_rep [OF this] show ?thesis by auto
qed

end

interpretation memwf: engine_client cache_Get cache_Set cache_Delete cache_DeletePrefix cache_look
  "\<lambda>c. cache_ok c \<and> c_max_bytes c \<le> 0" sched_Enqueue q_log tasks_ok "E\<lparr>e_api := memory_api\<rparr>" for E
  by unfold_locales (simp_all add: memory_api_def)


section \<open>Properties of a run\<close>

text \<open>The engine on the memory backends with a registered, valid definition and a handler for every
  node, a cache without a byte limit, and an identifier that is not in use; up to \<open>t1\<close> nothing the
  engine writes expires.\<close>

definition ready_to_submit ::
  "(memory_cache, mem_tasks) engine \<Rightarrow> string \<Rightarrow> workflow_def \<Rightarrow> string \<Rightarrow> gotime \<Rightarrow> gotime \<Rightarrow> (memory_cache, mem_tasks) world \<Rightarrow> bool"
where
  "ready_to_submit E dn d iid t1 now w \<longleftrightarrow>
     e_api E = memory_api \<and> codec_rt (e_codec E) \<and> \<not> e_closed E \<and> e_definitions E dn = Some d \<and>
     def_inv d \<and> Validate d = None \<and> (\<forall>n \<in> set (d_order d). e_handlers E (n_taskType (node_of d n)) \<noteq> None) \<and>
     0 \<le> now \<and> now \<le> t1 \<and> (0 < e_InstanceTTL E \<longrightarrow> t1 \<le> now + e_InstanceTTL E) \<and>
     cache_ok (w_cache w) \<and> c_max_bytes (w_cache w) \<le> 0 \<and> tasks_ok (w_queue w) \<and>
     (\<forall>n. fire_key iid n \<notin> t_unique_key ` set (q_log (w_queue w))) \<and>
     (\<forall>t n. now \<le> t \<longrightarrow> t \<le> t1 \<longrightarrow> cache_look (w_cache w) t (nodeStateKey (e_KeyPrefix E) iid n) = None \<and>
        cache_look (w_cache w) t (nodeOutputKey (e_KeyPrefix E) iid n) = None)"

lemma Validate_valid_def: "def_inv d \<Longrightarrow> Validate d = None \<Longrightarrow> valid_def d"
  using Validate_spec [of d] by (simp add: valid_def_def)

lemma submitted_run:
  assumes "ready_to_submit E dn d iid t1 now w" "iid = hex_EncodeToString rb" "rb \<noteq> []"
  shows "\<exists>w0. Submit E now (Some rb) dn input w = ((iid, None), w0) \<and>
    (\<forall>evs. legal_run E d iid t1 now evs w0 \<longrightarrow>
      (\<exists>S. memwf.running E iid d t1 (last_time now evs) (exec_run E d iid evs w0) S \<and>
           attempts_left d S + int (length evs) \<le> (\<Sum>n \<in> set (d_order d). limit d n)))"
proof -
  have E: "E\<lparr>e_api := memory_api\<rparr> = E" using assms(1) by (simp add: ready_to_submit_def)
  have v: "valid_def d" using Validate_valid_def assms(1) by (simp add: ready_to_submit_def)
  have "memwf.unused E iid t1 now w" using assms(1) by (simp add: memwf.unused_def ready_to_submit_def)
  then obtain w0 S0 where S0: "Submit E now (Some rb) dn input w = ((iid, None), w0)" "memwf.running E iid d t1 now w0 S0"
      "attempts_left d S0 = (\<Sum>n \<in> set (d_order d). limit d n)"
    using memwf.Submit_running [of E iid t1 now w dn d rb input] v assms unfolding E
    by (auto simp: ready_to_submit_def)
  have "\<exists>S. memwf.running E iid d t1 (last_time now evs) (exec_run E d iid evs w0) S \<and>
      attempts_left d S + int (length evs) \<le> (\<Sum>n \<in> set (d_order d). limit d n)" if "legal_run E d iid t1 now evs w0" for evs
    using memwf.exec_run_running [of E iid d t1 now w0 S0 evs] S0(2,3) that unfolding E by simp
  with S0(1) show ?thesis by blast
qed

definition info_state :: "InstanceInfo \<Rightarrow> string \<Rightarrow> NodeState option" where
  "info_state info n = map_option ns_State (map_of (ii_Nodes info) n)"



lemma a_succeed_enqueues:
  assumes "n \<in> set (parents_of d c)" "c \<in> set (d_order d)" "def_inv d" "c \<noteq> n" "st S c = NodePending"
    "\<forall>p \<in> set (parents_of d c). p = n \<or> st S p = NodeCompleted"
  shows "st (a_succeed mk now d n r out S) c = NodeEnqueued"
proof -
  let ?S = "set_node n (r\<lparr>ns_State := NodeCompleted, ns_EndedAt := now, ns_LastError := []\<rparr>) (set_out n out S)"
  have "a_ready d ?S c" using assms(6) by (auto simp: a_ready_def)
  moreover have "c \<in> set (childrenLocked d n)" using assms(1-3) by (simp add: set_childrenLocked parent_rel_def)
  moreover have "st ?S c = NodePending" using assms(4,5) by simp
  ultimately show ?thesis by (simp add: a_succeed_def a_advance_node enqueued_at_def)
qed

text \<open>C23: Cancelling does not stop the successors of a node that is being handled. If an instance is
  cancelled while the handler of \<open>n\<close> runs and the handler then succeeds, a pending child of \<open>n\<close>
  whose other parents have completed is enqueued all the same, in a cancelled instance.\<close>

theorem cancelled_still_enqueues:
  assumes "ready_to_submit E dn d iid t1 now w" "iid = hex_EncodeToString rb" "rb \<noteq> []"
    "Submit E now (Some rb) dn input w = (res, w0)" "legal_run E d iid t1 now evs w0"
    "t = last_time now evs" "wr = exec_run E d iid evs w0"
    "n \<in> set (d_order d)" "reported_state E t iid n wr = Some NodeEnqueued"
    "tk = (node_task E iid n (node_of d n))\<lparr>t_id := tid\<rparr>"
    "bridge_start E t (n_taskType (node_of d n)) tk wr = (Inr b, w1)"
    "wf_Cancel E t iid w1 = (cres, w2)" "bridge_finish E t tk b (Inr out) w2 = (fres, w3)"
    "c \<in> set (d_order d)" "n \<in> set (parents_of d c)" "reported_state E t iid c wr = Some NodePending"
    "\<forall>p \<in> set (parents_of d c). p = n \<or> reported_state E t iid p wr = Some NodeCompleted"
  shows "reported_state E t iid c w3 = Some NodeEnqueued \<and>
    (\<exists>info. fst (wf_Inspect E t iid w3) = Inr info \<and> ii_State info = InstanceCancelled)"
proof -
  have E: "E\<lparr>e_api := memory_api\<rparr> = E" using assms(1) by (simp add: ready_to_submit_def)
  note rs = memwf.reported_state_rep [of E]
  from submitted_run [OF assms(1-3), of input] assms(4-7) obtain S where S: "memwf.running E iid d t1 t wr S" by auto
  then have rep: "memwf.rep E iid t1 t wr S" and v: "valid_def d" and i: "wf_inv d S" and o: "memwf.once iid S"
    and dn: "e_definitions E (m_Definition (i_meta S)) = Some d" by (simp_all add: memwf.running_def)
  have inv: "def_inv d" using v by (simp add: valid_def_def)
  have st: "st S n = NodeEnqueued" "st S c = NodePending" "\<forall>p \<in> set (parents_of d c). p = n \<or> st S p = NodeCompleted"
    using rs [OF rep] assms(9,16,17) unfolding E by auto
  have nt: "\<not> meta_done (i_meta S)" using enqueued_running [OF i assms(8) st(1)] by simp
  have "memwf.task_for E iid d S (n_taskType (node_of d n)) tk n"
    using S assms(8) inv by (simp add: memwf.task_for_def memwf.running_def assms(10))
  note start = memwf.bridge_start_rep [OF rep this nt]
  have b: "b_instance b = iid" "b_node b = n" "b_def b = d" "b_state b = started t tk (i_node S n)"
    and w1: "memwf.rep E iid t1 t w1 (set_node n (b_state b) S)"
    using start assms(11) unfolding E by auto
  have s: "ns_State (b_state b) = NodeEnqueued" by (simp add: b started_def)
  let ?S = "(set_node n (b_state b) S)\<lparr>i_meta := (i_meta S)\<lparr>m_State := InstanceCancelled, m_EndedAt := t\<rparr>\<rparr>"
  have w2: "memwf.rep E iid t1 t w2 ?S"
    using memwf.wf_Cancel_rep [OF w1] nt assms(12) unfolding E by simp
  have "memwf.once iid (set_node n (b_state b) S)" using memwf.once_set_node [OF o] s by simp
  then have o2: "memwf.once iid ?S" by (simp add: memwf.once_def memwf.fresh_def)
  let ?F = "a_succeed (node_task E iid) t d n (b_state b) out ?S"
  have w3: "memwf.rep E iid t1 t w3 ?F"
    using memwf.bridge_finish_rep [OF w2 o2 inv assms(8) b(1-3) s, of tk "Inr out"] assms(13)
    unfolding E by (auto simp: a_finish_def)
  have cn: "c \<noteq> n" using assms(15) no_self_parent [OF v] by auto
  have "st ?F c = NodeEnqueued"
    by (rule a_succeed_enqueues [OF assms(15,14) inv cn]) (use st cn in auto)
  moreover have m: "m_State (i_meta ?F) = InstanceCancelled" "m_Definition (i_meta ?F) = m_Definition (i_meta S)"
    by (simp_all add: a_succeed_def a_finalize_def meta_done_def)
  ultimately show ?thesis using rs [OF w3] memwf.wf_Inspect_rep [OF w3, of d] dn unfolding E by auto
qed

section \<open>A concrete engine\<close>

text \<open>A codec that satisfies the law: fields as tokens ended by a colon, texts in hexadecimal, numbers
  in unary.\<close>

fun split_sep :: "string \<Rightarrow> string \<Rightarrow> string list" where
  "split_sep acc [] = []"
| "split_sep acc (c # cs) = (if c = CHR '':'' then rev acc # split_sep [] cs else split_sep (c # acc) cs)"

definition join_sep :: "string list \<Rightarrow> string" where
  "join_sep toks = concat (map (\<lambda>t. t @ '':'') toks)"

lemma split_token: "CHR '':'' \<notin> set t \<Longrightarrow> split_sep acc (t @ CHR '':'' # rest) = (rev acc @ t) # split_sep [] rest"
  by (induction t arbitrary: acc) auto

lemma split_join: "\<forall>t \<in> set toks. CHR '':'' \<notin> set t \<Longrightarrow> split_sep [] (join_sep toks) = toks"
  by (induction toks) (simp_all add: join_sep_def split_token)

definition tok_int :: "int \<Rightarrow> string" where
  "tok_int i = (if i < 0 then CHR ''-'' else CHR ''+'') # replicate (nat \<bar>i\<bar>) CHR ''x''"

definition int_tok :: "string \<Rightarrow> int" where
  "int_tok t = (if hd t = CHR ''-'' then - int (length t - 1) else int (length t - 1))"

lemma int_tok [simp]: "int_tok (tok_int i) = i"
  by (simp add: tok_int_def int_tok_def)

lemma tok_int_sep [simp]: "CHR '':'' \<notin> set (tok_int i)"
  by (simp add: tok_int_def)

abbreviation (input) hexs :: "string \<Rightarrow> string" where "hexs \<equiv> hex_EncodeToString"

fun instance_code :: "InstanceState \<Rightarrow> int \<times> string" where
  "instance_code InstancePending = (0, [])" | "instance_code InstanceRunning = (1, [])"
| "instance_code InstanceCompleted = (2, [])" | "instance_code InstanceFailed = (3, [])"
| "instance_code InstanceCancelled = (4, [])" | "instance_code (InstanceOther s) = (5, s)"

definition code_instance :: "int \<Rightarrow> string \<Rightarrow> InstanceState" where
  "code_instance k s = (if k = 0 then InstancePending else if k = 1 then InstanceRunning
     else if k = 2 then InstanceCompleted else if k = 3 then InstanceFailed
     else if k = 4 then InstanceCancelled else InstanceOther s)"

fun node_code :: "NodeState \<Rightarrow> int \<times> string" where
  "node_code NodePending = (0, [])" | "node_code NodeEnqueued = (1, [])" | "node_code NodeCompleted = (2, [])"
| "node_code NodeFailed = (3, [])" | "node_code NodeSkipped = (4, [])" | "node_code (NodeOther s) = (5, s)"

definition code_node :: "int \<Rightarrow> string \<Rightarrow> NodeState" where
  "code_node k s = (if k = 0 then NodePending else if k = 1 then NodeEnqueued else if k = 2 then NodeCompleted
     else if k = 3 then NodeFailed else if k = 4 then NodeSkipped else NodeOther s)"

lemma code_states [simp]:
  "code_instance (fst (instance_code s)) (snd (instance_code s)) = s"
  "code_node (fst (node_code n)) (snd (node_code n)) = n"
  by (cases s; simp add: code_instance_def) (cases n; simp add: code_node_def)

fun pairs_of :: "string list \<Rightarrow> (string \<times> string) list" where
  "pairs_of (a # b # rest) = (hex_decode a, hex_decode b) # pairs_of rest"
| "pairs_of _ = []"

definition meta_tokens :: "instanceMeta \<Rightarrow> string list" where
  "meta_tokens m = [hexs (m_ID m), hexs (m_Definition m), tok_int (fst (instance_code (m_State m))),
     hexs (snd (instance_code (m_State m))), tok_int (m_StartedAt m), tok_int (m_EndedAt m)] @
     concat (map (\<lambda>(a, b). [hexs a, hexs b]) (m_Tags m))"

fun tokens_meta :: "string list \<Rightarrow> instanceMeta option" where
  "tokens_meta (a # b # c # e # f # g # tags) =
     Some \<lparr>m_ID = hex_decode a, m_Definition = hex_decode b, m_State = code_instance (int_tok c) (hex_decode e),
           m_StartedAt = int_tok f, m_EndedAt = int_tok g, m_Tags = pairs_of tags\<rparr>"
| "tokens_meta _ = None"

definition node_tokens :: "nodeStateRecord \<Rightarrow> string list" where
  "node_tokens n = [tok_int (fst (node_code (ns_State n))), hexs (snd (node_code (ns_State n))), hexs (ns_TaskID n),
     tok_int (ns_Attempts n), tok_int (ns_StartedAt n), tok_int (ns_EndedAt n), hexs (ns_LastError n)]"

fun tokens_node :: "string list \<Rightarrow> nodeStateRecord option" where
  "tokens_node [a, b, c, e, f, g, h] =
     Some \<lparr>ns_State = code_node (int_tok a) (hex_decode b), ns_TaskID = hex_decode c, ns_Attempts = int_tok e,
           ns_StartedAt = int_tok f, ns_EndedAt = int_tok g, ns_LastError = hex_decode h\<rparr>"
| "tokens_node _ = None"

definition sample_wf_codec :: wf_codec where
  "sample_wf_codec = \<lparr>marshal_meta = (\<lambda>m. Some (join_sep (meta_tokens m))), unmarshal_meta = (\<lambda>b. tokens_meta (split_sep [] b)),
     marshal_node = (\<lambda>n. Some (join_sep (node_tokens n))), unmarshal_node = (\<lambda>b. tokens_node (split_sep [] b)),
     error_text = (\<lambda>e. ''error''), quote_text = (\<lambda>s. s)\<rparr>"

lemma sample_wf_codec_rt: "codec_rt sample_wf_codec"
proof -
  have p: "pairs_of (concat (map (\<lambda>(a, b). [hexs a, hexs b]) ts)) = ts" for ts
    by (induction ts) auto
  have m: "split_sep [] (join_sep (meta_tokens m)) = meta_tokens m" for m
    by (rule split_join) (auto simp: meta_tokens_def hex_no_sep)
  have n: "split_sep [] (join_sep (node_tokens n)) = node_tokens n" for n
    by (rule split_join) (auto simp: node_tokens_def hex_no_sep)
  have "tokens_meta (meta_tokens m) = Some m" for m by (simp add: meta_tokens_def p)
  moreover have "tokens_node (node_tokens n) = Some n" for n by (simp add: node_tokens_def)
  ultimately show ?thesis by (simp add: codec_rt_def sample_wf_codec_def m n)
qed

definition chain :: workflow_def where
  "chain = build_def [(''a'', [OfType ''t'']), (''b'', [OfType ''u'', DependsOnByName [''a'']])]"

lemma def_inv_chain: "def_inv chain"
  by (simp add: chain_def def_inv_build)

definition sample_handlers :: "string \<rightharpoonup> handler" where
  "sample_handlers = [''t'' \<mapsto> (\<lambda>ps. Inr (concat (map snd ps))), ''u'' \<mapsto> (\<lambda>ps. Inl ''boom'')]"

definition sample_engine :: "(memory_cache, mem_tasks) engine" where
  "sample_engine = \<lparr>e_api = memory_api, e_codec = sample_wf_codec, e_KeyPrefix = ''wf:'', e_DefaultQueue = ''default'',
     e_InstanceTTL = 24 * hour, e_OnError = True, e_definitions = [''w'' \<mapsto> chain],
     e_handlers = sample_handlers, e_registered = {}, e_closed = False\<rparr>"

definition sample_world :: "(memory_cache, mem_tasks) world" where
  "sample_world = \<lparr>w_cache = NewMemoryCache 0,
     w_queue = \<lparr>q_store = NewMemoryStore 60, q_ids = (\<lambda>k. replicate k CHR ''i''), q_log = [], q_types = []\<rparr>,
     w_reported = []\<rparr>"

definition sample_submitted :: "(memory_cache, mem_tasks) world" where
  "sample_submitted = snd (Submit sample_engine 1 (Some ''A'') ''w'' (Some ''in'') sample_world)"

definition sample_events :: "(gotime \<times> string \<times> string) list" where
  "sample_events = [(2, ''a'', ''1'')]"

lemma sample_ready: "ready_to_submit sample_engine ''w'' chain (hexs ''A'') 100 1 sample_world"
proof -
  have "Validate chain = None" by code_simp
  moreover have "\<forall>n \<in> set (d_order chain). sample_handlers (n_taskType (node_of chain n)) \<noteq> None" by code_simp
  moreover have "cache_ok (NewMemoryCache 0) \<and> c_max_bytes (NewMemoryCache 0) \<le> 0" "cache_look (NewMemoryCache 0) t k = None" for t k
    by (simp_all add: cache_ok_def cache_inv_def NewMemoryCache_def cache_look_def)
  moreover have "\<not> s_closed (NewMemoryStore 60)" "s_dedup (NewMemoryStore 60) k = None" for k
    by (simp_all add: NewMemoryStore_def)
  ultimately show ?thesis
    using sample_wf_codec_rt def_inv_chain
    by (simp add: ready_to_submit_def sample_engine_def sample_world_def tasks_ok_def)
qed

abbreviation (input) iidA :: string where "iidA \<equiv> hexs ''A''"

lemma sample_Submit: "Submit sample_engine 1 (Some ''A'') ''w'' (Some ''in'') sample_world =
    (fst (Submit sample_engine 1 (Some ''A'') ''w'' (Some ''in'') sample_world), sample_submitted)"
  by (simp add: sample_submitted_def)

lemma sample_run:
  "legal_run sample_engine chain iidA 100 1 sample_events sample_submitted \<and>
   (case fst (wf_Inspect sample_engine 2 iidA (exec_run sample_engine chain iidA sample_events sample_submitted)) of
      Inl err \<Rightarrow> False | Inr info \<Rightarrow> info_state info ''b'' = Some NodeEnqueued)"
  by code_simp



abbreviation (input) sample_tk :: task where
  "sample_tk \<equiv> (node_task sample_engine iidA ''a'' (node_of chain ''a''))\<lparr>t_id := ''1''\<rparr>"

lemma sample_cancel:
  "case bridge_start sample_engine 1 ''t'' sample_tk sample_submitted of
      (Inr b, w1) \<Rightarrow> (case wf_Cancel sample_engine 1 iidA w1 of
        (Inr u, w2) \<Rightarrow> fst (bridge_finish sample_engine 1 sample_tk b (Inr ''x'') w2) = None | (Inl e, w2) \<Rightarrow> False)
    | (Inl e, w1) \<Rightarrow> False"
  by code_simp

theorem cancelled_still_enqueues_witness:
  "\<exists>b w1 w2 w3. bridge_start sample_engine 1 ''t'' sample_tk sample_submitted = (Inr b, w1) \<and>
     wf_Cancel sample_engine 1 iidA w1 = (Inr (), w2) \<and>
     bridge_finish sample_engine 1 sample_tk b (Inr ''x'') w2 = (None, w3) \<and>
     reported_state sample_engine 1 iidA ''b'' w3 = Some NodeEnqueued"
proof -
  have ty: "n_taskType (node_of chain ''a'') = ''t''" by code_simp
  obtain x w1 where x: "bridge_start sample_engine 1 ''t'' sample_tk sample_submitted = (x, w1)" by fastforce
  with sample_cancel obtain b where b: "x = Inr b" by (cases x) auto
  obtain y w2 where y: "wf_Cancel sample_engine 1 iidA w1 = (y, w2)" by fastforce
  with sample_cancel x b obtain u where u: "y = Inr u" by (cases y) auto
  obtain z w3 where z: "bridge_finish sample_engine 1 sample_tk b (Inr ''x'') w2 = (z, w3)" by fastforce
  with sample_cancel x b y u have w: "z = None" by simp
  have r: "''a'' \<in> set (d_order chain)" "''b'' \<in> set (d_order chain)" "''a'' \<in> set (parents_of chain ''b'')"
    by code_simp+
  have s: "reported_state sample_engine 1 iidA ''a'' sample_submitted = Some NodeEnqueued \<and>
    reported_state sample_engine 1 iidA ''b'' sample_submitted = Some NodePending \<and>
    (\<forall>p \<in> set (parents_of chain ''b''). p = ''a'' \<or> reported_state sample_engine 1 iidA p sample_submitted = Some NodeCompleted)"
    by code_simp
  have l: "legal_run sample_engine chain iidA 100 1 [] sample_submitted" by simp
  have "reported_state sample_engine 1 iidA ''b'' w3 = Some NodeEnqueued"
    using cancelled_still_enqueues [where E = sample_engine and wr = sample_submitted and t = 1 and evs = "[]",
        OF sample_ready refl _ sample_Submit l _ _ r(1) _ refl _ y z r(2,3)] x b s ty by simp
  with x b y u z w show ?thesis by simp
qed

end
