(* ===== verification/Probe_State.thy ===== *)
theory Probe_State imports
  Prelude
  "HOL-Library.Sublist"
  "HOL-Library.Word"
begin

text \<open>
  Health of a replica (\<^verbatim>\<open>docker/network/probe_state.go\<close>): probe results with hysteresis, and the
  channel that waiters block on. Proved: the health flag is exactly the hysteresis of the result
  history, and the counters count it; a waiter is not held back once a replica has turned unhealthy
  again by failing probes.
\<close>

record ProbeStatus =
  ps_ServiceName :: string
  ps_Replica :: int
  ps_ContainerID :: string
  ps_Healthy :: bool
  ps_LastProbeAt :: gotime
  ps_LastError :: string
  ps_Attempts :: "64 word"
  ps_Successes :: "64 word"
  ps_Failures :: "64 word"

text \<open>The channel \<^verbatim>\<open>healthyCh\<close> is only ever created and closed: \<open>rp_closed\<close> says which.\<close>

record replicaProbeState =
  rp_serviceName :: string
  rp_replica :: int
  rp_containerID :: string
  rp_snap :: ProbeStatus
  rp_closed :: bool
  rp_consecutiveFailures :: int
  rp_consecutiveSuccesses :: int

definition newReplicaProbeState :: "string \<Rightarrow> int \<Rightarrow> string \<Rightarrow> replicaProbeState" where
  "newReplicaProbeState serviceName replica containerID =
     \<lparr>rp_serviceName = serviceName, rp_replica = replica, rp_containerID = containerID,
      rp_snap = \<lparr>ps_ServiceName = serviceName, ps_Replica = replica, ps_ContainerID = containerID,
        ps_Healthy = False, ps_LastProbeAt = 0, ps_LastError = [], ps_Attempts = 0, ps_Successes = 0, ps_Failures = 0\<rparr>,
      rp_closed = False, rp_consecutiveFailures = 0, rp_consecutiveSuccesses = 0\<rparr>"

definition rp_snapshot :: "replicaProbeState \<Rightarrow> ProbeStatus" where
  "rp_snapshot r = rp_snap r"

definition recordResult :: "gotime \<Rightarrow> bool \<Rightarrow> string \<Rightarrow> int \<Rightarrow> int \<Rightarrow> replicaProbeState \<Rightarrow> replicaProbeState" where
  "recordResult now ok err successThreshold failureThreshold r =
     (let nxt = rp_snap r;
          nxt = nxt\<lparr>ps_Attempts := ps_Attempts nxt + 1, ps_LastProbeAt := now\<rparr>;
          (nxt, r) =
            (if ok then
               let nxt = nxt\<lparr>ps_Successes := ps_Successes nxt + 1, ps_LastError := []\<rparr>;
                   r = r\<lparr>rp_consecutiveFailures := 0, rp_consecutiveSuccesses := rp_consecutiveSuccesses r + 1\<rparr>
               in (if \<not> ps_Healthy nxt \<and> rp_consecutiveSuccesses r \<ge> successThreshold
                   then nxt\<lparr>ps_Healthy := True\<rparr> else nxt, r)
             else
               let nxt = nxt\<lparr>ps_Failures := ps_Failures nxt + 1, ps_LastError := err\<rparr>;
                   r = r\<lparr>rp_consecutiveSuccesses := 0, rp_consecutiveFailures := rp_consecutiveFailures r + 1\<rparr>
               in (if ps_Healthy nxt \<and> rp_consecutiveFailures r \<ge> failureThreshold
                   then nxt\<lparr>ps_Healthy := False\<rparr> else nxt, r));
          r = r\<lparr>rp_snap := nxt\<rparr>
      in if ps_Healthy nxt then r\<lparr>rp_closed := True\<rparr> else r)"

text \<open>The outcome of \<^verbatim>\<open>waitHealthy\<close> at an instant: \<open>ctxDone\<close> is whether the context has ended, \<open>pick\<close> the
  choice of \<^verbatim>\<open>select\<close> when both channels are ready; \<open>WaitBlocks\<close> means that the call stays blocked.\<close>

datatype wait_outcome = WaitNil | WaitCtxErr | WaitBlocks

definition waitHealthy :: "bool \<Rightarrow> bool \<Rightarrow> replicaProbeState \<Rightarrow> wait_outcome" where
  "waitHealthy ctxDone pick r =
     (if ps_Healthy (rp_snapshot r) then WaitNil
      else if rp_closed r \<and> (\<not> ctxDone \<or> pick) then WaitNil
      else if ctxDone then WaitCtxErr
      else WaitBlocks)"

definition markHealthy :: "gotime \<Rightarrow> replicaProbeState \<Rightarrow> replicaProbeState" where
  "markHealthy now r =
     (let prev = rp_snap r in
      if ps_Healthy prev then r
      else r\<lparr>rp_snap := prev\<lparr>ps_Healthy := True, ps_Attempts := ps_Attempts prev + 1,
                            ps_Successes := ps_Successes prev + 1, ps_LastProbeAt := now\<rparr>,
             rp_closed := True\<rparr>)"

definition markUnhealthy :: "gotime \<Rightarrow> string \<Rightarrow> replicaProbeState \<Rightarrow> replicaProbeState" where
  "markUnhealthy now reason r =
     r\<lparr>rp_snap := (rp_snap r)\<lparr>ps_Healthy := False, ps_LastError := reason, ps_LastProbeAt := now\<rparr>,
       rp_closed := False, rp_consecutiveFailures := 0, rp_consecutiveSuccesses := 0\<rparr>"

section \<open>Hysteresis\<close>

text \<open>The length of the run of equal results at the end of a history.\<close>

definition run_length :: "bool \<Rightarrow> bool list \<Rightarrow> nat" where
  "run_length b h = length (takeWhile (\<lambda>x. x = b) (rev h))"

lemma run_length_snoc [simp]: "run_length b (h @ [x]) = (if x = b then Suc (run_length b h) else 0)"
  by (simp add: run_length_def)

lemma run_length_Nil [simp]: "run_length b [] = 0"
  by (simp add: run_length_def)

lemma run_suffix: "k \<le> run_length b h \<longleftrightarrow> suffix (replicate k b) h"
proof (induction h arbitrary: k rule: rev_induct)
  case (snoc x h)
  show ?case
  proof (cases k)
    case (Suc j)
    then have "replicate k b = replicate j b @ [b]" by (simp add: replicate_append_same)
    with snoc [of j] Suc show ?thesis by (simp add: suffix_def)
  qed simp
qed simp

text \<open>A replica is healthy after history \<open>h\<close> if at some point the last \<open>s\<close> probes had succeeded, and
  since then no \<open>f\<close> probes in a row have failed.\<close>

definition hysteresis :: "nat \<Rightarrow> nat \<Rightarrow> bool list \<Rightarrow> bool" where
  "hysteresis s f h \<longleftrightarrow> (\<exists>pre post. h = pre @ post \<and> suffix (replicate s True) pre \<and> \<not> sublist (replicate f False) post)"

lemma sublist_snoc: "sublist xs (ys @ [y]) \<longleftrightarrow> sublist xs ys \<or> suffix xs (ys @ [y])"
proof
  assume "sublist xs (ys @ [y])"
  then obtain a b where ab: "ys @ [y] = a @ xs @ b" by (auto simp: sublist_def)
  show "sublist xs ys \<or> suffix xs (ys @ [y])"
  proof (cases b rule: rev_cases)
    case (snoc c z)
    with ab have "ys = a @ xs @ c" by simp
    then show ?thesis by (auto simp: sublist_def)
  qed (use ab in \<open>auto simp: suffix_def\<close>)
qed (auto simp: suffix_imp_sublist sublist_append_rightI intro: sublist_order.order_trans)

lemma hysteresis_success:
  assumes "0 < f"
  shows "hysteresis s f (h @ [True]) \<longleftrightarrow> hysteresis s f h \<or> s \<le> Suc (run_length True h)"
proof
  assume "hysteresis s f (h @ [True])"
  then obtain pre post where p: "h @ [True] = pre @ post" "suffix (replicate s True) pre" "\<not> sublist (replicate f False) post"
    by (auto simp: hysteresis_def)
  show "hysteresis s f h \<or> s \<le> Suc (run_length True h)"
  proof (cases post rule: rev_cases)
    case Nil
    with p have "s \<le> run_length True (h @ [True])" by (simp add: run_suffix)
    then show ?thesis by simp
  next
    case (snoc q x)
    with p(1) have "h = pre @ q" by simp
    with p(2,3) snoc show ?thesis by (auto simp: hysteresis_def sublist_snoc)
  qed
next
  assume "hysteresis s f h \<or> s \<le> Suc (run_length True h)"
  then show "hysteresis s f (h @ [True])"
  proof
    assume "hysteresis s f h"
    then obtain pre post where p: "h = pre @ post" "suffix (replicate s True) pre" "\<not> sublist (replicate f False) post"
      by (auto simp: hysteresis_def)
    have "\<not> suffix (replicate f False) (post @ [True])"
      using assms run_suffix [of f False "post @ [True]"] by simp
    with p show ?thesis unfolding hysteresis_def by (metis append.assoc sublist_snoc)
  next
    assume "s \<le> Suc (run_length True h)"
    then have "suffix (replicate s True) (h @ [True])" using run_suffix [of s True "h @ [True]"] by simp
    with assms show ?thesis unfolding hysteresis_def by (intro exI [of _ "h @ [True]"] exI [of _ "[]"]) simp
  qed
qed

lemma hysteresis_failure:
  assumes "0 < s"
  shows "hysteresis s f (h @ [False]) \<longleftrightarrow> hysteresis s f h \<and> Suc (run_length False h) < f"
proof
  assume "hysteresis s f (h @ [False])"
  then obtain pre post where p: "h @ [False] = pre @ post" "suffix (replicate s True) pre" "\<not> sublist (replicate f False) post"
    by (auto simp: hysteresis_def)
  have r: "0 < run_length True pre" using p(2) assms by (simp add: run_suffix [symmetric])
  then have "post \<noteq> []" using p(1) by (metis append_Nil2 less_irrefl run_length_snoc)
  then obtain q where q: "post = q @ [False]" "h = pre @ q" using p(1) by (cases post rule: rev_cases) auto
  have "\<not> f \<le> run_length False (h @ [False])"
  proof
    assume "f \<le> run_length False (h @ [False])"
    moreover have "run_length False (pre @ x) \<le> run_length False x" if "0 < run_length True pre" for x
      using that
    proof (induction x rule: rev_induct)
      case Nil
      then show ?case by (cases pre rule: rev_cases) (auto split: if_splits)
    next
      case (snoc y x)
      then show ?case using run_length_snoc [of False "pre @ x" y] by simp
    qed
    ultimately have "f \<le> run_length False post" using r p(1) by (metis order_trans)
    then have "suffix (replicate f False) post" by (simp add: run_suffix)
    with p(3) show False by (simp add: suffix_imp_sublist)
  qed
  then have "Suc (run_length False h) < f" by simp
  moreover have "hysteresis s f h" using p(2,3) q by (auto simp: hysteresis_def sublist_snoc)
  ultimately show "hysteresis s f h \<and> Suc (run_length False h) < f" by simp
next
  assume a: "hysteresis s f h \<and> Suc (run_length False h) < f"
  then obtain pre post where p: "h = pre @ post" "suffix (replicate s True) pre" "\<not> sublist (replicate f False) post"
    by (auto simp: hysteresis_def)
  have "\<not> suffix (replicate f False) (post @ [False])"
  proof
    assume "suffix (replicate f False) (post @ [False])"
    then have "suffix (replicate f False) (h @ [False])" using p(1) by (auto simp: suffix_def)
    then show False using a run_suffix [of f False "h @ [False]"] by simp
  qed
  with p show "hysteresis s f (h @ [False])" unfolding hysteresis_def by (metis append.assoc sublist_snoc)
qed

section \<open>Properties\<close>

definition record_all :: "int \<Rightarrow> int \<Rightarrow> (gotime \<times> bool \<times> string) list \<Rightarrow> replicaProbeState \<Rightarrow> replicaProbeState" where
  "record_all s f h r = fold (\<lambda>(now, ok, err). recordResult now ok err s f) h r"

definition result_of :: "gotime \<times> bool \<times> string \<Rightarrow> bool" where
  "result_of x = fst (snd x)"

definition been_healthy :: "nat \<Rightarrow> nat \<Rightarrow> bool list \<Rightarrow> bool" where
  "been_healthy s f h \<longleftrightarrow> (\<exists>g. prefix g h \<and> hysteresis s f g)"

lemma been_healthy_snoc: "been_healthy s f (h @ [b]) \<longleftrightarrow> been_healthy s f h \<or> hysteresis s f (h @ [b])"
  by (auto simp: been_healthy_def prefix_snoc)

lemma hysteresis_been: "hysteresis s f h \<Longrightarrow> been_healthy s f h"
  by (auto simp: been_healthy_def)

definition tracks :: "nat \<Rightarrow> nat \<Rightarrow> bool list \<Rightarrow> replicaProbeState \<Rightarrow> bool" where
  "tracks s f h r \<longleftrightarrow>
    ps_Healthy (rp_snap r) = hysteresis s f h \<and> rp_closed r = been_healthy s f h \<and>
    rp_consecutiveSuccesses r = int (run_length True h) \<and> rp_consecutiveFailures r = int (run_length False h) \<and>
    ps_Attempts (rp_snap r) = of_nat (length h) \<and>
    ps_Successes (rp_snap r) = of_nat (length (filter (\<lambda>b. b) h)) \<and>
    ps_Failures (rp_snap r) = of_nat (length (filter Not h))"

lemma recordResult_tracks:
  assumes "0 < s" "0 < f" "tracks s f h r"
  shows "tracks s f (h @ [ok]) (recordResult now ok err (int s) (int f) r)"
proof (cases ok)
  case True
  have i: "(int s \<le> int (run_length True h) + 1) = (s \<le> Suc (run_length True h))" by auto
  show ?thesis
    using assms(3) True hysteresis_been [of s f h] unfolding tracks_def
    by (simp add: recordResult_def Let_def been_healthy_snoc hysteresis_success [OF assms(2)] i)
next
  case False
  have i: "(int f \<le> int (run_length False h) + 1) = (\<not> Suc (run_length False h) < f)" by auto
  show ?thesis
    using assms(3) False hysteresis_been [of s f h] unfolding tracks_def
    by (simp add: recordResult_def Let_def been_healthy_snoc hysteresis_failure [OF assms(1)] i)
qed

lemma record_all_tracks:
  assumes "0 < s" "0 < f"
  shows "tracks s f (map result_of h) (record_all (int s) (int f) h (newReplicaProbeState nm i c))"
proof (induction h rule: rev_induct)
  case Nil
  have "\<not> hysteresis s f []" using assms(1) by (simp add: hysteresis_def suffix_def)
  then show ?case by (simp add: tracks_def record_all_def newReplicaProbeState_def been_healthy_def)
next
  case (snoc x h)
  obtain now ok err where x: "x = (now, ok, err)" by (cases x)
  show ?case using recordResult_tracks [OF assms snoc, of ok now err] by (simp add: record_all_def x result_of_def)
qed

text \<open>C25: The health of a replica is the hysteresis of its probe results: it is healthy exactly if at
  some point the last \<open>s\<close> probes succeeded and since then no \<open>f\<close> probes in a row failed; the
  counters hold the numbers of attempts, successes and failures (modulo \<open>2 ^ 64\<close>).\<close>

theorem probe_hysteresis:
  fixes s f :: nat
  assumes "0 < s" "0 < f"
  shows "let p = rp_snapshot (record_all (int s) (int f) h (newReplicaProbeState nm i c)); hs = map result_of h
    in ps_Healthy p = hysteresis s f hs \<and> ps_Attempts p = of_nat (length hs) \<and>
       ps_Successes p = of_nat (length (filter (\<lambda>b. b) hs)) \<and> ps_Failures p = of_nat (length (filter Not hs))"
  using record_all_tracks [OF assms, of h nm i c] by (simp add: tracks_def Let_def rp_snapshot_def)

text \<open>C26: A waiter is let through although the replica is unhealthy: once a replica has been healthy,
  failing probes make it unhealthy without renewing the channel, so \<^verbatim>\<open>waitHealthy\<close> returns at once.
  Only \<^verbatim>\<open>markUnhealthy\<close> makes waiters block again.\<close>

theorem waitHealthy_lets_through:
  fixes s f :: nat
  assumes "0 < s" "0 < f" "been_healthy s f (map result_of h)" "\<not> hysteresis s f (map result_of h)"
    "r = record_all (int s) (int f) h (newReplicaProbeState nm i c)"
  shows "\<not> ps_Healthy (rp_snapshot r) \<and> waitHealthy False pick r = WaitNil \<and>
    waitHealthy False pick (markUnhealthy now reason r) = WaitBlocks"
  using record_all_tracks [OF assms(1,2), of h nm i c] assms(3-5)
  by (simp add: tracks_def waitHealthy_def rp_snapshot_def markUnhealthy_def)

definition sample_probes :: "(gotime \<times> bool \<times> string) list" where
  "sample_probes = [(1, True, []), (2, True, []), (3, False, ''e''), (4, False, ''e'')]"

theorem probe_hysteresis_witness:
  "\<not> ps_Healthy (rp_snapshot (record_all (int 2) (int 2) sample_probes (newReplicaProbeState ''s'' 0 ''c''))) \<and>
   \<not> hysteresis 2 2 (map result_of sample_probes)"
proof -
  have "\<not> ps_Healthy (rp_snapshot (record_all (int 2) (int 2) sample_probes (newReplicaProbeState ''s'' 0 ''c'')))"
    by code_simp
  with probe_hysteresis [of 2 2 sample_probes "''s''" 0 "''c''"] show ?thesis by (simp add: Let_def)
qed

theorem waitHealthy_lets_through_witness:
  "waitHealthy False False (record_all (int 2) (int 2) sample_probes (newReplicaProbeState ''s'' 0 ''c'')) = WaitNil \<and>
   \<not> ps_Healthy (rp_snapshot (record_all (int 2) (int 2) sample_probes (newReplicaProbeState ''s'' 0 ''c'')))"
proof -
  have t: "tracks 2 2 (map result_of sample_probes) (record_all (int 2) (int 2) sample_probes (newReplicaProbeState ''s'' 0 ''c''))"
    by (rule record_all_tracks) simp_all
  have "\<not> ps_Healthy (rp_snap (record_all (int 2) (int 2) sample_probes (newReplicaProbeState ''s'' 0 ''c'')))"
    "rp_closed (record_all (int 2) (int 2) sample_probes (newReplicaProbeState ''s'' 0 ''c''))" by code_simp+
  with t have "been_healthy 2 2 (map result_of sample_probes)" "\<not> hysteresis 2 2 (map result_of sample_probes)"
    by (simp_all add: tracks_def)
  from waitHealthy_lets_through [OF _ _ this refl, of "''s''" 0 "''c''" False] show ?thesis by simp
qed

end
