(* ===== verification/Retry_Backoff.thy ===== *)
theory Retry_Backoff imports
  Probe_State
  Go_Text
begin

text \<open>
  Retrying: the generic retry loop and the error classifier of \<^verbatim>\<open>docker/network/retry.go\<close>, the restart
  watcher and its backoff (\<^verbatim>\<open>docker/network/restart.go\<close>), and the backoff of the task worker
  (\<^verbatim>\<open>tasks/worker.go\<close>). Delays are 64-bit words where the code shifts them.
\<close>

section \<open>Backoff\<close>

text \<open>\<^verbatim>\<open>rand.Int63n(n)\<close> panics (\<open>None\<close>) for \<open>n \<le> 0\<close>; \<open>rnd\<close> is the drawn number.\<close>

definition Int63n :: "int \<Rightarrow> int \<Rightarrow> int option" where
  "Int63n n rnd = (if n \<le> 0 then None else Some (rnd mod n))"

type_synonym int64 = "64 word"

definition backoff_exp :: "int64 \<Rightarrow> int64 \<Rightarrow> nat \<Rightarrow> int64" where
  "backoff_exp base cap k =
     (let exp = push_bit k base in if sint exp > sint cap \<or> sint exp < 0 then cap else exp)"

definition defaultRestartBackoff :: "int \<Rightarrow> int \<Rightarrow> int option" where
  "defaultRestartBackoff attempt rnd =
     (let attempt = (if attempt < 1 then 1 else attempt)
      in Int63n (sint (backoff_exp 1000000000 30000000000 (nat (attempt - 1)))) rnd)"

text \<open>The worker computes in \<^verbatim>\<open>float64\<close>, where the powers of two are exact and infinity stands for those
  that are out of range.\<close>

definition defaultBackoff :: "int \<Rightarrow> int \<Rightarrow> int option" where
  "defaultBackoff attempt rnd =
     (let attempt = (if attempt < 1 then 1 else attempt)
      in Int63n (min (30 * second) (second * 2 ^ nat (attempt - 1))) rnd)"

lemma push_bit_vanishes:
  assumes "55 \<le> k"
  shows "push_bit k (1000000000 :: int64) = 0"
proof -
  have "push_bit k (1000000000 :: int64) = 1953125 * 2 ^ (k + 9)" by (simp add: push_bit_eq_mult power_add)
  also have "(2 :: int64) ^ (k + 9) = 0" using assms by (simp add: exp_eq_zero_iff)
  finally show ?thesis by simp
qed

definition small_shifts :: bool where
  "small_shifts = list_all (\<lambda>k. sint (backoff_exp 1000000000 30000000000 k) = min 30000000000 (1000000000 * 2 ^ k)) [0..<55]"

lemma small_shifts_ok: "small_shifts"
  by (simp add: small_shifts_def upt_rec backoff_exp_def)

lemma restart_exp:
  "k < 55 \<Longrightarrow> sint (backoff_exp 1000000000 30000000000 k) = min 30000000000 (1000000000 * 2 ^ k)"
  using small_shifts_ok by (simp add: small_shifts_def list_all_iff)

lemma backoff_cases:
  "(if attempt \<le> 55 then defaultRestartBackoff attempt rnd = defaultBackoff attempt rnd
    else defaultRestartBackoff attempt rnd = None) \<and>
   (\<exists>d. defaultBackoff attempt rnd = Some d \<and> 0 \<le> d \<and> d < 30 * second \<and>
      d < second * 2 ^ nat (max 0 (attempt - 1)))"
proof
  let ?k = "nat ((if attempt < 1 then 1 else attempt) - 1)"
  have k: "?k = nat (max 0 (attempt - 1))" by simp
  show "if attempt \<le> 55 then defaultRestartBackoff attempt rnd = defaultBackoff attempt rnd
    else defaultRestartBackoff attempt rnd = None"
  proof (cases "attempt \<le> 55")
    case True
    then have "?k < 55" by auto
    from restart_exp [OF this] True show ?thesis by (simp add: defaultRestartBackoff_def defaultBackoff_def Let_def)
  next
    case False
    then have "55 \<le> nat (attempt - 1)" by simp
    from push_bit_vanishes [OF this] False show ?thesis
      by (simp add: defaultRestartBackoff_def Let_def backoff_exp_def Int63n_def)
  qed
  let ?e = "min (30 * second) (second * 2 ^ ?k) :: int"
  have e: "0 < ?e" by simp
  then have "\<not> ?e \<le> 0" by linarith
  then have "defaultBackoff attempt rnd = Some (rnd mod ?e)" by (simp only: defaultBackoff_def Int63n_def Let_def if_False)
  moreover have "0 \<le> rnd mod ?e" by (rule pos_mod_sign [OF e])
  moreover have "rnd mod ?e < 30 * second" "rnd mod ?e < second * 2 ^ ?k"
    using pos_mod_bound [OF e, of rnd] unfolding min_less_iff_conj by (simp_all only: min_def split: if_splits)
  ultimately show "\<exists>d. defaultBackoff attempt rnd = Some d \<and> 0 \<le> d \<and> d < 30 * second \<and>
      d < second * 2 ^ nat (max 0 (attempt - 1))" unfolding k by blast
qed

text \<open>Both backoffs draw a delay below the capped power of two, and they agree up to the 55th
  attempt. From the 56th on the restart backoff has shifted its base out of the 64-bit word, calls
  \<^verbatim>\<open>Int63n(0)\<close> and panics; the worker's never does.\<close>

theorem restart_backoff_exact:
  "(if attempt \<le> 55 then defaultRestartBackoff attempt rnd = defaultBackoff attempt rnd
    else defaultRestartBackoff attempt rnd = None) \<and>
   (\<exists>d. defaultBackoff attempt rnd = Some d \<and> 0 \<le> d \<and> d < 30 * second \<and>
      d < second * 2 ^ nat (max 0 (attempt - 1)))"
  by (rule backoff_cases)

section \<open>Retrying an operation\<close>

record RetryOpts =
  ro_MaxAttempts :: int
  ro_Base :: int64
  ro_Cap :: int64
  ro_IsRetryable :: "(string \<Rightarrow> bool) option"

definition withDefaults :: "RetryOpts \<Rightarrow> RetryOpts" where
  "withDefaults o' =
     (let o' = (if ro_MaxAttempts o' \<le> 0 then o'\<lparr>ro_MaxAttempts := 4\<rparr> else o');
          o' = (if sint (ro_Base o') \<le> 0 then o'\<lparr>ro_Base := 100000000\<rparr> else o')
      in if sint (ro_Cap o') \<le> 0 then o'\<lparr>ro_Cap := 5000000000\<rparr> else o')"

datatype retry_result = RetryNil | RetryCtx | RetryErr string | RetryGaveUp int string | RetryPanic

text \<open>What the loop meets: whether the context has ended before attempt \<open>k\<close> and during the sleep after
  it, the error of the operation at attempt \<open>k\<close>, and the random numbers.\<close>

record retry_env =
  re_ctx :: "int \<Rightarrow> bool"
  re_ctx_sleep :: "int \<Rightarrow> bool"
  re_op :: "int \<Rightarrow> string option"
  re_rnd :: "int \<Rightarrow> int"

definition may_retry_err :: "RetryOpts \<Rightarrow> string \<Rightarrow> bool" where
  "may_retry_err opts err = (case ro_IsRetryable opts of None \<Rightarrow> True | Some f \<Rightarrow> f err)"

function retry_loop :: "RetryOpts \<Rightarrow> retry_env \<Rightarrow> int \<Rightarrow> string \<Rightarrow> retry_result" where
  "retry_loop opts env attempt lastErr =
     (if attempt > ro_MaxAttempts opts then RetryGaveUp (ro_MaxAttempts opts) lastErr
      else if re_ctx env attempt then RetryCtx
      else (case re_op env attempt of
        None \<Rightarrow> RetryNil
      | Some err \<Rightarrow>
          if \<not> may_retry_err opts err then RetryErr err
          else if attempt = ro_MaxAttempts opts then RetryGaveUp (ro_MaxAttempts opts) err
          else (case Int63n (sint (backoff_exp (ro_Base opts) (ro_Cap opts) (nat (attempt - 1)))) (re_rnd env attempt) of
            None \<Rightarrow> RetryPanic
          | Some sleep \<Rightarrow>
              if re_ctx_sleep env attempt then RetryCtx
              else retry_loop opts env (attempt + 1) err)))"
  by pat_completeness auto
termination by (relation "measure (\<lambda>(opts, env, attempt, e). nat (ro_MaxAttempts opts + 1 - attempt))") auto

declare retry_loop.simps [simp del]

definition retry :: "RetryOpts \<Rightarrow> retry_env \<Rightarrow> retry_result" where
  "retry opts env = retry_loop (withDefaults opts) env 1 []"

text \<open>The reference: the first attempt that succeeds or must not be repeated decides.\<close>

definition decisive :: "RetryOpts \<Rightarrow> retry_env \<Rightarrow> int \<Rightarrow> bool" where
  "decisive opts env k \<longleftrightarrow> (case re_op env k of None \<Rightarrow> True | Some err \<Rightarrow> \<not> may_retry_err opts err)"

definition retry_reference :: "RetryOpts \<Rightarrow> retry_env \<Rightarrow> int \<Rightarrow> retry_result" where
  "retry_reference opts env k0 =
     (case find (decisive opts env) [k0 .. ro_MaxAttempts opts] of
        Some k \<Rightarrow> (case re_op env k of None \<Rightarrow> RetryNil | Some err \<Rightarrow> RetryErr err)
      | None \<Rightarrow> RetryGaveUp (ro_MaxAttempts opts) (the (re_op env (ro_MaxAttempts opts))))"

lemma retry_loop_reference:
  assumes "\<And>k. \<not> re_ctx env k" "\<And>k. \<not> re_ctx_sleep env k"
    "\<And>k. 1 \<le> k \<Longrightarrow> k < ro_MaxAttempts opts \<Longrightarrow> 0 < sint (backoff_exp (ro_Base opts) (ro_Cap opts) (nat (k - 1)))"
    "1 \<le> attempt" "attempt \<le> ro_MaxAttempts opts"
  shows "retry_loop opts env attempt e = retry_reference opts env attempt"
  using assms
proof (induction opts env attempt e rule: retry_loop.induct)
  case (1 opts env attempt lastErr)
  have up: "[attempt .. ro_MaxAttempts opts] = attempt # [attempt + 1 .. ro_MaxAttempts opts]"
    using 1(6) by (simp add: upto_rec1)
  show ?case
  proof (cases "re_op env attempt")
    case None
    then show ?thesis
      using 1(2,6) by (simp add: retry_loop.simps [of opts] retry_reference_def up decisive_def)
  next
    case (Some err)
    show ?thesis
    proof (cases "may_retry_err opts err")
      case False
      then show ?thesis
        using 1(2,6) Some by (simp add: retry_loop.simps [of opts] retry_reference_def up decisive_def)
    next
      case True
      have nd: "\<not> decisive opts env attempt" by (simp add: decisive_def Some True)
      show ?thesis
      proof (cases "attempt = ro_MaxAttempts opts")
        case e: True
        then show ?thesis
          using 1(2,6) Some True nd by (simp add: retry_loop.simps [of opts] retry_reference_def)
      next
        case False
        then have lt: "attempt < ro_MaxAttempts opts" using 1(6) by simp
        have "0 < sint (backoff_exp (ro_Base opts) (ro_Cap opts) (nat (attempt - 1)))"
          by (rule 1(4)) (use 1(5) lt in simp_all)
        then obtain sl where sl: "Int63n (sint (backoff_exp (ro_Base opts) (ro_Cap opts) (nat (attempt - 1)))) (re_rnd env attempt) = Some sl"
          by (simp add: Int63n_def)
        have "retry_loop opts env (attempt + 1) err = retry_reference opts env (attempt + 1)"
          by (rule 1(1) [OF _ _ Some _ _ sl]) (use 1(2-5) True lt in auto)
        moreover have "retry_reference opts env attempt = retry_reference opts env (attempt + 1)"
          using nd by (simp add: retry_reference_def up)
        ultimately show ?thesis
          using 1(2,3) Some True lt sl by (simp add: retry_loop.simps [of opts env attempt lastErr])
      qed
    qed
  qed
qed

lemma default_base_positive:
  assumes "k < 56" "0 < sint cap"
  shows "0 < sint (backoff_exp 100000000 cap k)"
proof -
  have "list_all (\<lambda>k. sint (push_bit k (100000000 :: int64)) \<noteq> 0) [0..<56]" by (simp add: upt_rec)
  then have "sint (push_bit k (100000000 :: int64)) \<noteq> 0" using assms(1) by (simp add: list_all_iff)
  with assms(2) show ?thesis by (simp add: backoff_exp_def Let_def)
qed

text \<open>C28: With the default base delay and at most 57 attempts, and while the context lives, \<open>retry\<close>
  returns what the first decisive attempt returned: nil for the first success, the error of the
  first failure that is not retryable, and after \<open>MaxAttempts\<close> retryable failures the last one.\<close>

theorem retry_exact:
  assumes "sint (ro_Base opts) \<le> 0" "ro_MaxAttempts opts \<le> 57" "\<And>k. \<not> re_ctx env k" "\<And>k. \<not> re_ctx_sleep env k"
  shows "retry opts env = retry_reference (withDefaults opts) env 1"
proof -
  let ?o = "withDefaults opts"
  have o: "ro_Base ?o = 100000000" "ro_MaxAttempts ?o \<le> 57" "1 \<le> ro_MaxAttempts ?o" "0 < sint (ro_Cap ?o)"
    using assms(1,2) by (auto simp: withDefaults_def Let_def)
  have "0 < sint (backoff_exp (ro_Base ?o) (ro_Cap ?o) (nat (k - 1)))" if "1 \<le> k" "k < ro_MaxAttempts ?o" for k
    unfolding o(1) by (rule default_base_positive) (use that o in auto)
  from retry_loop_reference [of env ?o 1 "[]", OF assms(3,4) this] o(3) show ?thesis by (simp add: retry_def)
qed

definition sample_retry_env :: retry_env where
  "sample_retry_env = \<lparr>re_ctx = (\<lambda>_. False), re_ctx_sleep = (\<lambda>_. False),
     re_op = (\<lambda>k. if k < 3 then Some ''EOF'' else None), re_rnd = (\<lambda>_. 7)\<rparr>"

definition sample_retry_opts :: RetryOpts where
  "sample_retry_opts = \<lparr>ro_MaxAttempts = 0, ro_Base = 0, ro_Cap = 0, ro_IsRetryable = None\<rparr>"

theorem retry_exact_witness: "retry sample_retry_opts sample_retry_env = RetryNil"
proof -
  have "retry_reference (withDefaults sample_retry_opts) sample_retry_env 1 = RetryNil" by code_simp
  with retry_exact [of sample_retry_opts sample_retry_env] show ?thesis
    by (simp add: sample_retry_opts_def sample_retry_env_def)
qed

subsection \<open>Which errors are retried\<close>

definition lower_ascii :: "char \<Rightarrow> char" where
  "lower_ascii c = (if of_char c \<ge> (65 :: nat) \<and> of_char c \<le> (90 :: nat) then char_of (of_char c + 32 :: nat) else c)"

fun match_at :: "string \<Rightarrow> string \<Rightarrow> bool" where
  "match_at s [] = True"
| "match_at (a # s) (b # substr) = (if lower_ascii a \<noteq> lower_ascii b then False else match_at s substr)"
| "match_at [] (b # substr) = False"

fun contains_from :: "string \<Rightarrow> string \<Rightarrow> bool" where
  "contains_from [] substr = (if length substr \<le> 0 then match_at [] substr else False)"
| "contains_from (c # s) substr =
     (if length substr \<le> length (c # s) then
        if match_at (c # s) substr then True else contains_from s substr
      else False)"

definition containsFold :: "string \<Rightarrow> string \<Rightarrow> bool" where
  "containsFold s substr =
     (if length substr = 0 then True
      else if length substr > length s then False
      else contains_from s substr)"

lemma match_at_prefix: "match_at s t \<longleftrightarrow> prefix (map lower_ascii t) (map lower_ascii s)"
  by (induction s t rule: match_at.induct) auto

lemma contains_from_sublist: "contains_from s t \<longleftrightarrow> sublist (map lower_ascii t) (map lower_ascii s)"
proof (induction s)
  case (Cons c s)
  have "length t \<le> length (c # s)" if "sublist (map lower_ascii t) (map lower_ascii (c # s))"
    using sublist_length_le [OF that] by simp
  then show ?case using Cons by (auto simp: match_at_prefix sublist_Cons_right)
qed auto

lemma containsFold_sublist: "containsFold s t \<longleftrightarrow> sublist (map lower_ascii t) (map lower_ascii s)"
  using sublist_length_le [of "map lower_ascii t" "map lower_ascii s"]
  by (auto simp: containsFold_def contains_from_sublist)

definition transientHints :: "string list" where
  "transientHints = [''connection refused'', ''connection reset'', ''i/o timeout'', ''EOF'', ''temporarily unavailable'',
     ''server is busy'', ''network is unreachable'', ''no such host'', ''broken pipe'', ''unexpected EOF'', ''server closed'']"

text \<open>\<open>ctxErr\<close>: the error is, or wraps, the cancellation or the deadline of the context.\<close>

definition IsRetryableDocker :: "bool \<Rightarrow> string option \<Rightarrow> bool" where
  "IsRetryableDocker ctxErr err =
     (case err of
        None \<Rightarrow> False
      | Some msg \<Rightarrow> if ctxErr then False else list_ex (containsFold msg) transientHints)"

section \<open>Restarting a replica\<close>

datatype RestartPolicyKind = RestartNever | RestartOnFailure | RestartAlways | RestartUnlessStopped

record RestartPolicy =
  rs_Kind :: RestartPolicyKind
  rs_MaxAttempts :: int
  rs_Backoff :: "(int \<Rightarrow> duration) option"

datatype start_result = StartOk | StartNotFound | StartFailed string

text \<open>One turn of the watcher's loop as the outside world makes it: whether \<^verbatim>\<open>stopCh\<close> is closed at the
  three places that look, the container's exit, the drawn number, the outcome of the restart, and
  what the readiness probe (if any) leaves behind.\<close>

record watch_turn =
  wt_stop_first :: bool
  wt_stop_wait :: bool
  wt_exitCode :: int
  wt_exitErr :: "string option"
  wt_now :: gotime
  wt_rnd :: int
  wt_stop_delay :: bool
  wt_start :: start_result
  wt_started :: gotime
  wt_probe :: "(replicaProbeState \<Rightarrow> replicaProbeState) option"

datatype watch_end = WatchStopped | WatchNoRestart | WatchExhausted | WatchGone | WatchPanic | WatchWaiting

text \<open>The watcher's state: restarts so far, the probe state, whether the stack has a monitor, and the
  restart events emitted to it (with the error, if the restart failed).\<close>

record watch_state =
  ws_attempts :: int
  ws_rps :: replicaProbeState
  ws_monitor :: bool
  ws_events :: "string option list"

definition emit_restarted :: "string option \<Rightarrow> watch_state \<Rightarrow> watch_state" where
  "emit_restarted err ws = (if ws_monitor ws then ws\<lparr>ws_events := ws_events ws @ [err]\<rparr> else ws)"

lemma emit_restarted_simps [simp]:
  "ws_attempts (emit_restarted err ws) = ws_attempts ws" "ws_rps (emit_restarted err ws) = ws_rps ws"
  by (simp_all add: emit_restarted_def)

definition should_restart :: "RestartPolicyKind \<Rightarrow> int \<Rightarrow> string option \<Rightarrow> bool" where
  "should_restart kind exitCode exitErr =
     (case kind of
        RestartAlways \<Rightarrow> True
      | RestartOnFailure \<Rightarrow> exitCode \<noteq> 0 \<or> exitErr \<noteq> None
      | RestartUnlessStopped \<Rightarrow> True
      | RestartNever \<Rightarrow> False)"

definition restart_delay :: "RestartPolicy \<Rightarrow> int \<Rightarrow> int \<Rightarrow> duration option" where
  "restart_delay pol attempts rnd =
     (case rs_Backoff pol of Some f \<Rightarrow> Some (f attempts) | None \<Rightarrow> defaultRestartBackoff attempts rnd)"

fun watchReplica :: "RestartPolicy \<Rightarrow> watch_turn list \<Rightarrow> watch_state \<Rightarrow> watch_end \<times> watch_state" where
  "watchReplica pol [] ws = (WatchWaiting, ws)"
| "watchReplica pol (t # ts) ws =
     (if wt_stop_first t then (WatchStopped, ws)
      else if wt_stop_wait t then (WatchStopped, ws)
      else
        let reason = (case wt_exitErr t of Some e \<Rightarrow> e | None \<Rightarrow> ''exit '' @ itoa (wt_exitCode t));
            ws1 = ws\<lparr>ws_rps := markUnhealthy (wt_now t) reason (ws_rps ws)\<rparr>
        in if \<not> should_restart (rs_Kind pol) (wt_exitCode t) (wt_exitErr t) then (WatchNoRestart, ws1)
           else if rs_MaxAttempts pol > 0 \<and> ws_attempts ws1 \<ge> rs_MaxAttempts pol then (WatchExhausted, ws1)
           else
             let ws2 = ws1\<lparr>ws_attempts := ws_attempts ws1 + 1\<rparr>
             in case restart_delay pol (ws_attempts ws2) (wt_rnd t) of
                  None \<Rightarrow> (WatchPanic, ws2)
                | Some delay \<Rightarrow>
                    if wt_stop_delay t then (WatchStopped, ws2)
                    else (case wt_start t of
                            StartNotFound \<Rightarrow> (WatchGone, ws2)
                          | StartFailed err \<Rightarrow> watchReplica pol ts (emit_restarted (Some err) ws2)
                          | StartOk \<Rightarrow>
                              watchReplica pol ts
                                ((emit_restarted None ws2)\<lparr>ws_rps :=
                                   (case wt_probe t of Some f \<Rightarrow> f (ws_rps ws2)
                                    | None \<Rightarrow> markHealthy (wt_started t) (ws_rps ws2))\<rparr>)))"

text \<open>A limit on the number of restarts is respected.\<close>

lemma watch_attempts_bounded:
  "0 < rs_MaxAttempts pol \<Longrightarrow> ws_attempts ws \<le> rs_MaxAttempts pol \<Longrightarrow>
   ws_attempts (snd (watchReplica pol ts ws)) \<le> rs_MaxAttempts pol"
proof (induction pol ts ws rule: watchReplica.induct)
  case (2 pol t ts ws)
  show ?case
    using 2(3,4) 2(1,2) by (auto simp: Let_def split: option.split start_result.split)
qed simp

text \<open>A turn in which the container exits, nothing is stopped, and the restart does not find the
  container gone.\<close>

definition crash_turn :: "watch_turn \<Rightarrow> bool" where
  "crash_turn t \<longleftrightarrow> \<not> wt_stop_first t \<and> \<not> wt_stop_wait t \<and> \<not> wt_stop_delay t \<and> wt_start t \<noteq> StartNotFound"

lemma watch_panics:
  assumes "rs_Kind pol = RestartAlways" "rs_MaxAttempts pol \<le> 0" "rs_Backoff pol = None"
    "list_all crash_turn ts" "56 \<le> ws_attempts ws + int (length ts)" "0 \<le> ws_attempts ws" "ws_attempts ws < 56"
  shows "fst (watchReplica pol ts ws) = WatchPanic \<and> ws_attempts (snd (watchReplica pol ts ws)) = 56"
  using assms
proof (induction pol ts ws rule: watchReplica.induct)
  case (2 pol t ts ws)
  have c: "\<not> wt_stop_first t" "\<not> wt_stop_wait t" "\<not> wt_stop_delay t" "wt_start t \<noteq> StartNotFound"
    using 2(6) by (simp_all add: crash_turn_def)
  have d: "restart_delay pol (ws_attempts ws + 1) (wt_rnd t) = None \<longleftrightarrow> ws_attempts ws + 1 = 56"
  proof (cases "ws_attempts ws + 1 \<le> 55")
    case True
    obtain x where "defaultBackoff (ws_attempts ws + 1) (wt_rnd t) = Some x"
      using conjunct2 [OF backoff_cases [of "ws_attempts ws + 1" "wt_rnd t"]] by blast
    with True backoff_cases [of "ws_attempts ws + 1" "wt_rnd t"] 2(5)
    show ?thesis by (simp add: restart_delay_def)
  next
    case False
    with backoff_cases [of "ws_attempts ws + 1" "wt_rnd t"] 2(5,9)
    show ?thesis by (simp add: restart_delay_def)
  qed
  show ?case
  proof (cases "ws_attempts ws + 1 = 56")
    case True
    then show ?thesis using c d 2(3,4) by (simp add: Let_def should_restart_def)
  next
    case False
    then obtain x where "restart_delay pol (ws_attempts ws + 1) (wt_rnd t) = Some x" using d by auto
    with False c 2 show ?thesis by (cases "wt_start t") (simp_all add: Let_def should_restart_def)
  qed
qed simp

text \<open>C27: A container that keeps crashing takes the process down: under \<open>RestartAlways\<close> without a limit
  and with the default backoff, the 56th restart panics, whatever the exits and whether the starts
  succeed. With a limit the number of restarts never exceeds it.\<close>

theorem crash_loop_panics:
  assumes "rs_Kind pol = RestartAlways" "rs_MaxAttempts pol = 0" "rs_Backoff pol = None"
    "list_all crash_turn ts" "56 \<le> length ts" "ws_attempts ws = 0" "0 < lim"
  shows "fst (watchReplica pol ts ws) = WatchPanic \<and> ws_attempts (snd (watchReplica pol ts ws)) = 56 \<and>
    ws_attempts (snd (watchReplica (pol\<lparr>rs_MaxAttempts := lim\<rparr>) ts ws)) \<le> lim"
  using watch_panics [of pol ts ws] watch_attempts_bounded [of "pol\<lparr>rs_MaxAttempts := lim\<rparr>" ws ts] assms by simp

definition sample_turn :: watch_turn where
  "sample_turn = \<lparr>wt_stop_first = False, wt_stop_wait = False, wt_exitCode = 1, wt_exitErr = None, wt_now = 1,
     wt_rnd = 5, wt_stop_delay = False, wt_start = StartOk, wt_started = 2, wt_probe = None\<rparr>"

definition sample_watch :: watch_state where
  "sample_watch = \<lparr>ws_attempts = 0, ws_rps = newReplicaProbeState ''s'' 0 ''c'', ws_monitor = True, ws_events = []\<rparr>"

definition sample_policy :: RestartPolicy where
  "sample_policy = \<lparr>rs_Kind = RestartAlways, rs_MaxAttempts = 0, rs_Backoff = None\<rparr>"

theorem crash_loop_panics_witness:
  "fst (watchReplica sample_policy (replicate 60 sample_turn) sample_watch) = WatchPanic"
proof -
  have "list_all crash_turn (replicate 60 sample_turn)" by (simp add: list_all_iff crash_turn_def sample_turn_def)
  then show ?thesis
    using crash_loop_panics [of sample_policy "replicate 60 sample_turn" sample_watch 3]
    by (simp add: sample_policy_def sample_watch_def)
qed

end
