(* ===== verification/Task_Worker.thy ===== *)
theory Task_Worker imports
  Task_Store
  Retry_Backoff
begin

text \<open>
  The task worker (\<^verbatim>\<open>providers/tasks/worker.go\<close>) over any backend of the \<^verbatim>\<open>Store\<close> interface: its
  construction, the claim loop with its walk over the queues, the dispatch of one task with the
  heartbeats meanwhile and the finalizing call, the maintenance loop, and the identifiers
  (\<^verbatim>\<open>newWorkerID\<close>, and \<^verbatim>\<open>newID\<close> of \<^verbatim>\<open>memory.go\<close>). What other goroutines do to the store while a handler
  runs is part of a dispatch's environment. Spans and metrics are left out.
\<close>

section \<open>The store interface\<close>

text \<open>The errors a backend may return: the package's own, a cancelled context, and any other.\<close>

datatype store_error = SE task_error | SE_Canceled | SE_Other string

record 's store_ops =
  so_Claim :: "gotime \<Rightarrow> 's \<Rightarrow> string \<Rightarrow> string \<Rightarrow> duration \<Rightarrow> (store_error + task_record option) \<times> 's"
  so_Heartbeat :: "gotime \<Rightarrow> 's \<Rightarrow> string \<Rightarrow> string \<Rightarrow> duration \<Rightarrow> (store_error + unit) \<times> 's"
  so_Complete :: "gotime \<Rightarrow> 's \<Rightarrow> string \<Rightarrow> string \<Rightarrow> (store_error + unit) \<times> 's"
  so_Fail :: "gotime \<Rightarrow> 's \<Rightarrow> string \<Rightarrow> string \<Rightarrow> string \<Rightarrow> gotime option \<Rightarrow> (store_error + unit) \<times> 's"
  so_Promote :: "'s \<Rightarrow> string \<Rightarrow> gotime \<Rightarrow> (store_error + nat) \<times> 's"
  so_Reclaim :: "'s \<Rightarrow> string \<Rightarrow> gotime \<Rightarrow> (store_error + nat) \<times> 's"
  so_QueueStats :: "gotime \<Rightarrow> 's \<Rightarrow> string \<Rightarrow> store_error + queue_stats"

definition lift_error :: "(task_error + 'a) \<times> 's \<Rightarrow> (store_error + 'a) \<times> 's" where
  "lift_error p = (case p of (Inl e, s) \<Rightarrow> (Inl (SE e), s) | (Inr x, s) \<Rightarrow> (Inr x, s))"

text \<open>The memory store as a backend; it never looks at the context.\<close>

definition memory_ops :: "memory_store store_ops" where
  "memory_ops =
     \<lparr>so_Claim = (\<lambda>now s q w v. lift_error (Claim now s q w v)),
      so_Heartbeat = (\<lambda>now s i w v. lift_error (Heartbeat now s i w v)),
      so_Complete = (\<lambda>now s i w. lift_error (Complete now s i w)),
      so_Fail = (\<lambda>now s i w m n. lift_error (Fail now s i w m n)),
      so_Promote = (\<lambda>s q now. case PromoteScheduled s q now of (k, s') \<Rightarrow> (Inr k, s')),
      so_Reclaim = (\<lambda>s q now. case ReclaimExpired s q now of (k, s') \<Rightarrow> (Inr k, s')),
      so_QueueStats = (\<lambda>now s q. Inr (QueueStats now s q))\<rparr>"

section \<open>Construction\<close>

text \<open>A backoff maps the attempt and the drawn number to a delay, or panics (\<open>None\<close>). A handler's result
  may depend on more than the task: \<open>nat\<close> stands for the rest of the world. The callback
  \<^verbatim>\<open>OnError\<close> is present or not; what it is told is collected in the worker.\<close>

type_synonym backoff = "int \<Rightarrow> int \<Rightarrow> duration option"

datatype handler_result = HandlerOk | HandlerErr string | HandlerPanic string

type_synonym handler = "nat \<Rightarrow> task \<Rightarrow> handler_result"

record 's WorkerOpts =
  wo_Store :: "'s store_ops option"
  wo_Queues :: "string list"
  wo_Concurrency :: int
  wo_VisibilityTimeout :: duration
  wo_HeartbeatInterval :: duration
  wo_DefaultTimeout :: duration
  wo_DefaultMaxRetries :: int
  wo_PollInterval :: duration
  wo_MaintenanceInterval :: duration
  wo_Backoff :: "backoff option"
  wo_OnError :: bool
  wo_WorkerID :: string

text \<open>The worker: the options after construction, with the store and the backoff that are present from
  then on, the handlers, the flag, the counters, and the reported errors.\<close>

record 's worker =
  wk_opts :: "'s WorkerOpts"
  wk_store :: "'s store_ops"
  wk_backoff :: backoff
  wk_handlers :: "(string \<times> handler) list"
  wk_running :: bool
  wk_enqueued :: "64 word"
  wk_claimed :: "64 word"
  wk_completed :: "64 word"
  wk_failed :: "64 word"
  wk_retried :: "64 word"
  wk_cancelled :: "64 word"
  wk_inflight :: int
  wk_reports :: "(string \<times> string \<times> store_error) list"

text \<open>\<^verbatim>\<open>rand.Read\<close> yields eight bytes or fails (\<open>None\<close>); \<open>nanos\<close> is the clock as \<^verbatim>\<open>UnixNano\<close>.\<close>

definition newWorkerID :: "bytes option \<Rightarrow> nat \<Rightarrow> string" where
  "newWorkerID rnd nanos =
     ''w-'' @ hex_EncodeToString (case rnd of Some b \<Rightarrow> take 8 b | None \<Rightarrow> big_endian 8 nanos)"

definition newID :: "nat \<Rightarrow> bytes option \<Rightarrow> nat \<Rightarrow> string" where
  "newID nanos rnd nanos2 =
     hex_EncodeToString (big_endian 8 nanos @ (case rnd of Some b \<Rightarrow> take 8 b | None \<Rightarrow> big_endian 8 nanos2))"

definition default_opts :: "string \<Rightarrow> 's WorkerOpts \<Rightarrow> 's WorkerOpts" where
  "default_opts newid o0 =
     (let o1 = (if wo_Queues o0 = [] then o0\<lparr>wo_Queues := [''default'']\<rparr> else o0);
          o2 = (if wo_Concurrency o1 \<le> 0 then o1\<lparr>wo_Concurrency := 16\<rparr> else o1);
          o3 = (if wo_VisibilityTimeout o2 \<le> 0 then o2\<lparr>wo_VisibilityTimeout := 30 * second\<rparr> else o2);
          o4 = (if wo_HeartbeatInterval o3 \<le> 0 then o3\<lparr>wo_HeartbeatInterval := wo_VisibilityTimeout o3 div 3\<rparr> else o3);
          o5 = (if wo_DefaultTimeout o4 \<le> 0 then o4\<lparr>wo_DefaultTimeout := 5 * minute\<rparr> else o4);
          o6 = (if wo_DefaultMaxRetries o5 = 0 then o5\<lparr>wo_DefaultMaxRetries := 5\<rparr> else o5);
          o7 = (if wo_PollInterval o6 \<le> 0 then o6\<lparr>wo_PollInterval := 25 * millisecond\<rparr> else o6);
          o8 = (if wo_MaintenanceInterval o7 \<le> 0 then o7\<lparr>wo_MaintenanceInterval := 250 * millisecond\<rparr> else o7);
          o9 = (case wo_Backoff o8 of None \<Rightarrow> o8\<lparr>wo_Backoff := Some defaultBackoff\<rparr> | Some f \<Rightarrow> o8)
      in if wo_WorkerID o9 = [] then o9\<lparr>wo_WorkerID := newid\<rparr> else o9)"

definition NewWorker :: "string \<Rightarrow> 's WorkerOpts \<Rightarrow> string + 's worker" where
  "NewWorker newid opts =
     (case wo_Store opts of
        None \<Rightarrow> Inl ''tasks.NewWorker: Store is required''
      | Some st \<Rightarrow>
          let o' = default_opts newid opts
          in Inr \<lparr>wk_opts = o', wk_store = st,
                  wk_backoff = (case wo_Backoff o' of Some f \<Rightarrow> f | None \<Rightarrow> defaultBackoff),
                  wk_handlers = [], wk_running = False, wk_enqueued = 0, wk_claimed = 0, wk_completed = 0,
                  wk_failed = 0, wk_retried = 0, wk_cancelled = 0, wk_inflight = 0, wk_reports = []\<rparr>)"

text \<open>A nil handler is \<open>None\<close>.\<close>

definition registerHandler :: "string \<Rightarrow> handler option \<Rightarrow> 's worker \<Rightarrow> (string + unit) \<times> 's worker" where
  "registerHandler typeName h w =
     (if typeName = [] then (Inl ''tasks.Worker.Register: typeName must not be empty'', w)
      else case h of
        None \<Rightarrow> (Inl ''tasks.Worker.Register: handler must not be nil'', w)
      | Some f \<Rightarrow>
          if map_of (wk_handlers w) typeName \<noteq> None
          then (Inl (''tasks.Worker.Register: handler '' @ go_quote typeName @ '' already registered''), w)
          else (Inr (), w\<lparr>wk_handlers := alist_put typeName f (wk_handlers w)\<rparr>))"

definition lookupHandler :: "'s worker \<Rightarrow> string \<Rightarrow> handler option" where
  "lookupHandler w typeName = map_of (wk_handlers w) typeName"

definition worker_reportErr :: "string \<Rightarrow> store_error \<Rightarrow> 's worker \<Rightarrow> 's worker" where
  "worker_reportErr op err w =
     (if wo_OnError (wk_opts w)
      then w\<lparr>wk_reports := wk_reports w @ [(wo_WorkerID (wk_opts w), op, err)]\<rparr> else w)"

text \<open>The start of \<open>Run\<close>: the flag, and the slots of the claim loops it starts.\<close>

definition Run_start :: "'s worker \<Rightarrow> string + ('s worker \<times> nat list)" where
  "Run_start w =
     (if wk_running w then Inl ''tasks.Worker.Run: already running''
      else Inr (w\<lparr>wk_running := True\<rparr>, [0..<nat (wo_Concurrency (wk_opts w))]))"

section \<open>Statistics\<close>

record worker_stats =
  st_Enqueued :: "64 word"
  st_Claimed :: "64 word"
  st_Completed :: "64 word"
  st_Failed :: "64 word"
  st_Retried :: "64 word"
  st_Cancelled :: "64 word"
  st_Inflight :: int
  st_QueueDepths :: "(string \<times> nat) list"
  st_OldestPending :: duration

fun queue_depths ::
  "'s worker \<Rightarrow> (string \<Rightarrow> gotime) \<Rightarrow> 's \<Rightarrow> string list \<Rightarrow> (string \<times> nat) list \<times> duration \<Rightarrow> (string \<times> nat) list \<times> duration"
where
  "queue_depths w nows s [] acc = acc"
| "queue_depths w nows s (q # qs) (depths, oldest) =
     (case so_QueueStats (wk_store w) (nows q) s q of
        Inl _ \<Rightarrow> queue_depths w nows s qs (depths, oldest)
      | Inr stats \<Rightarrow>
          queue_depths w nows s qs
            (alist_put q (qs_pending stats) depths,
             if qs_oldest_pending_age stats > oldest then qs_oldest_pending_age stats else oldest))"

definition worker_Stats :: "(string \<Rightarrow> gotime) \<Rightarrow> 's worker \<Rightarrow> 's \<Rightarrow> worker_stats" where
  "worker_Stats nows w s =
     (let (depths, oldest) = queue_depths w nows s (wo_Queues (wk_opts w)) ([], 0)
      in \<lparr>st_Enqueued = wk_enqueued w, st_Claimed = wk_claimed w, st_Completed = wk_completed w,
          st_Failed = wk_failed w, st_Retried = wk_retried w, st_Cancelled = wk_cancelled w,
          st_Inflight = wk_inflight w, st_QueueDepths = depths, st_OldestPending = oldest\<rparr>)"

section \<open>One task\<close>

text \<open>The instant at which the attempt's context ends: the task's timeout or the default one, capped by
  the deadline.\<close>

definition attempt_deadline :: "gotime \<Rightarrow> 's worker \<Rightarrow> task \<Rightarrow> gotime" where
  "attempt_deadline now w t =
     (let timeout = (if t_timeout t \<le> 0 then wo_DefaultTimeout (wk_opts w) else t_timeout t)
      in if \<not> is_zero_time (t_deadline t) then min (now + timeout) (t_deadline t) else now + timeout)"

text \<open>What happens while a handler runs: ticks of the heartbeat goroutine, the end of the attempt's
  context, and the operations of other goroutines on the store.\<close>

datatype 's meanwhile = HbTick gotime | AttemptDone | Elsewhere "'s \<Rightarrow> 's"

fun heartbeat_loop ::
  "'s worker \<Rightarrow> string \<Rightarrow> bool \<Rightarrow> 's meanwhile list \<Rightarrow> 's \<Rightarrow> 's worker \<times> 's"
where
  "heartbeat_loop w tid alive [] s = (w, s)"
| "heartbeat_loop w tid alive (Elsewhere f # ms) s = heartbeat_loop w tid alive ms (f s)"
| "heartbeat_loop w tid alive (AttemptDone # ms) s = heartbeat_loop w tid False ms s"
| "heartbeat_loop w tid alive (HbTick now # ms) s =
     (if \<not> alive then heartbeat_loop w tid alive ms s
      else case so_Heartbeat (wk_store w) now s tid (wo_WorkerID (wk_opts w)) (wo_VisibilityTimeout (wk_opts w)) of
        (Inr _, s') \<Rightarrow> heartbeat_loop w tid alive ms s'
      | (Inl err, s') \<Rightarrow>
          if err = SE ErrNotOwner then heartbeat_loop w tid False ms s'
          else if err \<noteq> SE_Canceled then heartbeat_loop (worker_reportErr ''heartbeat'' err w) tid alive ms s'
          else heartbeat_loop w tid alive ms s')"

text \<open>A handler that panics counts as one that failed.\<close>

definition run_handler :: "handler \<Rightarrow> nat \<Rightarrow> task \<Rightarrow> string option" where
  "run_handler h world t =
     (case h world t of
        HandlerOk \<Rightarrow> None
      | HandlerErr e \<Rightarrow> Some e
      | HandlerPanic v \<Rightarrow> Some (''handler panicked: '' @ v))"

definition benign :: "store_error \<Rightarrow> bool" where
  "benign err \<longleftrightarrow> err = SE ErrNotOwner \<or> err = SE ErrAlreadyTerminal"

definition report_unless_benign :: "string \<Rightarrow> (store_error + unit) \<Rightarrow> 's worker \<Rightarrow> 's worker" where
  "report_unless_benign op res w =
     (case res of Inr _ \<Rightarrow> w | Inl err \<Rightarrow> if benign err then w else worker_reportErr op err w)"

definition retry_limit :: "int \<Rightarrow> task \<Rightarrow> int" where
  "retry_limit dflt t = (case t_max_retries t of Some n \<Rightarrow> n | None \<Rightarrow> dflt)"

text \<open>The readings and draws of a dispatch: the clock at the finalizing call and at the computation of
  the next attempt, the number the backoff draws, the world the handler sees.\<close>

record 's dispatch_env =
  de_meanwhile :: "'s meanwhile list"
  de_world :: nat
  de_now :: gotime
  de_next :: gotime
  de_rnd :: int

text \<open>The end of a dispatch; \<open>None\<close> is a panicking backoff, which takes the process down.\<close>

definition finalize_attempt ::
  "'s dispatch_env \<Rightarrow> task_record \<Rightarrow> string option \<Rightarrow> 's worker \<Rightarrow> 's \<Rightarrow> ('s worker \<times> 's) option"
where
  "finalize_attempt env rec handlerErr w s =
     (let tid = t_id (r_task rec); me = wo_WorkerID (wk_opts w) in
      case handlerErr of
        None \<Rightarrow>
          (case so_Complete (wk_store w) (de_now env) s tid me of
             (res, s') \<Rightarrow>
               let w' = report_unless_benign ''complete'' res w
               in Some (w'\<lparr>wk_completed := wk_completed w' + 1\<rparr>, s'))
      | Some msg \<Rightarrow>
          let maxRetries = retry_limit (wo_DefaultMaxRetries (wk_opts w)) (r_task rec) in
          if int (r_attempts rec) \<le> maxRetries then
            (case wk_backoff w (int (r_attempts rec)) (de_rnd env) of
               None \<Rightarrow> None
             | Some delay \<Rightarrow>
                 (case so_Fail (wk_store w) (de_now env) s tid me msg (Some (de_next env + delay)) of
                    (res, s') \<Rightarrow> Some (report_unless_benign ''fail'' res (w\<lparr>wk_retried := wk_retried w + 1\<rparr>), s')))
          else
            (case so_Fail (wk_store w) (de_now env) s tid me msg None of
               (res, s') \<Rightarrow> Some (report_unless_benign ''fail'' res (w\<lparr>wk_failed := wk_failed w + 1\<rparr>), s')))"

definition dispatchOne ::
  "'s dispatch_env \<Rightarrow> task_record \<Rightarrow> 's worker \<Rightarrow> 's \<Rightarrow> ('s worker \<times> 's) option"
where
  "dispatchOne env rec w s =
     (let w1 = w\<lparr>wk_inflight := wk_inflight w + 1\<rparr>;
          leave = (\<lambda>w. w\<lparr>wk_inflight := wk_inflight w - 1\<rparr>)
      in case lookupHandler w1 (t_type (r_task rec)) of
           None \<Rightarrow>
             let failMsg = ''no handler registered for type '' @ go_quote (t_type (r_task rec))
             in (case so_Fail (wk_store w1) (de_now env) s (t_id (r_task rec)) (wo_WorkerID (wk_opts w1)) failMsg None of
                   (res, s') \<Rightarrow>
                     let w2 = report_unless_benign ''fail-unknown-handler'' res w1
                     in Some (leave (w2\<lparr>wk_failed := wk_failed w2 + 1\<rparr>), s'))
         | Some h \<Rightarrow>
             (case heartbeat_loop w1 (t_id (r_task rec)) True (de_meanwhile env) s of
                (w2, s2) \<Rightarrow>
                  map_option (\<lambda>(w3, s3). (leave w3, s3))
                    (finalize_attempt env rec (run_handler h (de_world env) (r_task rec)) w2 s2)))"

section \<open>The claim loop\<close>

datatype scan_result = ScanStop | ScanHit task_record nat | ScanMiss

text \<open>The walk over the queues from \<open>queueIdx\<close> on; \<open>nows\<close> are the clock readings of the calls. A hit
  carries the record and the index to start from next time.\<close>

fun scan_queues ::
  "'s worker \<Rightarrow> nat \<Rightarrow> (nat \<Rightarrow> gotime) \<Rightarrow> nat list \<Rightarrow> 's \<Rightarrow> scan_result \<times> 's worker \<times> 's"
where
  "scan_queues w queueIdx nows [] s = (ScanMiss, w, s)"
| "scan_queues w queueIdx nows (tried # rest) s =
     (let qs = wo_Queues (wk_opts w); q = qs ! ((queueIdx + tried) mod length qs) in
      case so_Claim (wk_store w) (nows tried) s q (wo_WorkerID (wk_opts w)) (wo_VisibilityTimeout (wk_opts w)) of
        (Inl err, s') \<Rightarrow>
          if err = SE ErrQueueClosed \<or> err = SE_Canceled then (ScanStop, w, s')
          else scan_queues (worker_reportErr ''claim'' err w) queueIdx nows rest s'
      | (Inr (Some rec), s') \<Rightarrow> (ScanHit rec ((queueIdx + tried + 1) mod length qs), w, s')
      | (Inr None, s') \<Rightarrow> scan_queues w queueIdx nows rest s')"

definition claim_round ::
  "'s worker \<Rightarrow> nat \<Rightarrow> (nat \<Rightarrow> gotime) \<Rightarrow> 's \<Rightarrow> scan_result \<times> 's worker \<times> 's"
where
  "claim_round w queueIdx nows s = scan_queues w queueIdx nows [0..<length (wo_Queues (wk_opts w))] s"

text \<open>One turn of the loop: whether the run's context has ended at its head and while polling, the clock
  readings, and the environment of the dispatch.\<close>

record 's claim_turn =
  ct_ctx :: bool
  ct_nows :: "nat \<Rightarrow> gotime"
  ct_poll_ctx :: bool
  ct_dispatch :: "'s dispatch_env"

datatype loop_end = LoopReturned | LoopPanicked | LoopRunning

fun claim_turns ::
  "'s claim_turn list \<Rightarrow> nat \<Rightarrow> 's worker \<Rightarrow> 's \<Rightarrow> loop_end \<times> 's worker \<times> 's"
where
  "claim_turns [] queueIdx w s = (LoopRunning, w, s)"
| "claim_turns (t # ts) queueIdx w s =
     (if ct_ctx t then (LoopReturned, w, s)
      else case claim_round w queueIdx (ct_nows t) s of
        (ScanStop, w', s') \<Rightarrow> (LoopReturned, w', s')
      | (ScanMiss, w', s') \<Rightarrow>
          if ct_poll_ctx t then (LoopReturned, w', s') else claim_turns ts queueIdx w' s'
      | (ScanHit rec queueIdx', w', s') \<Rightarrow>
          (case dispatchOne (ct_dispatch t) rec (w'\<lparr>wk_claimed := wk_claimed w' + 1\<rparr>) s' of
             None \<Rightarrow> (LoopPanicked, w', s')
           | Some (w'', s'') \<Rightarrow> claim_turns ts queueIdx' w'' s''))"

definition claimLoop :: "nat \<Rightarrow> 's claim_turn list \<Rightarrow> 's worker \<Rightarrow> 's \<Rightarrow> loop_end \<times> 's worker \<times> 's" where
  "claimLoop slot ts w s = claim_turns ts (slot mod length (wo_Queues (wk_opts w))) w s"

section \<open>The maintenance loop\<close>

definition quiet :: "store_error \<Rightarrow> bool" where
  "quiet err \<longleftrightarrow> err = SE_Canceled \<or> err = SE ErrQueueClosed"

definition report_unless_quiet :: "string \<Rightarrow> (store_error + 'a) \<Rightarrow> 's worker \<Rightarrow> 's worker" where
  "report_unless_quiet op res w =
     (case res of Inr _ \<Rightarrow> w | Inl err \<Rightarrow> if quiet err then w else worker_reportErr op err w)"

fun maintain_queues :: "gotime \<Rightarrow> string list \<Rightarrow> 's worker \<Rightarrow> 's \<Rightarrow> 's worker \<times> 's" where
  "maintain_queues now [] w s = (w, s)"
| "maintain_queues now (q # qs) w s =
     (case so_Promote (wk_store w) s q now of
        (res1, s1) \<Rightarrow>
          let w1 = report_unless_quiet ''promote-scheduled'' res1 w in
          case so_Reclaim (wk_store w1) s1 q now of
            (res2, s2) \<Rightarrow> maintain_queues now qs (report_unless_quiet ''reclaim-expired'' res2 w1) s2)"

text \<open>The ticks until the context ends.\<close>

fun maintenanceLoop :: "gotime list \<Rightarrow> 's worker \<Rightarrow> 's \<Rightarrow> 's worker \<times> 's" where
  "maintenanceLoop [] w s = (w, s)"
| "maintenanceLoop (now # ticks) w s =
     (case maintain_queues now (wo_Queues (wk_opts w)) w s of (w', s') \<Rightarrow> maintenanceLoop ticks w' s')"

section \<open>Identifiers\<close>

text \<open>Identifiers sort by the instant they were drawn at.\<close>

lemma newID_sorts:
  assumes "m < n" "n < 2 ^ 64" "length b = 8" "length b' = 8"
  shows "newID m (Some b) m' < newID n (Some b') n'"
proof -
  have "(2 :: nat) ^ 64 = 256 ^ 8" by simp
  with assms(1,2) have "big_endian 8 m @ b < big_endian 8 n @ b'" by (simp add: big_endian_less mod_less)
  with assms(3,4) show ?thesis by (simp add: newID_def hex_less)
qed

lemma newID_distinct:
  assumes "length b = 8" "length b' = 8" "newID m (Some b) m' = newID n (Some b') n'"
  shows "b = b' \<and> m mod 2 ^ 64 = n mod 2 ^ 64"
proof -
  have eq: "big_endian 8 m @ b = big_endian 8 n @ b'" using assms by (simp add: newID_def hex_injective)
  then have "b = b'" "\<not> big_endian 8 m @ b < big_endian 8 n @ b'" "\<not> big_endian 8 n @ b' < big_endian 8 m @ b" by simp_all
  moreover have "(2 :: nat) ^ 64 = 256 ^ 8" by simp
  ultimately show ?thesis unfolding big_endian_less by (metis linorder_neqE_nat)
qed

end
