(* ===== verification/Task_Fleet.thy ===== *)
theory Task_Fleet imports Task_Worker
begin

text \<open>
  A fleet of workers on one memory store. Every atomic operation of every goroutine is a step: claims
  put a copy of the record in flight, heartbeats and maintenance come in between, a finished attempt
  takes its copy out of flight and finalizes it, a process may die and drop its copies. The ghost
  components record the identifiers ever used, the retry limit each task came with, and how often its
  lease expired. Proved: the number of attempts is bounded by the retry limit and the expired leases.
\<close>

record fleet =
  fl_store :: memory_store
  fl_flight :: "task_record list"
  fl_seen :: "string set"
  fl_limit :: "string \<Rightarrow> nat"
  fl_expiries :: "string \<Rightarrow> nat"

definition new_fleet :: "duration \<Rightarrow> fleet" where
  "new_fleet window = \<lparr>fl_store = NewMemoryStore window, fl_flight = [], fl_seen = {}, fl_limit = (\<lambda>_. 0), fl_expiries = (\<lambda>_. 0)\<rparr>"

text \<open>The workers of the fleet share the store and the default number of retries \<open>D\<close>.\<close>

definition fleet_worker :: "int \<Rightarrow> memory_store worker \<Rightarrow> bool" where
  "fleet_worker D w \<longleftrightarrow> wk_store w = memory_ops \<and> wo_DefaultMaxRetries (wk_opts w) = D"

definition lease_expires :: "memory_store \<Rightarrow> string \<Rightarrow> gotime \<Rightarrow> string \<Rightarrow> bool" where
  "lease_expires s queue now i \<longleftrightarrow> (\<exists>r. record_of s i = Some r \<and> expired (queue_name queue) now r)"

inductive fleet_step :: "int \<Rightarrow> fleet \<Rightarrow> fleet \<Rightarrow> bool" for D where
  enqueue: "fresh_id (fl_store f) (t_id (fill_task newid t)) \<Longrightarrow> t_id (fill_task newid t) \<notin> fl_seen f \<Longrightarrow>
    Enqueue now0 now newid (fl_store f) t = (Inr r, s') \<Longrightarrow>
    fleet_step D f (f\<lparr>fl_store := s', fl_seen := insert (t_id (r_task r)) (fl_seen f),
      fl_limit := (fl_limit f)(t_id (r_task r) := nat (retry_limit D (r_task r)))\<rparr>)"
| claim: "fleet_worker D w \<Longrightarrow>
    claim_round w queueIdx nows (fl_store f) = (res, w', s') \<Longrightarrow>
    fleet_step D f (f\<lparr>fl_store := s',
      fl_flight := (case res of ScanHit rec _ \<Rightarrow> rec # fl_flight f | _ \<Rightarrow> fl_flight f)\<rparr>)"
| finish: "fleet_worker D w \<Longrightarrow> rec \<in> set (fl_flight f) \<Longrightarrow>
    finalize_attempt env rec outcome w (fl_store f) = Some (w', s') \<Longrightarrow>
    fleet_step D f (f\<lparr>fl_store := s', fl_flight := remove1 rec (fl_flight f)\<rparr>)"
| unknown_handler: "rec \<in> set (fl_flight f) \<Longrightarrow>
    fleet_step D f (f\<lparr>fl_store := snd (Fail now (fl_store f) (t_id (r_task rec)) me msg None),
      fl_flight := remove1 rec (fl_flight f)\<rparr>)"
| crash: "fleet_step D f (f\<lparr>fl_flight := remove1 rec (fl_flight f)\<rparr>)"
| heartbeat: "fleet_step D f (f\<lparr>fl_store := snd (Heartbeat now (fl_store f) i me ext)\<rparr>)"
| cancel: "fleet_step D f (f\<lparr>fl_store := snd (Cancel now (fl_store f) i)\<rparr>)"
| promote: "fleet_step D f (f\<lparr>fl_store := snd (PromoteScheduled (fl_store f) queue now)\<rparr>)"
| reclaim: "fleet_step D f (f\<lparr>fl_store := snd (ReclaimExpired (fl_store f) queue now),
      fl_expiries := (\<lambda>i. fl_expiries f i + (if lease_expires (fl_store f) queue now i then 1 else 0))\<rparr>)"
| purge: "fleet_step D f (f\<lparr>fl_store := snd (PurgeOlderThan (fl_store f) cutoff)\<rparr>)"
| close: "fleet_step D f (f\<lparr>fl_store := Close (fl_store f)\<rparr>)"

section \<open>The budget\<close>

definition in_flight :: "string \<Rightarrow> nat \<Rightarrow> task_record list \<Rightarrow> nat" where
  "in_flight i L F = length (filter (\<lambda>c. t_id (r_task c) = i \<and> r_attempts c \<le> L) F)"

definition asleep :: "task_record \<Rightarrow> bool" where
  "asleep r \<longleftrightarrow> r_state r = StatePending \<or> r_state r = StateScheduled"

definition budget_ok :: "nat \<Rightarrow> nat \<Rightarrow> nat \<Rightarrow> task_record \<Rightarrow> bool" where
  "budget_ok L u rc r \<longleftrightarrow> r_attempts r + u \<le> min (r_attempts r) L + rc + (if asleep r then 0 else 1)"

definition fleet_inv :: "int \<Rightarrow> fleet \<Rightarrow> bool" where
  "fleet_inv D f \<longleftrightarrow> store_inv (fl_store f) \<and>
     (\<forall>i r. record_of (fl_store f) i = Some r \<longrightarrow> i \<in> fl_seen f \<and>
        retry_limit D (r_task r) \<le> int (fl_limit f i) \<and>
        budget_ok (fl_limit f i) (in_flight i (fl_limit f i) (fl_flight f)) (fl_expiries f i) r) \<and>
     (\<forall>c \<in> set (fl_flight f). t_id (r_task c) \<in> fl_seen f \<and> 0 < r_attempts c \<and>
        retry_limit D (r_task c) \<le> int (fl_limit f (t_id (r_task c))))"

subsection \<open>Steps that only let go\<close>

definition tame :: "int \<Rightarrow> task_record \<Rightarrow> task_record \<Rightarrow> bool" where
  "tame D r r' \<longleftrightarrow> r_attempts r' = r_attempts r \<and> (asleep r' \<longrightarrow> asleep r) \<and>
     retry_limit D (r_task r') \<le> max 0 (retry_limit D (r_task r))"

definition tame_store :: "int \<Rightarrow> memory_store \<Rightarrow> memory_store \<Rightarrow> bool" where
  "tame_store D s s' \<longleftrightarrow> (\<forall>i r'. record_of s' i = Some r' \<longrightarrow> (\<exists>r. record_of s i = Some r \<and> tame D r r'))"

lemma tame_refl [simp]: "tame D r r"
  by (simp add: tame_def)

lemma tame_store_same: "record_of s' = record_of s \<Longrightarrow> tame_store D s s'"
  by (simp add: tame_store_def)

lemma in_flight_mono: "mset F' \<subseteq># mset F \<Longrightarrow> in_flight i L F' \<le> in_flight i L F"
  unfolding in_flight_def mset_filter [symmetric] size_mset [symmetric]
  by (intro size_mset_mono) (simp add: multiset_filter_mono)

lemma fleet_inv_tame:
  assumes inv: "fleet_inv D f" and s': "store_inv s'" and t: "tame_store D (fl_store f) s'"
    and F: "mset F' \<subseteq># mset (fl_flight f)"
  shows "fleet_inv D (f\<lparr>fl_store := s', fl_flight := F'\<rparr>)"
proof -
  have sub: "set F' \<subseteq> set (fl_flight f)" using F set_mset_mono by fastforce
  have "i \<in> fl_seen f \<and> retry_limit D (r_task r') \<le> int (fl_limit f i) \<and>
      budget_ok (fl_limit f i) (in_flight i (fl_limit f i) F') (fl_expiries f i) r'"
    if r': "record_of s' i = Some r'" for i r'
  proof -
    obtain r where r: "record_of (fl_store f) i = Some r" "tame D r r'" using t r' by (auto simp: tame_store_def)
    let ?L = "fl_limit f i"
    have "i \<in> fl_seen f" "retry_limit D (r_task r) \<le> int ?L"
      "budget_ok ?L (in_flight i ?L (fl_flight f)) (fl_expiries f i) r"
      using inv r(1) unfolding fleet_inv_def by blast+
    then show ?thesis
      using r(2) in_flight_mono [OF F, of i ?L] by (auto simp: tame_def budget_ok_def split: if_splits)
  qed
  then show ?thesis using inv s' sub by (auto simp: fleet_inv_def)
qed

lemma tame_put:
  assumes "record_of s j = Some r" "tame D r r'"
  shows "tame_store D s (put_record s j r')"
  using assms by (simp add: tame_store_def)

lemma tame_Heartbeat: "tame_store D s (snd (Heartbeat now s j w ext))"
  by (auto simp: Heartbeat_def Let_def tame_store_def tame_def asleep_def split: option.splits if_splits)

lemma tame_Complete: "tame_store D s (snd (Complete now s j w))"
  by (auto simp: Complete_def tame_store_def tame_def asleep_def split: option.splits if_splits)

lemma tame_Fail_None: "tame_store D s (snd (Fail now s j w msg None))"
  by (auto simp: Fail_def Let_def may_retry_def tame_store_def tame_def asleep_def split: option.splits if_splits)

lemma tame_Cancel: "tame_store D s (snd (Cancel now s j))"
  by (auto simp: Cancel_def tame_store_def tame_def asleep_def retry_limit_def split: option.splits if_splits task_state.splits)

lemma tame_Promote: "store_inv s \<Longrightarrow> tame_store D s (snd (PromoteScheduled s queue now))"
  using PromoteScheduled_spec [of s queue now]
  by (auto simp: tame_store_def map_of_promote_records tame_def asleep_def due_def split: if_splits)

lemma tame_Purge: "store_inv s \<Longrightarrow> tame_store D s (snd (PurgeOlderThan s cutoff))"
  using record_of_PurgeOlderThan [of s] by (auto simp: tame_store_def split: option.splits if_splits)

lemma tame_Close: "tame_store D s (Close s)"
  by (simp add: tame_store_def Close_def)

subsection \<open>Claims\<close>

lemma Claim_outcome:
  assumes inv: "store_inv s"
  obtains (idle) s' res where "Claim now s q me vis = (res, s')" "res = Inr None \<or> res = Inl ErrQueueClosed" "record_of s' = record_of s"
  | (hit) s' j r where "Claim now s q me vis = (Inr (Some (claimed_record now me vis r)), s')"
      "record_of s j = Some r" "r_state r = StatePending" "t_id (r_task r) = j" "t_queue (r_task r) = queue_name q"
      "record_of s' = (record_of s)(j \<mapsto> claimed_record now me vis r)"
proof (cases "s_closed s \<or> s_queues s (queue_name q) = None")
  case True
  then have "Claim now s q me vis = (if s_closed s then Inl ErrQueueClosed else Inr None, s)"
    by (auto simp: Claim_def)
  then show thesis by (rule idle) simp_all
next
  case False
  then obtain mq where mq: "s_queues s (queue_name q) = Some mq" and opn: "\<not> s_closed s" by auto
  from inv mq opn show thesis
  proof (cases rule: Claim_cases [where now = now and w = me and vis = vis])
    case (some j r h)
    then show thesis
      using hit [of r _ j] store_inv_recordD [OF inv some(2)] by (simp add: record_inv_def)
  qed (use idle in simp)
qed

lemma scan_outcome:
  assumes "store_inv s" "wk_store w = memory_ops" "scan_queues w k nows ts s = (res, w', s')"
  shows "store_inv s' \<and>
    (case res of
       ScanHit rec k' \<Rightarrow> \<exists>r now. record_of s (t_id (r_task r)) = Some r \<and> r_state r = StatePending \<and>
         rec = claimed_record now (wo_WorkerID (wk_opts w)) (wo_VisibilityTimeout (wk_opts w)) r \<and>
         record_of s' = (record_of s)(t_id (r_task r) \<mapsto> rec)
     | _ \<Rightarrow> record_of s' = record_of s)"
  using assms
proof (induction w k nows ts s rule: scan_queues.induct)
  case (2 w k nows t ts s)
  let ?q = "wo_Queues (wk_opts w) ! ((k + t) mod length (wo_Queues (wk_opts w)))"
  let ?me = "wo_WorkerID (wk_opts w)" and ?vis = "wo_VisibilityTimeout (wk_opts w)"
  note c = 2(5) [unfolded scan_queues.simps Let_def 2(4), simplified memory_ops_def store_ops.simps]
  from 2(3) show ?case
  proof (cases rule: Claim_outcome [where now = "nows t" and q = ?q and me = ?me and vis = ?vis])
    case (idle s1 r1)
    have i1: "store_inv s1" using store_inv_Claim [OF 2(3), of "nows t" ?q ?me ?vis] idle(1) by simp
    from idle(2) show ?thesis
    proof
      assume r1: "r1 = Inr None"
      have n: "scan_queues w k nows ts s1 = (res, w', s')" using c idle(1) r1 by (simp add: lift_error_def)
      have "so_Claim (wk_store w) (nows t) s ?q ?me ?vis = (Inr None, s1)"
        using idle(1) r1 2(4) by (simp add: memory_ops_def lift_error_def)
      from 2(2) [OF refl refl this [symmetric] refl refl i1 2(4) n] show ?thesis unfolding idle(3) .
    next
      assume "r1 = Inl ErrQueueClosed"
      then show ?thesis using c idle(1,3) i1 by (simp add: lift_error_def)
    qed
  next
    case (hit s1 j r)
    have "store_inv s1" using store_inv_Claim [OF 2(3), of "nows t" ?q ?me ?vis] hit(1) by simp
    moreover have "res = ScanHit (claimed_record (nows t) ?me ?vis r) ((k + t + 1) mod length (wo_Queues (wk_opts w)))" "s' = s1"
      using c hit(1) by (auto simp: lift_error_def)
    ultimately show ?thesis using hit(2-4,6) by (auto intro!: exI [of _ r] exI [of _ "nows t"])
  qed
qed auto

lemma in_flight_Cons:
  "in_flight i L (c # F) = in_flight i L F + (if t_id (r_task c) = i \<and> r_attempts c \<le> L then 1 else 0)"
  by (simp add: in_flight_def)

lemma in_flight_remove1:
  "c \<in> set F \<Longrightarrow> in_flight i L F = in_flight i L (remove1 c F) + (if t_id (r_task c) = i \<and> r_attempts c \<le> L then 1 else 0)"
  by (induction F) (auto simp: in_flight_Cons)

lemma fleet_invD:
  assumes "fleet_inv D f" "record_of (fl_store f) i = Some r"
  shows "i \<in> fl_seen f" "retry_limit D (r_task r) \<le> int (fl_limit f i)"
    "budget_ok (fl_limit f i) (in_flight i (fl_limit f i) (fl_flight f)) (fl_expiries f i) r" "t_id (r_task r) = i"
  using assms store_inv_recordD [of "fl_store f" i r] unfolding fleet_inv_def record_inv_def by blast+

lemma fleet_inv_claim:
  assumes inv: "fleet_inv D f" and w: "fleet_worker D w" and c: "claim_round w k nows (fl_store f) = (res, w', s')"
  shows "fleet_inv D (f\<lparr>fl_store := s', fl_flight := (case res of ScanHit rec _ \<Rightarrow> rec # fl_flight f | _ \<Rightarrow> fl_flight f)\<rparr>)"
proof -
  have si: "store_inv (fl_store f)" using inv by (simp add: fleet_inv_def)
  have mem: "wk_store w = memory_ops" using w by (simp add: fleet_worker_def)
  note o = scan_outcome [OF si mem c [unfolded claim_round_def]]
  show ?thesis
  proof (cases res)
    case (ScanHit rec k')
    obtain r now where r: "record_of (fl_store f) (t_id (r_task r)) = Some r" "r_state r = StatePending"
      "rec = claimed_record now (wo_WorkerID (wk_opts w)) (wo_VisibilityTimeout (wk_opts w)) r"
      "record_of s' = (record_of (fl_store f))(t_id (r_task r) \<mapsto> rec)"
      using o ScanHit by auto
    note d = fleet_invD [OF inv r(1)]
    let ?L = "fl_limit f (t_id (r_task r))" and ?i = "t_id (r_task r)"
    have "budget_ok ?L (in_flight ?i ?L (rec # fl_flight f)) (fl_expiries f ?i) rec"
      using d(3) r(2) by (auto simp: r(3) budget_ok_def in_flight_Cons asleep_def)
    then show ?thesis
      using inv o d(1,2) ScanHit r(4) by (auto simp: fleet_inv_def r(3) in_flight_Cons)
  qed (use o fleet_inv_tame [OF inv, of s' "fl_flight f"] tame_store_same [of s' "fl_store f"] in auto)
qed

subsection \<open>Finished attempts\<close>

lemma Fail_outcome:
  obtains (let_go) "tame_store D s (snd (Fail now s j me msg nx))"
  | (again) r r' where "record_of s j = Some r" "r_state r = StateRunning" "nx \<noteq> None"
      "r_attempts r' = r_attempts r" "r_task r' = r_task r" "r_state r' = StateScheduled"
      "record_of (snd (Fail now s j me msg nx)) = (record_of s)(j \<mapsto> r')"
proof (cases "record_of s j")
  case None
  then show thesis using let_go by (simp add: Fail_def tame_store_same)
next
  case (Some r)
  show thesis
  proof (cases "r_state r = StateRunning \<and> r_owner_worker r = me \<and> may_retry (r\<lparr>r_last_error := msg, r_owner_worker := ''''\<rparr>) nx")
    case True
    then show thesis
      using again [of r "r\<lparr>r_last_error := msg, r_owner_worker := '''', r_state := StateScheduled, r_next_attempt := the nx\<rparr>"] Some
      by (simp add: Fail_def Let_def may_retry_def split: option.splits)
  next
    case False
    then have "tame_store D s (snd (Fail now s j me msg nx))"
      using Some by (auto simp: Fail_def Let_def tame_store_def tame_def asleep_def split: if_splits)
    then show thesis by (rule let_go)
  qed
qed

lemma finalize_outcome:
  assumes "wk_store w = memory_ops" "finalize_attempt env rec outcome w s = Some (w', s')"
  obtains (completed) now me where "s' = snd (Complete now s (t_id (r_task rec)) me)"
  | (failed) now me msg where "s' = snd (Fail now s (t_id (r_task rec)) me msg None)"
  | (retried) now me msg at where "s' = snd (Fail now s (t_id (r_task rec)) me msg (Some at))"
      "int (r_attempts rec) \<le> retry_limit (wo_DefaultMaxRetries (wk_opts w)) (r_task rec)"
  using assms
  by (auto simp: finalize_attempt_def memory_ops_def lift_error_def Let_def case_prod_unfold snd_def [symmetric]
      split: option.splits if_splits sum.splits prod.splits intro: that)

lemma fleet_inv_finish:
  assumes inv: "fleet_inv D f" and w: "fleet_worker D w" and rec: "rec \<in> set (fl_flight f)"
    and fin: "finalize_attempt env rec outcome w (fl_store f) = Some (w', s')"
  shows "fleet_inv D (f\<lparr>fl_store := s', fl_flight := remove1 rec (fl_flight f)\<rparr>)"
proof -
  let ?F = "remove1 rec (fl_flight f)" and ?i = "t_id (r_task rec)"
  have F: "mset ?F \<subseteq># mset (fl_flight f)" by simp
  have si: "store_inv (fl_store f)" using inv by (simp add: fleet_inv_def)
  have w': "wk_store w = memory_ops" "wo_DefaultMaxRetries (wk_opts w) = D" using w by (simp_all add: fleet_worker_def)
  from w'(1) fin show ?thesis
  proof (cases rule: finalize_outcome)
    case (completed now me)
    then show ?thesis using fleet_inv_tame [OF inv store_inv_Complete [OF si] tame_Complete F] by simp
  next
    case (failed now me msg)
    then show ?thesis using fleet_inv_tame [OF inv store_inv_Fail [OF si] tame_Fail_None F] by simp
  next
    case (retried now me msg at)
    show ?thesis
    proof (cases rule: Fail_outcome [where D = D and s = "fl_store f" and now = now and j = ?i and me = me and msg = msg and nx = "Some at"])
      case let_go
      then show ?thesis using fleet_inv_tame [OF inv store_inv_Fail [OF si] _ F] retried(1) by simp
    next
      case (again r r')
      let ?L = "fl_limit f ?i"
      note d = fleet_invD [OF inv again(1)]
      have "retry_limit D (r_task rec) \<le> int ?L" using inv rec by (simp add: fleet_inv_def)
      then have "r_attempts rec \<le> ?L" using retried(2) w'(2) by simp
      then have "in_flight ?i ?L (fl_flight f) = in_flight ?i ?L ?F + 1" using in_flight_remove1 [OF rec, of ?i ?L] by simp
      then have b: "budget_ok ?L (in_flight ?i ?L ?F) (fl_expiries f ?i) r'"
        using d(3) again(2,4,6) by (simp add: budget_ok_def asleep_def)
      have "fleet_inv D (f\<lparr>fl_store := fl_store f, fl_flight := ?F\<rparr>)"
        by (rule fleet_inv_tame [OF inv si _ F]) (simp add: tame_store_same)
      then show ?thesis
        using b d(1,2) again(5,7) store_inv_Fail [OF si, of now ?i me msg "Some at"] retried(1)
        by (auto simp: fleet_inv_def)
    qed
  qed
qed

subsection \<open>Expired leases and new tasks\<close>

lemma fleet_inv_reclaim:
  assumes inv: "fleet_inv D f"
  shows "fleet_inv D (f\<lparr>fl_store := snd (ReclaimExpired (fl_store f) queue now),
      fl_expiries := (\<lambda>i. fl_expiries f i + (if lease_expires (fl_store f) queue now i then 1 else 0))\<rparr>)"
proof -
  have si: "store_inv (fl_store f)" using inv by (simp add: fleet_inv_def)
  let ?s = "snd (ReclaimExpired (fl_store f) queue now)"
  note sp = ReclaimExpired_spec [OF si, of queue now]
  have "i \<in> fl_seen f \<and> retry_limit D (r_task r') \<le> int (fl_limit f i) \<and>
      budget_ok (fl_limit f i) (in_flight i (fl_limit f i) (fl_flight f))
        (fl_expiries f i + (if lease_expires (fl_store f) queue now i then 1 else 0)) r'"
    if r': "record_of ?s i = Some r'" for i r'
  proof -
    obtain r where r: "record_of (fl_store f) i = Some r"
      "r' = (if expired (queue_name queue) now r then r\<lparr>r_state := StatePending, r_owner_worker := ''''\<rparr> else r)"
      using r' sp by (auto simp: map_of_reclaim_records)
    have "lease_expires (fl_store f) queue now i \<longleftrightarrow> expired (queue_name queue) now r"
      by (simp add: lease_expires_def r(1))
    then show ?thesis
      using fleet_invD [OF inv r(1)] r(2) by (auto simp: budget_ok_def asleep_def expired_def)
  qed
  then show ?thesis using inv sp by (auto simp: fleet_inv_def)
qed

lemma Enqueue_outcome:
  assumes "Enqueue now0 now newid s t = (Inr r, s')"
  shows "r_task r = fill_task newid t" "r_attempts r = 0" "asleep r"
    "record_of s' = (record_of s)(t_id (fill_task newid t) \<mapsto> r)"
  using assms
  by (auto simp: Enqueue_def insert_task_def Let_def evictDedupExpiredLocked_def asleep_def
      split: if_splits option.splits prod.splits)

lemma fleet_inv_enqueue:
  assumes inv: "fleet_inv D f" and new: "fresh_id (fl_store f) (t_id (fill_task newid t))" "t_id (fill_task newid t) \<notin> fl_seen f"
    and e: "Enqueue now0 now newid (fl_store f) t = (Inr r, s')"
  shows "fleet_inv D (f\<lparr>fl_store := s', fl_seen := insert (t_id (r_task r)) (fl_seen f),
      fl_limit := (fl_limit f)(t_id (r_task r) := nat (retry_limit D (r_task r)))\<rparr>)"
proof -
  note o = Enqueue_outcome [OF e]
  let ?i = "t_id (r_task r)"
  have i: "?i = t_id (fill_task newid t)" by (simp add: o(1))
  have "store_inv s'"
    using store_inv_Enqueue [of "fl_store f" t newid now0 now] inv new(1) e by (simp add: fleet_inv_def cong: if_cong)
  moreover have "t_id (r_task c) \<noteq> ?i" if "c \<in> set (fl_flight f)" for c
    using inv that new(2) i by (auto simp: fleet_inv_def)
  moreover have "in_flight ?i L (fl_flight f) = 0" for L using calculation(2) by (simp add: in_flight_def)
  ultimately show ?thesis
    using inv o(2-4) new(2) unfolding i [symmetric] by (auto simp: fleet_inv_def budget_ok_def)
qed

lemma fleet_inv_store: "fleet_inv D f \<Longrightarrow> store_inv (fl_store f)"
  by (simp add: fleet_inv_def)

lemma fleet_inv_tame_store:
  assumes "fleet_inv D f" "store_inv s'" "tame_store D (fl_store f) s'"
  shows "fleet_inv D (f\<lparr>fl_store := s'\<rparr>)"
  using fleet_inv_tame [OF assms, of "fl_flight f"] by simp

lemma fleet_inv_drop: "fleet_inv D f \<Longrightarrow> fleet_inv D (f\<lparr>fl_flight := remove1 rec (fl_flight f)\<rparr>)"
  using fleet_inv_tame [of D f "fl_store f" "remove1 rec (fl_flight f)"] by (simp add: fleet_inv_store tame_store_same)

lemma fleet_inv_unknown:
  assumes "fleet_inv D f"
  shows "fleet_inv D (f\<lparr>fl_store := snd (Fail now (fl_store f) i me msg None), fl_flight := remove1 rec (fl_flight f)\<rparr>)"
  by (rule fleet_inv_tame [OF assms store_inv_Fail [OF fleet_inv_store [OF assms]] tame_Fail_None]) simp

lemma fleet_inv_promote:
  "fleet_inv D f \<Longrightarrow> fleet_inv D (f\<lparr>fl_store := snd (PromoteScheduled (fl_store f) queue now)\<rparr>)"
  by (simp add: fleet_inv_tame_store fleet_inv_store PromoteScheduled_spec tame_Promote)

lemmas fleet_inv_steps =
  fleet_inv_claim fleet_inv_finish fleet_inv_reclaim fleet_inv_drop fleet_inv_unknown fleet_inv_promote

lemma fleet_step_inv: "fleet_step D f f' \<Longrightarrow> fleet_inv D f \<Longrightarrow> fleet_inv D f'"
proof (induction rule: fleet_step.induct)
  case enqueue
  then show ?case by (intro fleet_inv_enqueue)
qed (simp_all only: fleet_inv_steps fleet_inv_tame_store fleet_inv_store store_inv_ops
    tame_Heartbeat tame_Cancel tame_Purge tame_Close)

lemma fleet_inv_new: "fleet_inv D (new_fleet window)"
  using store_inv_NewMemoryStore [of window] by (simp add: fleet_inv_def new_fleet_def) (simp add: NewMemoryStore_def)

text \<open>C30: The retry budget. In any interleaving of any number of workers on one store, with crashing
  processes, cancellations and stale attempts that finish late, a task is attempted at most once
  more than its retry limit allows, plus once for every expired lease: \<open>fl_limit\<close> is the limit the
  task was enqueued with (\<^verbatim>\<open>MaxRetries\<close>, or the workers' default; a negative one counts as 0).\<close>

theorem attempts_bounded:
  assumes "(fleet_step D)\<^sup>*\<^sup>* (new_fleet window) f" "record_of (fl_store f) i = Some r"
  shows "r_attempts r \<le> fl_limit f i + 1 + fl_expiries f i"
proof -
  from assms(1) have "fleet_inv D f"
    by (induction rule: rtranclp_induct) (simp_all add: fleet_inv_new fleet_step_inv)
  from fleet_invD(3) [OF this assms(2)] show ?thesis by (auto simp: budget_ok_def split: if_splits)
qed

section \<open>One dispatch\<close>

lemma report_unless_benign_simps [simp]:
  "wk_completed (report_unless_benign op res w) = wk_completed w" "wk_failed (report_unless_benign op res w) = wk_failed w"
  "wk_retried (report_unless_benign op res w) = wk_retried w"
  by (simp_all add: report_unless_benign_def worker_reportErr_def split: sum.split)

lemma heartbeat_loop_frame:
  "heartbeat_loop w tid alive ms s = (w', s') \<Longrightarrow>
   wk_opts w' = wk_opts w \<and> wk_store w' = wk_store w \<and> wk_backoff w' = wk_backoff w \<and>
   wk_completed w' = wk_completed w \<and> wk_failed w' = wk_failed w \<and> wk_retried w' = wk_retried w"
  by (induction w tid alive ms s rule: heartbeat_loop.induct)
    (auto simp: worker_reportErr_def split: prod.splits sum.splits if_splits)

text \<open>The record after the finalizing call of its owner.\<close>

definition finished_record ::
  "gotime \<Rightarrow> int \<Rightarrow> task_record \<Rightarrow> string option \<Rightarrow> gotime \<Rightarrow> task_record \<Rightarrow> task_record"
where
  "finished_record now limit rec outcome next_at r =
     (case outcome of
        None \<Rightarrow> r\<lparr>r_state := StateCompleted, r_completed_at := now, r_owner_worker := ''''\<rparr>
      | Some msg \<Rightarrow>
          if int (r_attempts rec) \<le> limit \<and> (t_deadline (r_task r) = 0 \<or> next_at < t_deadline (r_task r))
          then r\<lparr>r_last_error := msg, r_owner_worker := '''', r_state := StateScheduled, r_next_attempt := next_at\<rparr>
          else r\<lparr>r_last_error := msg, r_owner_worker := '''', r_state := StateFailed, r_completed_at := now\<rparr>)"

text \<open>C31: A dispatch does what its handler's outcome asks for. If the lease is still held when the
  handler returns, the task is completed after a success; after an error or a panic it is scheduled
  again, below one second times two to the retries so far and below 30 seconds from then, as long as
  the claimed attempt is within the retry limit and the new attempt comes before the deadline;
  otherwise it has failed with the handler's error. No other record changes, and the worker with the
  default backoff never panics.\<close>

theorem dispatch_exact:
  assumes "wk_store w = memory_ops" "wk_backoff w = defaultBackoff" "lookupHandler w (t_type (r_task rec)) = Some h"
    "heartbeat_loop (w\<lparr>wk_inflight := wk_inflight w + 1\<rparr>) (t_id (r_task rec)) True (de_meanwhile env) s = (w2, s2)"
    "record_of s2 (t_id (r_task rec)) = Some r" "r_state r = StateRunning" "r_owner_worker r = wo_WorkerID (wk_opts w)"
  shows "\<exists>w' s' delay. dispatchOne env rec w s = Some (w', s') \<and>
    0 \<le> delay \<and> delay < 30 * second \<and> delay < second * 2 ^ nat (max 0 (int (r_attempts rec) - 1)) \<and>
    record_of s' = (record_of s2)(t_id (r_task rec) \<mapsto>
      finished_record (de_now env) (retry_limit (wo_DefaultMaxRetries (wk_opts w)) (r_task rec)) rec
        (run_handler h (de_world env) (r_task rec)) (de_next env + delay) r) \<and>
    wk_completed w' + wk_failed w' + wk_retried w' = wk_completed w + wk_failed w + wk_retried w + 1"
proof -
  obtain delay where d: "defaultBackoff (int (r_attempts rec)) (de_rnd env) = Some delay"
    "0 \<le> delay" "delay < 30 * second" "delay < second * 2 ^ nat (max 0 (int (r_attempts rec) - 1))"
    using conjunct2 [OF backoff_cases [of "int (r_attempts rec)" "de_rnd env"]] by blast
  note f = heartbeat_loop_frame [OF assms(4), simplified]
  have l: "lookupHandler (w\<lparr>wk_inflight := wk_inflight w + 1\<rparr>) (t_type (r_task rec)) = Some h"
    using assms(3) by (simp add: lookupHandler_def)
  let ?out = "run_handler h (de_world env) (r_task rec)"
  let ?limit = "retry_limit (wo_DefaultMaxRetries (wk_opts w)) (r_task rec)"
  have "\<exists>w3 s3. finalize_attempt env rec ?out w2 s2 = Some (w3, s3) \<and>
      record_of s3 = (record_of s2)(t_id (r_task rec) \<mapsto> finished_record (de_now env) ?limit rec ?out (de_next env + delay) r) \<and>
      wk_completed w3 + wk_failed w3 + wk_retried w3 = wk_completed w + wk_failed w + wk_retried w + 1"
    using f assms(1,2,5-7) d(1)
    by (cases ?out; cases "int (r_attempts rec) \<le> ?limit")
      (auto simp: finalize_attempt_def finished_record_def memory_ops_def lift_error_def Complete_def Fail_def may_retry_def Let_def)
  then show ?thesis using d(2-4) assms(4) l by (auto simp: dispatchOne_def Let_def)
qed

section \<open>No queue starves\<close>

lemma takeWhile_upt: "d < n \<Longrightarrow> takeWhile (\<lambda>t. t \<noteq> d) [0..<n] = [0..<d]"
proof -
  assume "d < n"
  then have "[0..<n] = [0..<d] @ d # [Suc d..<n]" 
    by (metis le0 less_imp_le_nat upt_add_eq_append le_add_diff_inverse plus_nat.add_0 upt_conv_Cons)
  then show ?thesis by (simp add: takeWhile_append)
qed

definition queue_distance :: "nat \<Rightarrow> nat \<Rightarrow> nat \<Rightarrow> nat" where
  "queue_distance n j k = (if k \<le> j then j - k else j + n - k)"

lemma queue_distance_spec: "k < n \<Longrightarrow> j < n \<Longrightarrow> queue_distance n j k < n \<and> (k + queue_distance n j k) mod n = j"
  by (auto simp: queue_distance_def)

lemma queue_distance_next:
  assumes "k < n" "j < n" "t < queue_distance n j k"
  shows "queue_distance n j ((k + t + 1) mod n) = queue_distance n j k - t - 1"
proof (cases "k + t + 1 < n")
  case True
  then show ?thesis using assms by (auto simp: queue_distance_def split: if_splits)
next
  case False
  have "k + t + 1 < n + n" using assms by (auto simp: queue_distance_def split: if_splits)
  with False have "(k + t + 1) mod n = k + t + 1 - n" by (simp add: mod_if)
  then show ?thesis using False assms by (auto simp: queue_distance_def split: if_splits)
qed

text \<open>What the claim loop relies on: in a store in good order \<open>Claim\<close> hands out a task of the queue if
  there is one, and otherwise nothing, without changing what other queues have to offer.\<close>

locale claim_store =
  fixes ops :: "'s store_ops" and ok :: "'s \<Rightarrow> bool" and has_work :: "'s \<Rightarrow> string \<Rightarrow> bool"
  assumes Claim_hit: "ok s \<Longrightarrow> has_work s q \<Longrightarrow>
      \<exists>rec s'. so_Claim ops now s q me vis = (Inr (Some rec), s') \<and> t_queue (r_task rec) = queue_name q"
    and Claim_miss: "ok s \<Longrightarrow> \<not> has_work s q \<Longrightarrow>
      \<exists>s'. so_Claim ops now s q me vis = (Inr None, s') \<and> ok s' \<and> (\<forall>q'. has_work s' q' = has_work s q')"
begin

lemma scan_hits:
  assumes "ok s" "wk_store w = ops" "d \<in> set ts"
    "has_work s (wo_Queues (wk_opts w) ! ((k + d) mod length (wo_Queues (wk_opts w))))"
  shows "\<exists>t \<in> set (takeWhile (\<lambda>t. t \<noteq> d) ts @ [d]). \<exists>rec.
    fst (scan_queues w k nows ts s) = ScanHit rec ((k + t + 1) mod length (wo_Queues (wk_opts w))) \<and>
    t_queue (r_task rec) = queue_name (wo_Queues (wk_opts w) ! ((k + t) mod length (wo_Queues (wk_opts w))))"
  using assms
proof (induction ts arbitrary: s)
  case (Cons t ts)
  let ?q = "wo_Queues (wk_opts w) ! ((k + t) mod length (wo_Queues (wk_opts w)))"
  let ?me = "wo_WorkerID (wk_opts w)" and ?vis = "wo_VisibilityTimeout (wk_opts w)"
  show ?case
  proof (cases "has_work s ?q")
    case True
    then obtain rec s' where "so_Claim ops (nows t) s ?q ?me ?vis = (Inr (Some rec), s')" "t_queue (r_task rec) = queue_name ?q"
      using Claim_hit [OF Cons(2)] by blast
    then show ?thesis by (intro bexI [of _ t]) (simp_all add: Cons(3) Let_def)
  next
    case False
    then obtain s' where s': "so_Claim ops (nows t) s ?q ?me ?vis = (Inr None, s')" "ok s'" "\<forall>q'. has_work s' q' = has_work s q'"
      using Claim_miss [OF Cons(2)] by blast
    have "d \<noteq> t" using False Cons(5) by blast
    moreover have "d \<in> set ts" using Cons(4) calculation by simp
    moreover have "scan_queues w k nows (t # ts) s = scan_queues w k nows ts s'" using s'(1) by (simp add: Cons(3) Let_def)
    ultimately show ?thesis using Cons(1) [OF s'(2) Cons(3)] s'(3) Cons(5) by auto
  qed
qed simp

lemma round_robin:
  assumes "wk_store w = ops" "n = length (wo_Queues (wk_opts w))" "j < n" "idx 0 < n"
    "\<And>k. ok (s k)" "\<And>k. has_work (s k) (wo_Queues (wk_opts w) ! j)"
    "\<And>k rec i. fst (claim_round w (idx k) (nows k) (s k)) = ScanHit rec i \<Longrightarrow> idx (Suc k) = i"
  shows "\<exists>k < n. \<exists>rec i. fst (claim_round w (idx k) (nows k) (s k)) = ScanHit rec i \<and>
    t_queue (r_task rec) = queue_name (wo_Queues (wk_opts w) ! j)"
proof -
  let ?P = "\<lambda>k. \<exists>rec i. fst (claim_round w (idx k) (nows k) (s k)) = ScanHit rec i \<and>
    t_queue (r_task rec) = queue_name (wo_Queues (wk_opts w) ! j)"
  have "\<exists>k \<le> m + queue_distance n j (idx m). ?P k" if "idx m < n" for m
    using that
  proof (induction "queue_distance n j (idx m)" arbitrary: m rule: less_induct)
    case (less m)
    let ?d = "queue_distance n j (idx m)"
    have d: "?d < n" "(idx m + ?d) mod n = j" using queue_distance_spec [OF less.prems assms(3)] by auto
    have "?d \<in> set [0..<n]" "has_work (s m) (wo_Queues (wk_opts w) ! ((idx m + ?d) mod length (wo_Queues (wk_opts w))))"
      using d assms(2) assms(6) [of m] by simp_all
    from scan_hits [OF assms(5,1) this, of "nows m"] obtain t rec where
      t: "t \<le> ?d" "fst (claim_round w (idx m) (nows m) (s m)) = ScanHit rec ((idx m + t + 1) mod n)"
        "t_queue (r_task rec) = queue_name (wo_Queues (wk_opts w) ! ((idx m + t) mod n))"
      unfolding claim_round_def assms(2) [symmetric] takeWhile_upt [OF d(1)] by fastforce
    show ?case
    proof (cases "t = ?d")
      case True
      then show ?thesis using t d(2) by (intro exI [of _ m]) auto
    next
      case False
      then have nd: "queue_distance n j (idx (Suc m)) = ?d - t - 1" "idx (Suc m) < n" "t < ?d"
        using assms(7) [OF t(2)] queue_distance_next [OF less.prems assms(3), of t] t(1) less.prems by simp_all
      then have "\<exists>k \<le> Suc m + queue_distance n j (idx (Suc m)). ?P k" by (intro less.hyps) simp_all
      then obtain k where "k \<le> Suc m + queue_distance n j (idx (Suc m))" "?P k" by blast
      then show ?thesis using nd by (intro exI [of _ k]) simp
    qed
  qed
  from this [OF assms(4)] queue_distance_spec [OF assms(4,3)] show ?thesis
    by (metis add_0 le_less_trans)
qed

end

lemma Claim_closed: "s_closed (snd (Claim now s q me vis)) = s_closed s"
  by (auto simp: Claim_def Let_def split: option.splits prod.splits)

definition open_store :: "memory_store \<Rightarrow> bool" where
  "open_store s \<longleftrightarrow> store_inv s \<and> \<not> s_closed s"

definition has_waiting :: "memory_store \<Rightarrow> string \<Rightarrow> bool" where
  "has_waiting s q \<longleftrightarrow> (\<exists>i r. waiting s q i r)"

interpretation memclaim: claim_store memory_ops open_store has_waiting
proof
  fix s q now me vis
  assume s: "open_store s"
  let ?c = "Claim now s q me vis"
  { assume "has_waiting s q"
    then obtain i r where "waiting s q i r" by (auto simp: has_waiting_def)
    with s Claim_picks [of s q i r now me vis] obtain rj where
      "fst ?c = Inr (Some (claimed_record now me vis rj))" "t_queue (r_task rj) = queue_name q"
      by (auto simp: open_store_def waiting_def)
    then show "\<exists>rec s'. so_Claim memory_ops now s q me vis = (Inr (Some rec), s') \<and> t_queue (r_task rec) = queue_name q"
      by (cases ?c) (simp add: memory_ops_def lift_error_def) }
  { assume "\<not> has_waiting s q"
    then have c: "fst ?c = Inr None" "s_records (snd ?c) = s_records s"
      using Claim_nothing [of s q now me vis] s by (auto simp: open_store_def has_waiting_def)
    then have "so_Claim memory_ops now s q me vis = (Inr None, snd ?c)"
      by (cases ?c) (simp add: memory_ops_def lift_error_def)
    moreover have "open_store (snd ?c)" "has_waiting (snd ?c) q' = has_waiting s q'" for q'
      using s c(2) by (simp_all add: open_store_def store_inv_Claim Claim_closed has_waiting_def waiting_def)
    ultimately show "\<exists>s'. so_Claim memory_ops now s q me vis = (Inr None, s') \<and> open_store s' \<and>
        (\<forall>q'. has_waiting s' q' = has_waiting s q')" by blast }
qed

text \<open>C32: No subscribed queue starves. A slot of a worker that keeps claiming, whatever the other
  goroutines do to the store in between, takes a task from any given queue within as many claims
  as there are queues, provided that queue has a pending task whenever the slot looks.\<close>

theorem no_queue_starves:
  assumes "wk_store w = memory_ops" "n = length (wo_Queues (wk_opts w))" "j < n" "idx 0 < n"
    "\<And>k. store_inv (s k)" "\<And>k. \<not> s_closed (s k)" "\<And>k. \<exists>i r. waiting (s k) (wo_Queues (wk_opts w) ! j) i r"
    "\<And>k rec i. fst (claim_round w (idx k) (nows k) (s k)) = ScanHit rec i \<Longrightarrow> idx (Suc k) = i"
  shows "\<exists>k < n. \<exists>rec i. fst (claim_round w (idx k) (nows k) (s k)) = ScanHit rec i \<and>
    t_queue (r_task rec) = queue_name (wo_Queues (wk_opts w) ! j)"
  by (rule memclaim.round_robin [of w n j idx s nows])
    (use assms(1-7) in \<open>auto simp: open_store_def has_waiting_def intro: assms(8)\<close>)

section \<open>Concrete runs\<close>

definition sample_opts :: "memory_store WorkerOpts" where
  "sample_opts = \<lparr>wo_Store = Some memory_ops, wo_Queues = [], wo_Concurrency = 2, wo_VisibilityTimeout = 30,
     wo_HeartbeatInterval = 0, wo_DefaultTimeout = 0, wo_DefaultMaxRetries = 0, wo_PollInterval = 0,
     wo_MaintenanceInterval = 0, wo_Backoff = None, wo_OnError = True, wo_WorkerID = ''w1''\<rparr>"

definition sample_worker :: "memory_store worker" where
  "sample_worker = snd (registerHandler ''mail'' (Some (\<lambda>_ _. HandlerErr ''boom'')) (projr (NewWorker ''w'' sample_opts)))"

lemma sample_opts_default:
  "default_opts newid sample_opts =
     \<lparr>wo_Store = Some memory_ops, wo_Queues = [''default''], wo_Concurrency = 2, wo_VisibilityTimeout = 30,
      wo_HeartbeatInterval = 10, wo_DefaultTimeout = 300000000000, wo_DefaultMaxRetries = 5, wo_PollInterval = 25000000,
      wo_MaintenanceInterval = 250000000, wo_Backoff = Some defaultBackoff, wo_OnError = True, wo_WorkerID = ''w1''\<rparr>"
  by (simp add: default_opts_def sample_opts_def Let_def cong: let_weak_cong)

lemma sample_worker_simps [simp]:
  "wk_store sample_worker = memory_ops" "wk_backoff sample_worker = defaultBackoff"
  "wo_Queues (wk_opts sample_worker) = [''default'']" "wo_WorkerID (wk_opts sample_worker) = ''w1''"
  "wo_VisibilityTimeout (wk_opts sample_worker) = 30" "wo_DefaultMaxRetries (wk_opts sample_worker) = 5"
  "lookupHandler sample_worker ''mail'' = Some (\<lambda>_ _. HandlerErr ''boom'')"
proof -
  have "wo_Store sample_opts = Some memory_ops" by (simp add: sample_opts_def)
  note d = sample_worker_def registerHandler_def NewWorker_def this sample_opts_default Let_def lookupHandler_def alist_put_def
  show "wk_store sample_worker = memory_ops" "wk_backoff sample_worker = defaultBackoff"
    "wo_Queues (wk_opts sample_worker) = [''default'']" "wo_WorkerID (wk_opts sample_worker) = ''w1''"
    "wo_VisibilityTimeout (wk_opts sample_worker) = 30" "wo_DefaultMaxRetries (wk_opts sample_worker) = 5"
    "lookupHandler sample_worker ''mail'' = Some (\<lambda>_ _. HandlerErr ''boom'')"
    by (simp_all add: d)
qed

lemma sample_claim:
  "claim_round sample_worker 0 (\<lambda>_. 20) sample_store = (ScanHit (claimed_record 20 ''w1'' 30 sample_record) 0, sample_worker, sample_running)"
proof -
  have "Claim 20 sample_store ''default'' ''w1'' 30 = Claim 20 sample_store '''' ''w1'' 30"
  proof -
    have "put_queue s '''' q = put_queue s ''default'' q" for s q by (simp add: put_queue_def queue_name_def)
    then show ?thesis using sample_open by (simp add: Claim_def queue_name_def sample_store_eq claim_pop.simps Let_def)
  qed
  moreover have "fst (Claim 20 sample_store '''' ''w1'' 30) = Inr (Some (claimed_record 20 ''w1'' 30 sample_record))"
    using sample_open by (simp add: Claim_def sample_store_eq queue_name_def claim_pop.simps Let_def)
  ultimately have "Claim 20 sample_store ''default'' ''w1'' 30 = (Inr (Some (claimed_record 20 ''w1'' 30 sample_record)), sample_running)"
    by (simp add: sample_running_def prod_eq_iff)
  then show ?thesis by (simp add: claim_round_def memory_ops_def lift_error_def)
qed

definition sample_fleet :: fleet where
  "sample_fleet = \<lparr>fl_store = sample_running, fl_flight = [claimed_record 20 ''w1'' 30 sample_record], fl_seen = {''a''},
     fl_limit = (\<lambda>_. 0)(''a'' := 5), fl_expiries = (\<lambda>_. 0)\<rparr>"

lemma sample_fleet_reached: "(fleet_step 5)\<^sup>*\<^sup>* (new_fleet 100) sample_fleet"
proof -
  let ?f = "(new_fleet 100)\<lparr>fl_store := sample_store, fl_seen := {''a''}, fl_limit := (\<lambda>_. 0)(''a'' := 5)\<rparr>"
  have "fst (Enqueue 10 11 ''x'' (NewMemoryStore 100) sample_task) = Inr sample_record"
    by (simp add: sample_record_def Enqueue_def NewMemoryStore_def sample_task_def
        evictDedupExpiredLocked_def insert_task_def Let_def)
  then have e: "Enqueue 10 11 ''x'' (fl_store (new_fleet 100)) sample_task = (Inr sample_record, sample_store)"
    by (simp add: sample_store_def prod_eq_iff new_fleet_def)
  have t: "t_id (r_task sample_record) = ''a''" "retry_limit 5 (r_task sample_record) = 5" "t_id (fill_task ''x'' sample_task) = ''a''"
    by (simp_all add: sample_record_def sample_task_def retry_limit_def fill_task_def)
  have 1: "fleet_step 5 (new_fleet 100) ?f"
    using fleet_step.enqueue [OF _ _ e, of 5] t by (simp add: new_fleet_def)
  have 2: "fleet_step 5 ?f sample_fleet"
  proof -
    have c: "claim_round sample_worker 0 (\<lambda>_. 20) (fl_store ?f) =
      (ScanHit (claimed_record 20 ''w1'' 30 sample_record) 0, sample_worker, sample_running)"
    proof -
      have "fl_store ?f = sample_store" by simp
      then show ?thesis by (simp only: sample_claim)
    qed
    have w: "fleet_worker 5 sample_worker" by (simp add: fleet_worker_def)
    have f: "sample_fleet = ?f\<lparr>fl_store := sample_running, fl_flight :=
      (case ScanHit (claimed_record 20 ''w1'' 30 sample_record) 0 of ScanHit rec _ \<Rightarrow> rec # fl_flight ?f | _ \<Rightarrow> fl_flight ?f)\<rparr>"
      by (simp add: sample_fleet_def new_fleet_def)
    show ?thesis unfolding f by (rule fleet_step.claim [OF w c])
  qed
  from 1 have "(fleet_step 5)\<^sup>*\<^sup>* (new_fleet 100) ?f" by (rule r_into_rtranclp)
  from this 2 show ?thesis by (rule rtranclp.rtrancl_into_rtrancl)
qed

theorem attempts_bounded_witness:
  "(fleet_step 5)\<^sup>*\<^sup>* (new_fleet 100) sample_fleet \<and>
   map_option r_attempts (record_of (fl_store sample_fleet) ''a'') = Some 1 \<and>
   (1 :: nat) \<le> fl_limit sample_fleet ''a'' + 1 + fl_expiries sample_fleet ''a''"
proof -
  have r: "record_of (fl_store sample_fleet) ''a'' = Some (claimed_record 20 ''w1'' 30 sample_record)"
    by (simp add: sample_fleet_def sample_running_eq)
  from attempts_bounded [OF sample_fleet_reached r] r sample_fleet_reached show ?thesis by simp
qed

theorem dispatch_exact_witness:
  "\<exists>w' s' delay. dispatchOne \<lparr>de_meanwhile = [], de_world = 0, de_now = 25, de_next = 26, de_rnd = 7\<rparr>
      (claimed_record 20 ''w1'' 30 sample_record) sample_worker sample_running = Some (w', s') \<and>
    0 \<le> delay \<and> delay < 1000000000 \<and>
    map_option (\<lambda>r. (r_state r, r_next_attempt r, r_last_error r)) (record_of s' ''a'') = Some (StateScheduled, 26 + delay, ''boom'')"
proof -
  have t: "t_id (r_task sample_record) = ''a''" "t_type (r_task sample_record) = ''mail''" "t_max_retries (r_task sample_record) = None"
    by (simp_all add: sample_record_def sample_task_def fill_task_def)
  have r: "record_of sample_running ''a'' = Some (claimed_record 20 ''w1'' 30 sample_record)" by (simp add: sample_running_eq)
  from dispatch_exact [of sample_worker "claimed_record 20 ''w1'' 30 sample_record" "\<lambda>_ _. HandlerErr ''boom''"
      "\<lparr>de_meanwhile = [], de_world = 0, de_now = 25, de_next = 26, de_rnd = 7\<rparr>" sample_running
      "sample_worker\<lparr>wk_inflight := wk_inflight sample_worker + 1\<rparr>" sample_running]
  obtain w' s' delay where "dispatchOne \<lparr>de_meanwhile = [], de_world = 0, de_now = 25, de_next = 26, de_rnd = 7\<rparr>
      (claimed_record 20 ''w1'' 30 sample_record) sample_worker sample_running = Some (w', s')" "0 \<le> delay" "delay < 1000000000"
    "record_of s' ''a'' = Some (finished_record 25 5 (claimed_record 20 ''w1'' 30 sample_record) (Some ''boom'') (26 + delay)
       (claimed_record 20 ''w1'' 30 sample_record))"
    using r by (auto simp: t run_handler_def retry_limit_def)
  then show ?thesis by (intro exI [of _ w'] exI [of _ s'] exI [of _ delay]) (simp add: finished_record_def)
qed

theorem no_queue_starves_witness:
  "\<exists>rec i. fst (claim_round sample_worker 0 (\<lambda>_. 20) sample_store) = ScanHit rec i \<and> t_queue (r_task rec) = ''default''"
proof -
  have "waiting sample_store ''default'' ''a'' sample_record"
    by (simp add: waiting_def sample_store_eq queue_name_def)
  then have "\<exists>i r. waiting sample_store (wo_Queues (wk_opts sample_worker) ! 0) i r" by auto
  with no_queue_starves [of sample_worker 1 0 "\<lambda>_. 0" "\<lambda>_. sample_store" "\<lambda>_ _. 20"] sample_inv(1) sample_open sample_claim
  show ?thesis by (simp add: queue_name_def)
qed

end
