(* ===== verification/Chunk_Store.thy ===== *)
theory Chunk_Store imports Prelude "HOL-Library.Product_Lexorder"
begin

text \<open>
  The content-addressed chunk store of the virtual file system (\<^verbatim>\<open>providers/vfs/storage.go\<close>,
  \<^verbatim>\<open>ChunkStore\<close>, and \<^verbatim>\<open>compression.go\<close>). SHA-256 and DEFLATE are parameters, gathered in a
  \<open>codec\<close>; what the store relies on is that inflating undoes deflating (\<open>codec_ok\<close>) and, for the
  content a caller gets back, that no other content has the same digest (\<open>collision_free\<close>).
  The write lock makes an operation atomic, except that \<open>Get\<close> of a compressed chunk drops the lock
  between its two halves, \<open>get_read\<close> and \<open>get_inflate\<close>. \<open>now\<close> is the reading of \<^verbatim>\<open>nowNanos\<close>.
\<close>

datatype vfs_error =
  ErrChunkNotFound | ErrMemoryPressure | ErrInvalidRange | ErrNegativeOffset | ErrMissingRealRead
| ErrExtentCorruption | ErrInflate | ErrEOF | ErrUnexpectedEOF | ErrHost | PanicSliceBounds

type_synonym hash = bytes

record codec =
  SumHash :: "bytes \<Rightarrow> hash"
  flateCompress :: "bytes \<Rightarrow> bytes option"
  flateDecompress :: "bytes \<Rightarrow> bytes option"

definition codec_ok :: "codec \<Rightarrow> bool" where
  "codec_ok cd \<longleftrightarrow> (\<forall>x y. flateCompress cd x = Some y \<longrightarrow> flateDecompress cd y = Some x)"

definition collision_free :: "codec \<Rightarrow> bytes \<Rightarrow> bool" where
  "collision_free cd content \<longleftrightarrow> (\<forall>x. SumHash cd x = SumHash cd content \<longrightarrow> x = content)"

record chunk_entry =
  ce_content :: bytes
  ce_refs :: int
  ce_compressed :: bool
  ce_raw_size :: int
  ce_access_at :: int

record chunk_store =
  cs_chunks :: "(hash \<times> chunk_entry) list"
  cs_limit :: int
  cs_bytes :: int
  cs_raw_bytes :: int
  cs_unique_puts :: int
  cs_dedup_hits :: int
  cs_rejected :: int
  cs_passes :: int

definition NewChunkStore :: "int \<Rightarrow> chunk_store" where
  "NewChunkStore memoryLimit =
     \<lparr>cs_chunks = [], cs_limit = memoryLimit, cs_bytes = 0, cs_raw_bytes = 0, cs_unique_puts = 0,
      cs_dedup_hits = 0, cs_rejected = 0, cs_passes = 0\<rparr>"

abbreviation chunk_of :: "chunk_store \<Rightarrow> hash \<Rightarrow> chunk_entry option" where
  "chunk_of s \<equiv> map_of (cs_chunks s)"

definition put_chunk :: "hash \<Rightarrow> chunk_entry \<Rightarrow> chunk_store \<Rightarrow> chunk_store" where
  "put_chunk h e s = s\<lparr>cs_chunks := alist_put h e (cs_chunks s)\<rparr>"

subsection \<open>Compression of cold chunks\<close>

definition coldCandidatesLocked :: "chunk_store \<Rightarrow> hash list" where
  "coldCandidatesLocked s =
     sort_key (\<lambda>h. (case chunk_of s h of Some e \<Rightarrow> ce_access_at e | None \<Rightarrow> 0, h)) (map fst (cs_chunks s))"

fun compress_loop :: "codec \<Rightarrow> int \<Rightarrow> hash list \<Rightarrow> chunk_store \<Rightarrow> int \<Rightarrow> int \<times> chunk_store" where
  "compress_loop cd target [] s freed = (freed, s)"
| "compress_loop cd target (h # hs) s freed =
     (if freed \<ge> target then (freed, s)
      else case chunk_of s h of
        None \<Rightarrow> compress_loop cd target hs s freed
      | Some e \<Rightarrow>
          if ce_compressed e \<or> ce_content e = [] then compress_loop cd target hs s freed
          else (case flateCompress cd (ce_content e) of
              None \<Rightarrow> compress_loop cd target hs s freed
            | Some z \<Rightarrow>
                if length z \<ge> length (ce_content e) then compress_loop cd target hs s freed
                else
                  let delta = int (length (ce_content e)) - int (length z);
                      s1 = put_chunk h (e\<lparr>ce_content := z, ce_compressed := True\<rparr>) s
                  in compress_loop cd target hs (s1\<lparr>cs_bytes := cs_bytes s1 - delta\<rparr>) (freed + delta)))"

definition compressColdChunksLocked :: "codec \<Rightarrow> int \<Rightarrow> chunk_store \<Rightarrow> int \<times> chunk_store" where
  "compressColdChunksLocked cd targetFreed s =
     (if targetFreed \<le> 0 then (0, s)
      else
        let (freed, s1) = compress_loop cd targetFreed (coldCandidatesLocked s) s 0
        in (freed, if freed > 0 then s1\<lparr>cs_passes := cs_passes s1 + 1\<rparr> else s1))"

subsection \<open>Put, Acquire, Release, Get\<close>

definition make_room :: "codec \<Rightarrow> int \<Rightarrow> chunk_store \<Rightarrow> chunk_store" where
  "make_room cd need s =
     (if cs_limit s > 0 \<and> cs_bytes s + need > cs_limit s
      then snd (compressColdChunksLocked cd (cs_bytes s + need - cs_limit s) s) else s)"

definition Put :: "codec \<Rightarrow> int \<Rightarrow> bytes \<Rightarrow> chunk_store \<Rightarrow> (vfs_error + hash \<times> bool) \<times> chunk_store" where
  "Put cd now content s =
     (let h = SumHash cd content
      in case chunk_of s h of
        Some e \<Rightarrow>
          (Inr (h, True),
           (put_chunk h (e\<lparr>ce_refs := ce_refs e + 1, ce_access_at := now\<rparr>) s)
             \<lparr>cs_dedup_hits := cs_dedup_hits s + 1\<rparr>)
      | None \<Rightarrow>
          let need = int (length content);
              s1 = make_room cd need s
          in if cs_limit s > 0 \<and> cs_bytes s1 + need > cs_limit s
             then (Inl ErrMemoryPressure, s1\<lparr>cs_rejected := cs_rejected s1 + 1\<rparr>)
             else
               let e = \<lparr>ce_content = content, ce_refs = 1, ce_compressed = False,
                        ce_raw_size = int (length content), ce_access_at = now\<rparr>;
                   s2 = put_chunk h e s1
               in (Inr (h, False),
                   s2\<lparr>cs_bytes := cs_bytes s2 + need, cs_raw_bytes := cs_raw_bytes s2 + need,
                      cs_unique_puts := cs_unique_puts s2 + 1\<rparr>))"

definition Acquire :: "hash \<Rightarrow> chunk_store \<Rightarrow> (vfs_error + unit) \<times> chunk_store" where
  "Acquire h s =
     (case chunk_of s h of
        None \<Rightarrow> (Inl ErrChunkNotFound, s)
      | Some e \<Rightarrow> (Inr (), put_chunk h (e\<lparr>ce_refs := ce_refs e + 1\<rparr>) s))"

definition Release :: "hash \<Rightarrow> chunk_store \<Rightarrow> (vfs_error + unit) \<times> chunk_store" where
  "Release h s =
     (case chunk_of s h of
        None \<Rightarrow> (Inl ErrChunkNotFound, s)
      | Some e \<Rightarrow>
          if ce_refs e \<le> 1 then
            (Inr (), s\<lparr>cs_bytes := cs_bytes s - int (length (ce_content e)),
                       cs_raw_bytes := cs_raw_bytes s - ce_raw_size e,
                       cs_chunks := alist_del h (cs_chunks s)\<rparr>)
          else (Inr (), put_chunk h (e\<lparr>ce_refs := ce_refs e - 1\<rparr>) s))"

text \<open>The first half of \<open>Get\<close>, under the read lock: the raw bytes, and whether the chunk was
  compressed; then the best-effort inflation under the write lock, on whatever store there is by
  then.\<close>

definition get_read :: "codec \<Rightarrow> int \<Rightarrow> hash \<Rightarrow> chunk_store \<Rightarrow> (vfs_error + bytes \<times> bool) \<times> chunk_store" where
  "get_read cd now h s =
     (case chunk_of s h of
        None \<Rightarrow> (Inl ErrChunkNotFound, s)
      | Some e \<Rightarrow>
          let s1 = put_chunk h (e\<lparr>ce_access_at := now\<rparr>) s
          in if \<not> ce_compressed e then (Inr (ce_content e, False), s1)
             else (case flateDecompress cd (ce_content e) of
                 None \<Rightarrow> (Inl ErrInflate, s1)
               | Some raw \<Rightarrow>
                   if int (length raw) \<noteq> ce_raw_size e then (Inl ErrExtentCorruption, s1)
                   else (Inr (raw, True), s1)))"

definition get_inflate :: "hash \<Rightarrow> bytes \<Rightarrow> chunk_store \<Rightarrow> chunk_store" where
  "get_inflate h raw s =
     (case chunk_of s h of
        None \<Rightarrow> s
      | Some e \<Rightarrow>
          let delta = int (length raw) - int (length (ce_content e))
          in if ce_compressed e \<and> (cs_limit s \<le> 0 \<or> cs_bytes s + delta \<le> cs_limit s)
             then (put_chunk h (e\<lparr>ce_content := raw, ce_compressed := False\<rparr>) s)
                    \<lparr>cs_bytes := cs_bytes s + delta\<rparr>
             else s)"

definition Get :: "codec \<Rightarrow> int \<Rightarrow> hash \<Rightarrow> chunk_store \<Rightarrow> (vfs_error + bytes) \<times> chunk_store" where
  "Get cd now h s =
     (case get_read cd now h s of
        (Inl err, s1) \<Rightarrow> (Inl err, s1)
      | (Inr (raw, compressed), s1) \<Rightarrow> (Inr raw, if compressed then get_inflate h raw s1 else s1))"

definition Has :: "chunk_store \<Rightarrow> hash \<Rightarrow> bool" where
  "Has s h = (chunk_of s h \<noteq> None)"

definition RefCount :: "chunk_store \<Rightarrow> hash \<Rightarrow> int" where
  "RefCount s h = (case chunk_of s h of Some e \<Rightarrow> ce_refs e | None \<Rightarrow> 0)"

record chunk_store_stats =
  st_chunks :: nat
  st_bytes :: int
  st_raw_bytes :: int
  st_memory_limit :: int
  st_refs :: int
  st_unique_put_count :: int
  st_dedup_hit_count :: int
  st_rejected_put_count :: int
  st_compressed_chunks :: nat
  st_bytes_saved :: int
  st_compression_passes :: int

definition Stats :: "chunk_store \<Rightarrow> chunk_store_stats" where
  "Stats s =
     (let es = map snd (cs_chunks s)
      in \<lparr>st_chunks = length es, st_bytes = cs_bytes s, st_raw_bytes = cs_raw_bytes s,
          st_memory_limit = cs_limit s, st_refs = (\<Sum>e\<leftarrow>es. ce_refs e),
          st_unique_put_count = cs_unique_puts s, st_dedup_hit_count = cs_dedup_hits s,
          st_rejected_put_count = cs_rejected s,
          st_compressed_chunks = length (filter ce_compressed es),
          st_bytes_saved = cs_raw_bytes s - cs_bytes s, st_compression_passes = cs_passes s\<rparr>)"

subsection \<open>The invariant\<close>

text \<open>
  Every entry decodes to content with the entry's key as digest and the recorded size, every
  reference count is positive, the two byte counters are the physical and the logical sizes of the
  entries, and a positive limit is respected.
\<close>

definition entry_raw :: "codec \<Rightarrow> chunk_entry \<Rightarrow> bytes option" where
  "entry_raw cd e = (if ce_compressed e then flateDecompress cd (ce_content e) else Some (ce_content e))"

definition entry_ok :: "codec \<Rightarrow> hash \<Rightarrow> chunk_entry \<Rightarrow> bool" where
  "entry_ok cd h e \<longleftrightarrow> ce_refs e \<ge> 1 \<and>
     (\<exists>raw. entry_raw cd e = Some raw \<and> SumHash cd raw = h \<and> int (length raw) = ce_raw_size e)"

definition chunk_inv :: "codec \<Rightarrow> chunk_store \<Rightarrow> bool" where
  "chunk_inv cd s \<longleftrightarrow>
     distinct (map fst (cs_chunks s)) \<and>
     (\<forall>h e. chunk_of s h = Some e \<longrightarrow> entry_ok cd h e) \<and>
     cs_bytes s = alist_sum (\<lambda>e. int (length (ce_content e))) (cs_chunks s) \<and>
     cs_raw_bytes s = alist_sum ce_raw_size (cs_chunks s) \<and>
     (cs_limit s > 0 \<longrightarrow> cs_bytes s \<le> cs_limit s)"

text \<open>What a caller sees of the store: the content behind each digest, and the references to it.\<close>

definition stored :: "codec \<Rightarrow> chunk_store \<Rightarrow> hash \<Rightarrow> bytes option" where
  "stored cd s h = (case chunk_of s h of Some e \<Rightarrow> entry_raw cd e | None \<Rightarrow> None)"

lemma chunk_invD:
  assumes "chunk_inv cd s"
  shows "distinct (map fst (cs_chunks s))" "chunk_of s h = Some e \<Longrightarrow> entry_ok cd h e"
    "cs_bytes s = alist_sum (\<lambda>e. int (length (ce_content e))) (cs_chunks s)"
    "cs_raw_bytes s = alist_sum ce_raw_size (cs_chunks s)"
    "cs_limit s > 0 \<Longrightarrow> cs_bytes s \<le> cs_limit s"
  using assms by (simp_all add: chunk_inv_def)

lemma put_chunk_simps [simp]:
  "cs_chunks (put_chunk h e s) = alist_put h e (cs_chunks s)"
  "cs_limit (put_chunk h e s) = cs_limit s" "cs_bytes (put_chunk h e s) = cs_bytes s"
  "cs_raw_bytes (put_chunk h e s) = cs_raw_bytes s"
  "cs_unique_puts (put_chunk h e s) = cs_unique_puts s"
  by (simp_all add: put_chunk_def)

text \<open>Replacing the entry of a stored chunk by one with the same raw content.\<close>

lemma chunk_inv_replace:
  assumes inv: "chunk_inv cd s" and e: "chunk_of s h = Some e"
    and e': "entry_raw cd e' = entry_raw cd e" "ce_refs e' \<ge> 1" "ce_raw_size e' = ce_raw_size e"
    and s': "cs_chunks s' = alist_put h e' (cs_chunks s)" "cs_limit s' = cs_limit s"
      "cs_raw_bytes s' = cs_raw_bytes s"
      "cs_bytes s' = cs_bytes s - int (length (ce_content e)) + int (length (ce_content e'))"
    and lim: "cs_limit s > 0 \<Longrightarrow> cs_bytes s' \<le> cs_limit s"
  shows "chunk_inv cd s'"
  using chunk_invD [OF inv] e e' s' lim
  by (simp add: chunk_inv_def alist_sum_put_present entry_ok_def)

lemma stored_replace:
  "chunk_of s h = Some e \<Longrightarrow> entry_raw cd e' = entry_raw cd e \<Longrightarrow>
   cs_chunks s' = alist_put h e' (cs_chunks s) \<Longrightarrow> stored cd s' = stored cd s"
  by (auto simp: stored_def fun_eq_iff)

lemma RefCount_replace:
  "cs_chunks s' = alist_put h e' (cs_chunks s) \<Longrightarrow>
   RefCount s' = (RefCount s)(h := ce_refs e')"
  by (auto simp: RefCount_def fun_eq_iff)

lemma chunk_counters:
  "chunk_inv cd (s\<lparr>cs_passes := n\<rparr>) = chunk_inv cd s" "stored cd (s\<lparr>cs_passes := n\<rparr>) = stored cd s"
  "RefCount (s\<lparr>cs_passes := n\<rparr>) = RefCount s"
  "chunk_inv cd (s\<lparr>cs_rejected := n\<rparr>) = chunk_inv cd s" "stored cd (s\<lparr>cs_rejected := n\<rparr>) = stored cd s"
  "RefCount (s\<lparr>cs_rejected := n\<rparr>) = RefCount s"
  by (simp_all add: chunk_inv_def stored_def RefCount_def fun_eq_iff)

subsection \<open>Compression keeps every content\<close>

definition only_shrinks :: "codec \<Rightarrow> chunk_store \<Rightarrow> chunk_store \<Rightarrow> bool" where
  "only_shrinks cd s s' \<longleftrightarrow>
     chunk_inv cd s' \<and> stored cd s' = stored cd s \<and> RefCount s' = RefCount s \<and>
     cs_limit s' = cs_limit s \<and> cs_bytes s' \<le> cs_bytes s"

lemma only_shrinks_refl: "chunk_inv cd s \<Longrightarrow> only_shrinks cd s s"
  by (simp add: only_shrinks_def)

lemma only_shrinks_trans: "only_shrinks cd s s' \<Longrightarrow> only_shrinks cd s' s'' \<Longrightarrow> only_shrinks cd s s''"
  by (simp add: only_shrinks_def)

definition deflated :: "hash \<Rightarrow> chunk_entry \<Rightarrow> bytes \<Rightarrow> chunk_store \<Rightarrow> chunk_store" where
  "deflated h e z s =
     (put_chunk h (e\<lparr>ce_content := z, ce_compressed := True\<rparr>) s)
       \<lparr>cs_bytes := cs_bytes s - (int (length (ce_content e)) - int (length z))\<rparr>"

lemma compress_loop_cases:
  obtains (stop) "compress_loop cd target (h # hs) s freed = (freed, s)"
  | (skip) "compress_loop cd target (h # hs) s freed = compress_loop cd target hs s freed"
  | (deflate) e z where "chunk_of s h = Some e" "\<not> ce_compressed e"
      "flateCompress cd (ce_content e) = Some z" "length z < length (ce_content e)"
      "compress_loop cd target (h # hs) s freed = compress_loop cd target hs (deflated h e z s)
         (freed + (int (length (ce_content e)) - int (length z)))"
proof (cases "\<exists>e z. freed < target \<and> chunk_of s h = Some e \<and> \<not> ce_compressed e \<and> ce_content e \<noteq> [] \<and>
    flateCompress cd (ce_content e) = Some z \<and> length z < length (ce_content e)")
  case True
  then show thesis using deflate by (auto simp: Let_def deflated_def)
next
  case False
  show thesis
  proof (cases "freed \<ge> target")
    case below: False
    have "compress_loop cd target (h # hs) s freed = compress_loop cd target hs s freed"
      using False below by (auto split: option.split)
    then show thesis by (rule skip)
  qed (use stop in simp)
qed

lemma deflated_spec:
  assumes cd: "codec_ok cd" and inv: "chunk_inv cd s" and e: "chunk_of s h = Some e" "\<not> ce_compressed e"
    and z: "flateCompress cd (ce_content e) = Some z" "length z < length (ce_content e)"
  shows "only_shrinks cd s (deflated h e z s)"
proof -
  let ?e = "e\<lparr>ce_content := z, ce_compressed := True\<rparr>" and ?s = "deflated h e z s"
  have raw: "entry_raw cd ?e = entry_raw cd e" using cd e z by (simp add: entry_raw_def codec_ok_def)
  have "chunk_inv cd ?s"
    by (rule chunk_inv_replace [OF inv e(1) raw])
      (use chunk_invD [OF inv] e z in \<open>auto simp: entry_ok_def deflated_def\<close>)
  moreover have "stored cd ?s = stored cd s"
    by (rule stored_replace [OF e(1) raw]) (simp add: deflated_def)
  moreover have "RefCount ?s = RefCount s"
    using RefCount_replace [of ?s h ?e s] e(1) by (simp add: RefCount_def fun_eq_iff deflated_def)
  ultimately show ?thesis using z by (simp add: only_shrinks_def deflated_def)
qed

lemma compress_loop_spec:
  assumes "codec_ok cd" "chunk_inv cd s"
  shows "only_shrinks cd s (snd (compress_loop cd target hs s freed))"
  using assms(2)
proof (induction hs arbitrary: s freed)
  case (Cons h hs)
  show ?case
  proof (cases rule: compress_loop_cases [of cd target h hs s freed])
    case (deflate e z)
    have d: "only_shrinks cd s (deflated h e z s)"
      by (rule deflated_spec [OF assms(1) Cons.prems deflate(1-4)])
    moreover have "chunk_inv cd (deflated h e z s)" using d by (simp add: only_shrinks_def)
    ultimately show ?thesis using Cons.IH only_shrinks_trans unfolding deflate(5) by blast
  next
    case skip
    then show ?thesis using Cons.IH [OF Cons.prems, of freed] by simp
  qed (simp add: only_shrinks_refl Cons.prems)
qed (simp add: only_shrinks_refl)

lemma make_room_spec:
  assumes "codec_ok cd" "chunk_inv cd s"
  shows "only_shrinks cd s (make_room cd need s)"
  using compress_loop_spec [OF assms, of "cs_bytes s + need - cs_limit s" "coldCandidatesLocked s" 0] assms
  by (auto simp: make_room_def compressColdChunksLocked_def case_prod_unfold Let_def chunk_counters
      only_shrinks_def)

subsection \<open>The operations\<close>

lemma entry_okD:
  "entry_ok cd h e \<Longrightarrow> ce_refs e \<ge> 1 \<and> (\<exists>raw. entry_raw cd e = Some raw \<and> SumHash cd raw = h \<and>
     int (length raw) = ce_raw_size e)"
  by (simp add: entry_ok_def)

lemma stored_digest:
  "chunk_inv cd s \<Longrightarrow> stored cd s h = Some c \<Longrightarrow> SumHash cd c = h"
  using chunk_invD(2) [of cd s h] by (fastforce simp: stored_def entry_ok_def split: option.splits)

lemma Put_hit:
  assumes inv: "chunk_inv cd s" and e: "chunk_of s (SumHash cd content) = Some e"
  shows "\<exists>s'. Put cd now content s = (Inr (SumHash cd content, True), s') \<and> chunk_inv cd s' \<and>
    stored cd s' = stored cd s \<and> RefCount s' = (RefCount s)(SumHash cd content := ce_refs e + 1) \<and>
    cs_limit s' = cs_limit s"
proof -
  let ?h = "SumHash cd content" and ?e = "e\<lparr>ce_refs := ce_refs e + 1, ce_access_at := now\<rparr>"
  let ?s = "(put_chunk ?h ?e s)\<lparr>cs_dedup_hits := cs_dedup_hits s + 1\<rparr>"
  have raw: "entry_raw cd ?e = entry_raw cd e" by (simp add: entry_raw_def)
  have "ce_refs e \<ge> 1" using chunk_invD(2) [OF inv e] by (simp add: entry_ok_def)
  then have "chunk_inv cd ?s"
    by (intro chunk_inv_replace [OF inv e raw]) (use chunk_invD [OF inv] in auto)
  moreover have "stored cd ?s = stored cd s" by (rule stored_replace [OF e raw]) simp
  moreover have "RefCount ?s = (RefCount s)(?h := ce_refs e + 1)"
    using RefCount_replace [of ?s ?h ?e s] by simp
  ultimately show ?thesis using e by (simp add: Put_def Let_def)
qed

lemma Put_new:
  assumes cd: "codec_ok cd" and inv: "chunk_inv cd s" and e: "chunk_of s (SumHash cd content) = None"
    and room: "cs_limit s > 0 \<Longrightarrow> cs_bytes (make_room cd (int (length content)) s) + int (length content) \<le> cs_limit s"
  shows "\<exists>s'. Put cd now content s = (Inr (SumHash cd content, False), s') \<and> chunk_inv cd s' \<and>
    stored cd s' = (stored cd s)(SumHash cd content \<mapsto> content) \<and>
    RefCount s' = (RefCount s)(SumHash cd content := 1) \<and> cs_limit s' = cs_limit s"
proof -
  let ?h = "SumHash cd content" and ?need = "int (length content)"
  let ?m = "make_room cd ?need s"
  let ?e = "\<lparr>ce_content = content, ce_refs = 1, ce_compressed = False, ce_raw_size = ?need, ce_access_at = now\<rparr>"
  let ?s = "(put_chunk ?h ?e ?m)\<lparr>cs_bytes := cs_bytes ?m + ?need, cs_raw_bytes := cs_raw_bytes ?m + ?need,
     cs_unique_puts := cs_unique_puts ?m + 1\<rparr>"
  have m: "only_shrinks cd s ?m" by (rule make_room_spec [OF cd inv])
  then have minv: "chunk_inv cd ?m" by (simp add: only_shrinks_def)
  have none: "chunk_of ?m ?h = None"
  proof (rule ccontr)
    assume "chunk_of ?m ?h \<noteq> None"
    then have "RefCount ?m ?h \<ge> 1"
      using chunk_invD(2) [OF minv] by (auto simp: RefCount_def entry_ok_def)
    moreover have "RefCount ?m ?h = 0" using m e by (simp add: only_shrinks_def RefCount_def)
    ultimately show False by simp
  qed
  have "chunk_inv cd ?s"
    using chunk_invD [OF minv] none m room
    by (auto simp: chunk_inv_def alist_sum_put_new entry_ok_def entry_raw_def only_shrinks_def)
  moreover have "stored cd ?s = (stored cd s)(?h \<mapsto> content)"
  proof -
    have "stored cd ?s = (stored cd ?m)(?h \<mapsto> content)"
      by (auto simp: stored_def entry_raw_def fun_eq_iff)
    with m show ?thesis by (simp add: only_shrinks_def)
  qed
  moreover have "RefCount ?s = (RefCount s)(?h := 1)"
  proof -
    have "RefCount ?s = (RefCount ?m)(?h := 1)" by (auto simp: RefCount_def fun_eq_iff)
    with m show ?thesis by (simp add: only_shrinks_def)
  qed
  moreover have "cs_limit ?s = cs_limit s" using m by (simp add: only_shrinks_def)
  moreover have "Put cd now content s = (Inr (?h, False), ?s)"
    using e room by (auto simp: Put_def Let_def)
  ultimately show ?thesis by blast
qed

lemma Put_rejected:
  assumes cd: "codec_ok cd" and inv: "chunk_inv cd s" and e: "chunk_of s (SumHash cd content) = None"
    and full: "cs_limit s > 0" "cs_bytes (make_room cd (int (length content)) s) + int (length content) > cs_limit s"
  shows "\<exists>s'. Put cd now content s = (Inl ErrMemoryPressure, s') \<and> only_shrinks cd s s'"
  using make_room_spec [OF cd inv, of "int (length content)"] e full
  by (auto simp: Put_def Let_def only_shrinks_def chunk_counters)

lemma Put_cases:
  assumes "codec_ok cd" "chunk_inv cd s"
  obtains (hit) e s' where "chunk_of s (SumHash cd content) = Some e"
      "Put cd now content s = (Inr (SumHash cd content, True), s')" "chunk_inv cd s'"
      "stored cd s' = stored cd s" "RefCount s' = (RefCount s)(SumHash cd content := ce_refs e + 1)"
      "cs_limit s' = cs_limit s"
  | (new) s' where "chunk_of s (SumHash cd content) = None"
      "Put cd now content s = (Inr (SumHash cd content, False), s')" "chunk_inv cd s'"
      "stored cd s' = (stored cd s)(SumHash cd content \<mapsto> content)"
      "RefCount s' = (RefCount s)(SumHash cd content := 1)" "cs_limit s' = cs_limit s"
  | (rejected) s' where "chunk_of s (SumHash cd content) = None" "cs_limit s > 0"
      "cs_bytes s + int (length content) > cs_limit s"
      "Put cd now content s = (Inl ErrMemoryPressure, s')" "only_shrinks cd s s'"
proof (cases "chunk_of s (SumHash cd content)")
  case (Some e)
  with Put_hit [OF assms(2) Some, of now] hit show thesis by blast
next
  case None
  show thesis
  proof (cases "cs_limit s > 0 \<and>
      cs_bytes (make_room cd (int (length content)) s) + int (length content) > cs_limit s")
    case True
    moreover have "cs_bytes (make_room cd (int (length content)) s) \<le> cs_bytes s"
      using make_room_spec [OF assms] by (simp add: only_shrinks_def)
    ultimately show thesis using Put_rejected [OF assms None, of now] rejected None by fastforce
  next
    case False
    then show thesis using Put_new [OF assms None, of now] new None by fastforce
  qed
qed

lemma Acquire_spec:
  assumes inv: "chunk_inv cd s" and e: "chunk_of s h = Some e"
  shows "\<exists>s'. Acquire h s = (Inr (), s') \<and> chunk_inv cd s' \<and> stored cd s' = stored cd s \<and>
    RefCount s' = (RefCount s)(h := RefCount s h + 1) \<and> cs_limit s' = cs_limit s"
proof -
  let ?e = "e\<lparr>ce_refs := ce_refs e + 1\<rparr>" and ?s = "put_chunk h (e\<lparr>ce_refs := ce_refs e + 1\<rparr>) s"
  have raw: "entry_raw cd ?e = entry_raw cd e" by (simp add: entry_raw_def)
  have "ce_refs e \<ge> 1" using chunk_invD(2) [OF inv e] by (simp add: entry_ok_def)
  then have "chunk_inv cd ?s"
    by (intro chunk_inv_replace [OF inv e raw]) (use chunk_invD [OF inv] in auto)
  moreover have "stored cd ?s = stored cd s" by (rule stored_replace [OF e raw]) simp
  moreover have "RefCount ?s = (RefCount s)(h := RefCount s h + 1)"
    using RefCount_replace [of ?s h ?e s] e by (simp add: RefCount_def)
  ultimately show ?thesis using e by (simp add: Acquire_def)
qed

lemma Release_spec:
  assumes inv: "chunk_inv cd s" and e: "chunk_of s h = Some e"
  shows "\<exists>s'. Release h s = (Inr (), s') \<and> chunk_inv cd s' \<and>
    stored cd s' = (if RefCount s h = 1 then (stored cd s)(h := None) else stored cd s) \<and>
    RefCount s' = (RefCount s)(h := RefCount s h - 1) \<and> cs_limit s' = cs_limit s"
proof -
  have refs: "ce_refs e \<ge> 1" "RefCount s h = ce_refs e"
    using chunk_invD(2) [OF inv e] e by (simp_all add: entry_ok_def RefCount_def)
  show ?thesis
  proof (cases "ce_refs e \<le> 1")
    case True
    let ?s = "snd (Release h s)"
    have del: "cs_chunks ?s = alist_del h (cs_chunks s)" "cs_limit ?s = cs_limit s"
      "cs_bytes ?s = cs_bytes s - int (length (ce_content e))" "cs_raw_bytes ?s = cs_raw_bytes s - ce_raw_size e"
      "fst (Release h s) = Inr ()"
      using e True by (simp_all add: Release_def)
    have "chunk_inv cd ?s"
      using chunk_invD [OF inv] e by (fastforce simp: chunk_inv_def del alist_sum_del)
    moreover have "stored cd ?s = (stored cd s)(h := None)" by (auto simp: stored_def fun_eq_iff del)
    moreover have "RefCount ?s = (RefCount s)(h := RefCount s h - 1)"
      using True refs by (auto simp: RefCount_def fun_eq_iff del)
    ultimately show ?thesis using True refs del by (intro exI [of _ ?s]) (simp add: prod_eq_iff)
  next
    case False
    let ?e = "e\<lparr>ce_refs := ce_refs e - 1\<rparr>" and ?s = "put_chunk h (e\<lparr>ce_refs := ce_refs e - 1\<rparr>) s"
    have raw: "entry_raw cd ?e = entry_raw cd e" by (simp add: entry_raw_def)
    have "chunk_inv cd ?s"
      by (intro chunk_inv_replace [OF inv e raw]) (use chunk_invD [OF inv] False in auto)
    moreover have "stored cd ?s = stored cd s" by (rule stored_replace [OF e raw]) simp
    moreover have "RefCount ?s = (RefCount s)(h := RefCount s h - 1)"
      using RefCount_replace [of ?s h ?e s] refs by simp
    ultimately show ?thesis using e False refs by (simp add: Release_def)
  qed
qed

lemma get_inflate_spec:
  assumes inv: "chunk_inv cd s" and raw: "stored cd s h = Some raw \<or> stored cd s h = None"
  shows "chunk_inv cd (get_inflate h raw s) \<and> stored cd (get_inflate h raw s) = stored cd s \<and>
    RefCount (get_inflate h raw s) = RefCount s \<and> cs_limit (get_inflate h raw s) = cs_limit s"
proof (cases "chunk_of s h")
  case (Some e)
  have e: "entry_raw cd e = Some raw" "int (length raw) = ce_raw_size e" "ce_refs e \<ge> 1"
    using chunk_invD(2) [OF inv Some] raw Some by (auto simp: entry_ok_def stored_def)
  show ?thesis
  proof (cases "ce_compressed e \<and>
      (cs_limit s \<le> 0 \<or> cs_bytes s + (int (length raw) - int (length (ce_content e))) \<le> cs_limit s)")
    case True
    let ?e = "e\<lparr>ce_content := raw, ce_compressed := False\<rparr>" and ?s = "get_inflate h raw s"
    have s: "cs_chunks ?s = alist_put h ?e (cs_chunks s)" "cs_limit ?s = cs_limit s"
      "cs_raw_bytes ?s = cs_raw_bytes s"
      "cs_bytes ?s = cs_bytes s - int (length (ce_content e)) + int (length (ce_content ?e))"
      using True Some by (auto simp: get_inflate_def Let_def)
    have r: "entry_raw cd ?e = entry_raw cd e" using e by (simp add: entry_raw_def)
    have "chunk_inv cd ?s"
      by (rule chunk_inv_replace [OF inv Some r _ _ s]) (use e True s in auto)
    moreover have "stored cd ?s = stored cd s" by (rule stored_replace [OF Some r s(1)])
    moreover have "RefCount ?s = RefCount s"
      using RefCount_replace [OF s(1)] Some by (simp add: RefCount_def fun_eq_iff)
    ultimately show ?thesis using s by simp
  qed (use inv Some in \<open>auto simp: get_inflate_def Let_def\<close>)
qed (use inv in \<open>simp add: get_inflate_def\<close>)

lemma get_read_spec:
  assumes inv: "chunk_inv cd s"
  shows "chunk_inv cd (snd (get_read cd now h s)) \<and> stored cd (snd (get_read cd now h s)) = stored cd s \<and>
    RefCount (snd (get_read cd now h s)) = RefCount s \<and> cs_limit (snd (get_read cd now h s)) = cs_limit s \<and>
    (case stored cd s h of
       None \<Rightarrow> fst (get_read cd now h s) = Inl ErrChunkNotFound
     | Some raw \<Rightarrow> \<exists>z. fst (get_read cd now h s) = Inr (raw, z))"
proof (cases "chunk_of s h")
  case (Some e)
  let ?e = "e\<lparr>ce_access_at := now\<rparr>" and ?s = "put_chunk h (e\<lparr>ce_access_at := now\<rparr>) s"
  have eq: "snd (get_read cd now h s) = ?s"
    using Some by (auto simp: get_read_def Let_def split: option.split)
  have raw: "entry_raw cd ?e = entry_raw cd e" by (simp add: entry_raw_def)
  obtain c where c: "entry_raw cd e = Some c" "int (length c) = ce_raw_size e" "ce_refs e \<ge> 1"
    using chunk_invD(2) [OF inv Some] by (auto simp: entry_ok_def)
  have "chunk_inv cd ?s"
    by (rule chunk_inv_replace [OF inv Some raw]) (use chunk_invD [OF inv] c in auto)
  moreover have "stored cd ?s = stored cd s" by (rule stored_replace [OF Some raw]) simp
  moreover have "RefCount ?s = RefCount s"
    using RefCount_replace [of ?s h ?e s] Some by (simp add: RefCount_def fun_eq_iff)
  moreover have "\<exists>z. fst (get_read cd now h s) = Inr (c, z)" "stored cd s h = Some c"
    using Some c by (auto simp: get_read_def Let_def entry_raw_def stored_def split: if_splits)
  ultimately show ?thesis unfolding eq by simp
qed (use inv in \<open>simp add: get_read_def stored_def\<close>)

lemma Get_spec:
  assumes inv: "chunk_inv cd s"
  shows "chunk_inv cd (snd (Get cd now h s)) \<and> stored cd (snd (Get cd now h s)) = stored cd s \<and>
    RefCount (snd (Get cd now h s)) = RefCount s \<and> cs_limit (snd (Get cd now h s)) = cs_limit s \<and>
    fst (Get cd now h s) = (case stored cd s h of None \<Rightarrow> Inl ErrChunkNotFound | Some raw \<Rightarrow> Inr raw)"
proof -
  obtain r s1 where r: "get_read cd now h s = (r, s1)" by fastforce
  note spec = get_read_spec [OF inv, of now h, unfolded r, simplified]
  show ?thesis
  proof (cases "stored cd s h")
    case None
    then show ?thesis using spec r by (simp add: Get_def)
  next
    case (Some raw)
    then obtain z where z: "r = Inr (raw, z)" using spec by auto
    have "stored cd s1 h = Some raw" using spec Some by simp
    with get_inflate_spec [of cd s1 h raw] spec show ?thesis using r z Some by (simp add: Get_def)
  qed
qed

subsection \<open>The interface file bodies rely on\<close>

text \<open>A provider of chunks: putting returns a handle to the content and keeps what is stored, getting
  returns what is stored and changes nothing a client can see. \<open>safe\<close> singles out the contents for
  which the handle is unambiguous.\<close>

locale chunk_provider =
  fixes put :: "bytes \<Rightarrow> 's \<Rightarrow> (vfs_error + hash) \<times> 's"
    and get :: "hash \<Rightarrow> 's \<Rightarrow> (vfs_error + bytes) \<times> 's"
    and sto :: "'s \<Rightarrow> hash \<Rightarrow> bytes option"
    and ok :: "'s \<Rightarrow> bool"
    and safe :: "bytes \<Rightarrow> bool"
  assumes get_ok: "ok s \<Longrightarrow> ok (snd (get h s)) \<and> sto (snd (get h s)) = sto s"
    and get_result: "ok s \<Longrightarrow>
      fst (get h s) = (case sto s h of None \<Rightarrow> Inl ErrChunkNotFound | Some c \<Rightarrow> Inr c)"
    and put_ok: "ok s \<Longrightarrow> safe c \<Longrightarrow> put c s = (Inr h, s') \<Longrightarrow>
      ok s' \<and> sto s' h = Some c \<and> (\<forall>k x. sto s k = Some x \<longrightarrow> sto s' k = Some x)"
    and put_fail: "ok s \<Longrightarrow> put c s = (Inl e, s') \<Longrightarrow> ok s' \<and> sto s' = sto s"

definition put_hash :: "codec \<Rightarrow> int \<Rightarrow> bytes \<Rightarrow> chunk_store \<Rightarrow> (vfs_error + hash) \<times> chunk_store" where
  "put_hash cd now content s = (case Put cd now content s of (r, s') \<Rightarrow> (map_sum (\<lambda>e. e) fst r, s'))"

lemma stored_unique:
  "chunk_inv cd s \<Longrightarrow> collision_free cd c \<Longrightarrow> stored cd s (SumHash cd c) = Some x \<Longrightarrow> x = c"
  using stored_digest by (force simp: collision_free_def)

lemma stored_present: "chunk_inv cd s \<Longrightarrow> chunk_of s h = Some e \<Longrightarrow> \<exists>x. stored cd s h = Some x"
  using chunk_invD(2) [of cd s h e] by (auto simp: stored_def entry_ok_def)

lemma put_hash_ok:
  assumes "codec_ok cd" "chunk_inv cd s" "collision_free cd c" "put_hash cd now c s = (Inr h, s')"
  shows "chunk_inv cd s' \<and> stored cd s' h = Some c \<and> (\<forall>k x. stored cd s k = Some x \<longrightarrow> stored cd s' k = Some x)"
  using assms(1,2)
proof (cases rule: Put_cases [where content = c and now = now])
  case (hit e s'')
  from stored_present [OF assms(2) hit(1)] obtain x where "stored cd s (SumHash cd c) = Some x" ..
  with stored_unique [OF assms(2,3)] hit assms(4) show ?thesis by (auto simp: put_hash_def)
next
  case (new s'')
  moreover have "stored cd s (SumHash cd c) = None" using new(1) by (simp add: stored_def)
  ultimately show ?thesis using assms(4) by (auto simp: put_hash_def)
qed (use assms(4) in \<open>auto simp: put_hash_def\<close>)

lemma put_hash_fail:
  assumes "codec_ok cd" "chunk_inv cd s" "put_hash cd now c s = (Inl e, s')"
  shows "chunk_inv cd s' \<and> stored cd s' = stored cd s"
  using assms(1,2)
  by (cases rule: Put_cases [where content = c and now = now])
    (use assms(3) in \<open>auto simp: put_hash_def only_shrinks_def\<close>)

interpretation chunks: chunk_provider "put_hash cd now" "Get cd now" "stored cd"
  "\<lambda>s. codec_ok cd \<and> chunk_inv cd s" "collision_free cd"
  for cd now
  by unfold_locales (use Get_spec put_hash_ok put_hash_fail in blast)+

subsection \<open>Runs\<close>

datatype chunk_op = OpPut bytes | OpAcquire hash | OpRelease hash | OpGetChunk hash

fun chunk_step :: "codec \<Rightarrow> int \<times> chunk_op \<Rightarrow> chunk_store \<Rightarrow> chunk_store" where
  "chunk_step cd (now, OpPut c) s = snd (Put cd now c s)"
| "chunk_step cd (now, OpAcquire h) s = snd (Acquire h s)"
| "chunk_step cd (now, OpRelease h) s = snd (Release h s)"
| "chunk_step cd (now, OpGetChunk h) s = snd (Get cd now h s)"

definition chunk_run :: "codec \<Rightarrow> (int \<times> chunk_op) list \<Rightarrow> chunk_store \<Rightarrow> chunk_store" where
  "chunk_run cd ops s = fold (chunk_step cd) ops s"

lemma Put_inv:
  assumes "codec_ok cd" "chunk_inv cd s"
  shows "chunk_inv cd (snd (Put cd now c s))"
  using assms by (cases rule: Put_cases [where content = c and now = now]) (auto simp: only_shrinks_def)

lemma Acquire_inv: "chunk_inv cd s \<Longrightarrow> chunk_inv cd (snd (Acquire h s))"
  using Acquire_spec [of cd s h] by (cases "chunk_of s h") (auto simp: Acquire_def)

lemma Release_inv: "chunk_inv cd s \<Longrightarrow> chunk_inv cd (snd (Release h s))"
  using Release_spec [of cd s h] by (cases "chunk_of s h") (fastforce simp: Release_def)+

lemma chunk_step_inv: "codec_ok cd \<Longrightarrow> chunk_inv cd s \<Longrightarrow> chunk_inv cd (chunk_step cd op s)"
  by (cases "(cd, op, s)" rule: chunk_step.cases) (simp_all add: Put_inv Acquire_inv Release_inv Get_spec)

lemma chunk_run_inv: "codec_ok cd \<Longrightarrow> chunk_inv cd s \<Longrightarrow> chunk_inv cd (chunk_run cd ops s)"
  unfolding chunk_run_def by (induction ops arbitrary: s) (simp_all add: chunk_step_inv)

lemma chunk_inv_New: "chunk_inv cd (NewChunkStore limit)"
  by (simp add: chunk_inv_def NewChunkStore_def)



text \<open>Reference counting is exact. A successful put or acquire adds one reference to its hash, a
  release of a present chunk removes one and drops the content with the last, a get and a put
  rejected for memory pressure change no count and no content; a put is rejected only if the store
  is bounded and the new content would not fit uncompressed.\<close>

theorem chunk_refcounts:
  assumes "codec_ok cd" "chunk_inv cd s"
  shows "(case Put cd now content s of
        (Inr (h, dedup), s') \<Rightarrow> RefCount s' = (RefCount s)(h := RefCount s h + 1) \<and> dedup = Has s h
      | (Inl err, s') \<Rightarrow> err = ErrMemoryPressure \<and> RefCount s' = RefCount s \<and> stored cd s' = stored cd s \<and>
          cs_limit s > 0 \<and> cs_bytes s + int (length content) > cs_limit s) \<and>
    RefCount (snd (Acquire h s)) = (if Has s h then (RefCount s)(h := RefCount s h + 1) else RefCount s) \<and>
    RefCount (snd (Release h s)) = (if Has s h then (RefCount s)(h := RefCount s h - 1) else RefCount s) \<and>
    Has (snd (Release h s)) k = (RefCount (snd (Release h s)) k > 0) \<and>
    RefCount (snd (Get cd now h s)) = RefCount s"
proof (intro conjI)
  have has: "Has s' k = (RefCount s' k > 0)" if "chunk_inv cd s'" for s' k
    using chunk_invD(2) [OF that] by (fastforce simp: Has_def RefCount_def entry_ok_def split: option.splits)
  show "case Put cd now content s of
      (Inr (h, dedup), s') \<Rightarrow> RefCount s' = (RefCount s)(h := RefCount s h + 1) \<and> dedup = Has s h
    | (Inl err, s') \<Rightarrow> err = ErrMemoryPressure \<and> RefCount s' = RefCount s \<and> stored cd s' = stored cd s \<and>
        cs_limit s > 0 \<and> cs_bytes s + int (length content) > cs_limit s"
    using assms
    by (cases rule: Put_cases [where content = content and now = now])
      (auto simp: Has_def RefCount_def only_shrinks_def)
  show "RefCount (snd (Acquire h s)) = (if Has s h then (RefCount s)(h := RefCount s h + 1) else RefCount s)"
    using Acquire_spec [OF assms(2), of h] by (auto simp: Has_def Acquire_def)
  show "RefCount (snd (Release h s)) = (if Has s h then (RefCount s)(h := RefCount s h - 1) else RefCount s)"
    using Release_spec [OF assms(2), of h] by (cases "chunk_of s h") (auto simp: Has_def, auto simp: Release_def)
  show "Has (snd (Release h s)) k = (RefCount (snd (Release h s)) k > 0)"
    by (rule has [OF Release_inv [OF assms(2)]])
  show "RefCount (snd (Get cd now h s)) = RefCount s" using Get_spec [OF assms(2)] by simp
qed

subsection \<open>A concrete run\<close>

definition sample_codec :: codec where
  "sample_codec =
     \<lparr>SumHash = (\<lambda>x. x),
      flateCompress = (\<lambda>x. if x = ''aaaaaaaa'' then Some ''z'' else None),
      flateDecompress = (\<lambda>y. if y = ''z'' then Some ''aaaaaaaa'' else None)\<rparr>"

definition sample_chunks :: chunk_store where
  "sample_chunks = chunk_run sample_codec [(1, OpPut ''aaaaaaaa''), (2, OpPut ''bbbb'')] (NewChunkStore 10)"

lemma sample_codec_ok: "codec_ok sample_codec" "collision_free sample_codec c"
  by (simp_all add: codec_ok_def collision_free_def sample_codec_def)



theorem chunk_refcounts_witness:
  "RefCount (snd (Release ''bbbb'' sample_chunks)) ''bbbb'' = 0 \<and> \<not> Has (snd (Release ''bbbb'' sample_chunks)) ''bbbb''"
proof -
  have inv: "chunk_inv sample_codec sample_chunks"
    unfolding sample_chunks_def by (rule chunk_run_inv [OF sample_codec_ok(1) chunk_inv_New])
  have "Has sample_chunks ''bbbb''" "RefCount sample_chunks ''bbbb'' = 1" by code_simp+
  then show ?thesis
    using chunk_refcounts [OF sample_codec_ok(1) inv, where h = "''bbbb''" and k = "''bbbb''"] by simp
qed

end
