(* ===== verification/Vfs_Path.thy ===== *)
theory Vfs_Path imports
  Chunk_Store
  "HOL-Library.Sublist"
begin

text \<open>
  Paths of the virtual file system: what \<^verbatim>\<open>vfs/tree.go\<close>, \<^verbatim>\<open>overlay.go\<close>, \<^verbatim>\<open>events.go\<close> and \<^verbatim>\<open>tar.go\<close> use of Go's
  \<^verbatim>\<open>path\<close> and \<^verbatim>\<open>strings\<close> packages, and their own helpers. A clean path is the rendering of a list of
  names; the lemmas relate every helper to that list.
\<close>

datatype tree_error =
  ErrNotExist | ErrExist | ErrNotDir | ErrIsDir | ErrInvalidPath | ErrNotEmpty | ErrFileClosed
| ErrBody vfs_error | ErrOS string | PanicNilMap

section \<open>Go's path and strings packages\<close>

abbreviation (input) slash :: char where "slash \<equiv> CHR ''/''"

fun split_slash :: "string \<Rightarrow> string list" where
  "split_slash [] = [[]]"
| "split_slash (c # cs) =
     (if c = slash then [] # split_slash cs
      else case split_slash cs of p # ps \<Rightarrow> (c # p) # ps | [] \<Rightarrow> [[c]])"

fun join_slash :: "string list \<Rightarrow> string" where
  "join_slash [] = []"
| "join_slash [p] = p"
| "join_slash (p # q # ps) = p @ slash # join_slash (q # ps)"

text \<open>\<^verbatim>\<open>path.Clean\<close>: the elements kept so far, the last one first.\<close>

fun clean_parts :: "bool \<Rightarrow> string list \<Rightarrow> string list \<Rightarrow> string list" where
  "clean_parts rooted [] acc = rev acc"
| "clean_parts rooted (p # ps) acc =
     (if p = [] \<or> p = ''.'' then clean_parts rooted ps acc
      else if p = ''..'' then
        (case acc of
           [] \<Rightarrow> if rooted then clean_parts rooted ps [] else clean_parts rooted ps [''..'']
         | a # as \<Rightarrow> if a = ''..'' then clean_parts rooted ps (''..'' # acc) else clean_parts rooted ps as)
      else clean_parts rooted ps (p # acc))"

definition path_Clean :: "string \<Rightarrow> string" where
  "path_Clean p =
     (if p = [] then ''.''
      else let rooted = (hd p = slash); out = join_slash (clean_parts rooted (split_slash p) [])
           in if rooted then slash # out else if out = [] then ''.'' else out)"

text \<open>\<^verbatim>\<open>path.Split\<close>: up to and including the last slash, and the rest.\<close>

definition path_Split :: "string \<Rightarrow> string \<times> string" where
  "path_Split p =
     (rev (dropWhile (\<lambda>c. c \<noteq> slash) (rev p)), rev (takeWhile (\<lambda>c. c \<noteq> slash) (rev p)))"

definition path_Dir :: "string \<Rightarrow> string" where
  "path_Dir p = path_Clean (fst (path_Split p))"

definition HasPrefix :: "string \<Rightarrow> string \<Rightarrow> bool" where
  "HasPrefix s p = prefix p s"

definition TrimSuffix :: "string \<Rightarrow> string \<Rightarrow> string" where
  "TrimSuffix s x = (if suffix x s then take (length s - length x) s else s)"

definition TrimPrefix :: "string \<Rightarrow> string \<Rightarrow> string" where
  "TrimPrefix s x = (if prefix x s then drop (length x) s else s)"

definition TrimRight_slash :: "string \<Rightarrow> string" where
  "TrimRight_slash s = rev (dropWhile (\<lambda>c. c = slash) (rev s))"

definition Trim_slash :: "string \<Rightarrow> string" where
  "Trim_slash s = TrimRight_slash (dropWhile (\<lambda>c. c = slash) s)"

text \<open>\<^verbatim>\<open>strings.TrimSpace\<close> on ASCII: tab, line feed, vertical tab, form feed, carriage return, space.\<close>

definition is_space :: "char \<Rightarrow> bool" where
  "is_space c = (let n = of_char c :: nat in n = 32 \<or> 9 \<le> n \<and> n \<le> 13)"

definition TrimSpace :: "string \<Rightarrow> string" where
  "TrimSpace s = rev (dropWhile is_space (rev (dropWhile is_space s)))"

section \<open>Helpers of the tree\<close>

definition cleanPath :: "string \<Rightarrow> tree_error + string" where
  "cleanPath p =
     (if p = [] then Inl ErrInvalidPath
      else if CHR 0x5C \<in> set p then Inl ErrInvalidPath
      else let p' = (if \<not> HasPrefix p ''/'' then ''/'' @ p else p);
               cleaned = path_Clean p'
           in if HasPrefix cleaned ''/..'' \<or> cleaned = ''..'' then Inl ErrInvalidPath else Inr cleaned)"

definition splitPath :: "string \<Rightarrow> tree_error + (string \<times> string)" where
  "splitPath p =
     (case cleanPath p of
        Inl err \<Rightarrow> Inl err
      | Inr clean \<Rightarrow>
          if clean = ''/'' then Inl ErrInvalidPath
          else let (dir, name) = path_Split clean;
                   dir = TrimSuffix dir ''/'';
                   dir = (if dir = [] then ''/'' else dir)
               in if name = [] then Inl ErrInvalidPath else Inr (dir, name))"

definition splitNonEmpty :: "string \<Rightarrow> string list" where
  "splitNonEmpty p = filter (\<lambda>part. part \<noteq> []) (split_slash p)"

definition joinPath :: "string \<Rightarrow> string \<Rightarrow> string" where
  "joinPath dir name = (if dir = ''/'' then ''/'' @ name else dir @ ''/'' @ name)"

section \<open>Clean paths are lists of names\<close>

definition valid_name :: "string \<Rightarrow> bool" where
  "valid_name n \<longleftrightarrow> n \<noteq> [] \<and> slash \<notin> set n \<and> n \<noteq> ''.'' \<and> n \<noteq> ''..''"

definition render :: "string list \<Rightarrow> string" where
  "render cs = slash # join_slash cs"

text \<open>The names of a path the tree accepts.\<close>

definition path_ok :: "string list \<Rightarrow> bool" where
  "path_ok cs \<longleftrightarrow> list_all valid_name cs \<and> list_all (\<lambda>n. CHR 0x5C \<notin> set n) cs \<and> (cs \<noteq> [] \<longrightarrow> \<not> prefix ''..'' (hd cs))"

lemma split_slash_ne [simp]: "split_slash s \<noteq> []"
  by (cases s) (auto split: list.split)

lemma split_no_slash: "slash \<notin> set n \<Longrightarrow> split_slash n = [n]"
  by (induction n) auto

lemma split_append: "slash \<notin> set n \<Longrightarrow> split_slash (n @ slash # s) = n # split_slash s"
  by (induction n) auto

lemma split_join_slash: "cs \<noteq> [] \<Longrightarrow> list_all (\<lambda>n. slash \<notin> set n) cs \<Longrightarrow> split_slash (join_slash cs) = cs"
  by (induction cs rule: join_slash.induct) (simp_all add: split_no_slash split_append)

lemma split_parts_no_slash: "list_all (\<lambda>n. slash \<notin> set n) (split_slash s)"
  by (induction s) (auto split: list.split)

lemma split_parts_subset: "n \<in> set (split_slash s) \<Longrightarrow> set n \<subseteq> set s"
  by (induction s arbitrary: n) (fastforce split: list.splits if_splits)+

lemma valid_no_slash: "list_all valid_name cs \<Longrightarrow> list_all (\<lambda>n. slash \<notin> set n) cs"
  by (simp add: list_all_iff valid_name_def)

lemma clean_parts_names:
  "list_all (\<lambda>n. slash \<notin> set n) ps \<Longrightarrow> list_all valid_name acc \<Longrightarrow>
   list_all valid_name (clean_parts True ps acc) \<and> set (clean_parts True ps acc) \<subseteq> set ps \<union> set acc"
proof (induction ps arbitrary: acc)
  case (Cons p ps)
  show ?case
    using Cons(2,3) Cons(1) [of acc] Cons(1) [of "[]"] Cons(1) [of "tl acc"] Cons(1) [of "p # acc"]
    by (cases acc) (auto simp: valid_name_def)
qed (simp add: list_all_iff)

lemma clean_parts_id: "list_all valid_name cs \<Longrightarrow> clean_parts True cs acc = rev acc @ cs"
  by (induction cs arbitrary: acc) (auto simp: valid_name_def)

lemma render_Nil [simp]: "render [] = ''/''"
  by (simp add: render_def)

lemma path_Clean_rooted: "path_Clean (slash # s) = render (clean_parts True (split_slash s) [])"
  by (simp add: path_Clean_def render_def Let_def)

lemma path_Clean_render: "list_all valid_name cs \<Longrightarrow> path_Clean (render cs) = render cs"
  unfolding render_def path_Clean_rooted
  by (cases "cs = []") (simp_all add: split_join_slash valid_no_slash clean_parts_id render_def)

lemma splitNonEmpty_render: "list_all valid_name cs \<Longrightarrow> splitNonEmpty (render cs) = cs"
  by (cases "cs = []")
    (simp_all add: splitNonEmpty_def render_def split_join_slash valid_no_slash filter_id_conv list_all_iff valid_name_def)

lemma render_inject: "list_all valid_name cs \<Longrightarrow> list_all valid_name ds \<Longrightarrow> render cs = render ds \<longleftrightarrow> cs = ds"
  by (metis splitNonEmpty_render)

lemma prefix_dotdot_render: "list_all valid_name cs \<Longrightarrow> prefix ''/..'' (render cs) \<longleftrightarrow> cs \<noteq> [] \<and> prefix ''..'' (hd cs)"
proof (cases cs rule: join_slash.cases)
  case (3 p q ps)
  assume "list_all valid_name cs"
  with 3 have p: "p \<noteq> []" "slash \<notin> set p" "p \<noteq> ''.''" by (auto simp: valid_name_def)
  then obtain a r where a: "p = a # r" by (cases p) auto
  show ?thesis using p 3 by (cases r) (auto simp: render_def a)
qed (auto simp: render_def)

lemma cleanPath_cases:
  obtains (invalid) "cleanPath p = Inl ErrInvalidPath" | (clean) cs where "cleanPath p = Inr (render cs)" "path_ok cs"
proof (cases "p = [] \<or> CHR 0x5C \<in> set p")
  case True
  then show thesis using invalid by (auto simp: cleanPath_def)
next
  case False
  define s where "s = (if HasPrefix p ''/'' then tl p else p)"
  define cs where "cs = clean_parts True (split_slash s) []"
  have s: "(if \<not> HasPrefix p ''/'' then ''/'' @ p else p) = slash # s"
    using False by (cases p) (auto simp: s_def HasPrefix_def)
  have ns: "CHR 0x5C \<notin> set s" using False by (cases p) (auto simp: s_def)
  have v: "list_all valid_name cs" "set cs \<subseteq> set (split_slash s)"
    using clean_parts_names [OF split_parts_no_slash, of "[]" s] by (simp_all add: cs_def)
  have b: "list_all (\<lambda>n. CHR 0x5C \<notin> set n) cs"
    using v(2) split_parts_subset [of _ s] ns by (fastforce simp: list_all_iff)
  have cl: "path_Clean (slash # s) = render cs" by (simp add: path_Clean_rooted cs_def)
  have "render cs \<noteq> ''..''" by (simp add: render_def)
  show thesis
  proof (cases "prefix ''/..'' (render cs)")
    case True
    then show thesis using invalid False cl unfolding cleanPath_def s by (auto simp: HasPrefix_def)
  next
    case np: False
    have "cleanPath p = Inr (render cs)"
      using False cl np \<open>render cs \<noteq> ''..''\<close> unfolding cleanPath_def s by (auto simp: HasPrefix_def)
    moreover have "path_ok cs" using v(1) b np prefix_dotdot_render [OF v(1)] by (auto simp: path_ok_def)
    ultimately show thesis by (rule clean)
  qed
qed

lemma path_ok_valid: "path_ok cs \<Longrightarrow> list_all valid_name cs"
  by (simp add: path_ok_def)

lemma set_join_slash: "set (join_slash cs) \<subseteq> insert slash (\<Union> (set ` set cs))"
  by (induction cs rule: join_slash.induct) auto

lemma cleanPath_render: "path_ok cs \<Longrightarrow> cleanPath (render cs) = Inr (render cs)"
proof -
  assume ok: "path_ok cs"
  have "CHR 0x5C \<notin> set (render cs)"
    using ok set_join_slash [of cs] by (auto simp: render_def path_ok_def list_all_iff)
  moreover have "\<not> prefix ''/..'' (render cs)" using ok prefix_dotdot_render [of cs] by (auto simp: path_ok_def)
  moreover have "render cs \<noteq> []" "HasPrefix (render cs) ''/''" "render cs \<noteq> ''..''"
    by (simp_all add: render_def HasPrefix_def)
  ultimately show ?thesis
    using path_Clean_render [OF path_ok_valid [OF ok]] by (simp add: cleanPath_def HasPrefix_def)
qed

lemma path_ok_butlast: "path_ok cs \<Longrightarrow> path_ok (butlast cs)"
proof (cases cs rule: rev_cases)
  case (snoc ds d)
  assume "path_ok cs"
  then show ?thesis using snoc by (cases ds) (simp_all add: path_ok_def)
qed simp

lemma path_ok_take: "path_ok cs \<Longrightarrow> path_ok (take k cs)"
  by (cases cs; cases k) (auto simp: path_ok_def list_all_iff dest: in_set_takeD)

lemma join_slash_snoc: "cs \<noteq> [] \<Longrightarrow> join_slash (cs @ [n]) = join_slash cs @ slash # n"
  by (induction cs rule: join_slash.induct) simp_all

lemma render_snoc: "render (cs @ [n]) = (if cs = [] then ''/'' @ n else render cs @ slash # n)"
  by (simp add: render_def join_slash_snoc)

lemma render_eq_root: "list_all valid_name cs \<Longrightarrow> render cs = ''/'' \<longleftrightarrow> cs = []"
  using render_inject [of cs "[]"] by simp

lemma joinPath_render: "list_all valid_name cs \<Longrightarrow> joinPath (render cs) n = render (cs @ [n])"
  using render_eq_root [of cs] by (auto simp: joinPath_def render_snoc)

lemma path_Split_snoc: "slash \<notin> set n \<Longrightarrow> path_Split (s @ slash # n) = (s @ [slash], n)"
proof -
  assume n: "slash \<notin> set n"
  have "takeWhile (\<lambda>c. c \<noteq> slash) (rev n @ slash # rev s) = rev n"
    "dropWhile (\<lambda>c. c \<noteq> slash) (rev n @ slash # rev s) = slash # rev s"
    using n by (simp_all add: takeWhile_append dropWhile_append)
  then show ?thesis by (simp add: path_Split_def)
qed

lemma path_Split_render:
  assumes "list_all valid_name (cs @ [n])"
  shows "path_Split (render (cs @ [n])) = (if cs = [] then ''/'' else render cs @ ''/'', n)"
  using assms path_Split_snoc [of n "[]"] path_Split_snoc [of n "render cs"] by (auto simp: render_snoc valid_name_def)

lemma splitPath_render:
  assumes "path_ok (cs @ [n])"
  shows "splitPath (render (cs @ [n])) = Inr (render cs, n)"
proof -
  have v: "list_all valid_name (cs @ [n])" using assms by (rule path_ok_valid)
  have "TrimSuffix ''/'' ''/'' = []" "TrimSuffix (render cs @ ''/'') ''/'' = render cs"
    by (simp_all add: TrimSuffix_def suffix_def)
  moreover have "n \<noteq> []" "render cs \<noteq> []" using v by (auto simp: valid_name_def render_def)
  ultimately show ?thesis
    using cleanPath_render [OF assms] render_eq_root [OF v] path_Split_render [OF v]
    by (auto simp: splitPath_def Let_def)
qed

lemma splitPath_cases:
  obtains (bad) "splitPath p = Inl ErrInvalidPath"
  | (parts) cs n where "cleanPath p = Inr (render (cs @ [n]))" "path_ok (cs @ [n])" "splitPath p = Inr (render cs, n)"
proof (cases rule: cleanPath_cases [of p])
  case invalid
  then show thesis using bad by (simp add: splitPath_def)
next
  case (clean ds)
  show thesis
  proof (cases ds rule: rev_cases)
    case Nil
    then show thesis using bad clean by (simp add: splitPath_def)
  next
    case (snoc cs n)
    have "splitPath p = splitPath (render ds)"
      using clean(1) cleanPath_render [OF clean(2)] by (simp add: splitPath_def)
    then show thesis using parts [of cs n] clean snoc splitPath_render [of cs n] by simp
  qed
qed

lemma path_Dir_render:
  assumes "list_all valid_name (cs @ [n])"
  shows "path_Dir (render (cs @ [n])) = render cs"
proof (cases "cs = []")
  case True
  then show ?thesis using path_Split_render [OF assms] by (simp add: path_Dir_def path_Clean_def)
next
  case False
  have v: "list_all valid_name cs" using assms by simp
  have "split_slash (join_slash cs @ ''/'') = cs @ [[]]"
    using False valid_no_slash [OF v] by (induction cs rule: join_slash.induct) (simp_all add: split_append)
  moreover have "clean_parts True (cs @ [[]]) acc = rev acc @ cs" for acc
    using v by (induction cs arbitrary: acc) (auto simp: valid_name_def)
  ultimately have "path_Clean (render cs @ ''/'') = render cs" by (simp add: render_def path_Clean_def)
  then show ?thesis using path_Split_render [OF assms] False by (simp add: path_Dir_def)
qed

text \<open>Below a directory means: its rendering with a slash is a prefix.\<close>

lemma prefix_join: "list_all (\<lambda>n. slash \<notin> set n) (cs @ ds) \<Longrightarrow> cs \<noteq> [] \<Longrightarrow>
    prefix (join_slash cs @ [slash]) (join_slash ds) \<longleftrightarrow> strict_prefix cs ds"
proof (induction cs arbitrary: ds rule: join_slash.induct)
  case (2 p)
  show ?case
  proof (cases ds rule: join_slash.cases)
    case (2 q)
    then show ?thesis using \<open>list_all _ _\<close> by (auto simp: prefix_def strict_prefix_def dest: arg_cong [where f = set])
  next
    case (3 q r rs)
    then have "slash \<notin> set p" "slash \<notin> set q" using \<open>list_all _ _\<close> by simp_all
    then have "prefix (p @ [slash]) (q @ slash # join_slash (r # rs)) \<longleftrightarrow> p = q"
      by (auto simp: prefix_def append_eq_append_conv2 append_eq_Cons_conv Cons_eq_append_conv)
    then show ?thesis using 3 by (auto simp: strict_prefix_def)
  qed simp
next
  case (3 p q ps)
  show ?case
  proof (cases ds rule: join_slash.cases)
    case (2 r)
    have "slash \<in> set (join_slash (p # q # ps) @ [slash])" by simp
    then have "\<not> prefix (join_slash (p # q # ps) @ [slash]) r" using 2 3(2) set_mono_prefix by fastforce
    then show ?thesis using 2 by (auto simp: strict_prefix_def)
  next
    case (3 r s rs)
    then have "slash \<notin> set p" "slash \<notin> set r" using \<open>list_all _ (_ @ ds)\<close> by simp_all
    then have "prefix ((p @ slash # join_slash (q # ps)) @ [slash]) (r @ slash # join_slash (s # rs)) \<longleftrightarrow>
        p = r \<and> prefix (join_slash (q # ps) @ [slash]) (join_slash (s # rs))"
      by (auto simp: prefix_def append_eq_append_conv2 append_eq_Cons_conv Cons_eq_append_conv)
    then show ?thesis using 3 \<open>list_all _ (_ @ ds)\<close> "3.IH" [of "s # rs"] by auto
  qed simp
qed simp

lemma below_render:
  assumes "list_all valid_name cs" "list_all valid_name ds" "cs \<noteq> []"
  shows "HasPrefix (render ds) (render cs @ ''/'') \<longleftrightarrow> strict_prefix cs ds"
  using prefix_join [of cs ds] assms valid_no_slash [of cs] valid_no_slash [of ds] by (simp add: HasPrefix_def render_def)

end
