(* ===== verification/Vfs_Events.thy ===== *)
theory Vfs_Events imports
  Vfs_Path
begin

text \<open>
  Change events of the virtual file system (\<^verbatim>\<open>vfs/events.go\<close>): subscribers with a bounded buffer, the
  publisher that never blocks, and the loop that turns dropped events into one coalesced marker. A
  channel is the list of its buffered events. The loop of a subscriber is a small state machine, so
  that publications and receptions may come between any two of its steps. Proved: no published change
  goes unnoticed.
\<close>

datatype ChangeOp = OpWrite | OpMkdir | OpRemove | OpRename | OpSymlink | OpChmod | OpChtime

definition ChangeOp_String :: "ChangeOp \<Rightarrow> string" where
  "ChangeOp_String op =
     (case op of OpWrite \<Rightarrow> ''write'' | OpMkdir \<Rightarrow> ''mkdir'' | OpRemove \<Rightarrow> ''remove'' | OpRename \<Rightarrow> ''rename''
      | OpSymlink \<Rightarrow> ''symlink'' | OpChmod \<Rightarrow> ''chmod'' | OpChtime \<Rightarrow> ''chtime'')"

record ChangeEvent =
  ev_Path :: string
  ev_Op :: ChangeOp
  ev_ModTime :: gotime
  ev_OldPath :: string
  ev_LinkTarget :: string
  ev_Coalesced :: bool

definition change_event :: "string \<Rightarrow> ChangeOp \<Rightarrow> gotime \<Rightarrow> ChangeEvent" where
  "change_event p op now =
     \<lparr>ev_Path = p, ev_Op = op, ev_ModTime = now, ev_OldPath = [], ev_LinkTarget = [], ev_Coalesced = False\<rparr>"

text \<open>Where the coalescing loop is: waiting for the signal, past it, or holding the root it took.\<close>

datatype loop_phase = LoopIdle | LoopAwake | LoopHolds string

record subscriber =
  sb_id :: nat
  sb_prefix :: string
  sb_buf :: nat
  sb_ch :: "ChangeEvent list"
  sb_pending :: bool
  sb_closed :: bool
  sb_overflowed :: bool
  sb_coalesceRoot :: string
  sb_loop :: loop_phase

section \<open>Path helpers\<close>

definition cleanPrefix :: "string \<Rightarrow> string" where
  "cleanPrefix p0 =
     (let p = TrimSpace p0 in
      if p = [] \<or> p = ''/'' then []
      else TrimRight_slash (if \<not> HasPrefix p ''/'' then ''/'' @ p else p))"

definition pathMatchesPrefix :: "string \<Rightarrow> string \<Rightarrow> bool" where
  "pathMatchesPrefix p pre = (if pre = [] then True else if p = pre then True else HasPrefix p (pre @ ''/''))"

fun common_parts :: "string list \<Rightarrow> string list \<Rightarrow> string list" where
  "common_parts (a # as) (b # bs) = (if a \<noteq> b then [] else a # common_parts as bs)"
| "common_parts _ _ = []"

definition commonPathPrefix :: "string \<Rightarrow> string \<Rightarrow> string" where
  "commonPathPrefix a b =
     (if a = [] then b else if b = [] then a
      else let out = common_parts (split_slash (Trim_slash a)) (split_slash (Trim_slash b))
           in if out = [] then ''/'' else ''/'' @ join_slash out)"

section \<open>Subscribing and publishing\<close>

definition new_subscriber :: "nat \<Rightarrow> string \<Rightarrow> int \<Rightarrow> subscriber" where
  "new_subscriber newid pathPrefix buffer =
     \<lparr>sb_id = newid, sb_prefix = cleanPrefix pathPrefix, sb_buf = (if buffer \<le> 0 then 64 else nat buffer),
      sb_ch = [], sb_pending = False, sb_closed = False, sb_overflowed = False, sb_coalesceRoot = [],
      sb_loop = LoopIdle\<rparr>"

definition Subscribe :: "nat \<Rightarrow> string \<Rightarrow> int \<Rightarrow> subscriber list \<Rightarrow> subscriber list" where
  "Subscribe newid pathPrefix buffer subs = subs @ [new_subscriber newid pathPrefix buffer]"

definition unsub :: "nat \<Rightarrow> subscriber list \<Rightarrow> subscriber list" where
  "unsub i subs = filter (\<lambda>sub. sb_id sub \<noteq> i) subs"

definition markOverflow :: "string \<Rightarrow> subscriber \<Rightarrow> subscriber" where
  "markOverflow droppedPath s =
     (let s = (if \<not> sb_overflowed s then s\<lparr>sb_overflowed := True, sb_coalesceRoot := droppedPath\<rparr>
               else s\<lparr>sb_coalesceRoot := commonPathPrefix (sb_coalesceRoot s) droppedPath\<rparr>)
      in s\<lparr>sb_pending := True\<rparr>)"

definition publish_to :: "ChangeEvent \<Rightarrow> subscriber \<Rightarrow> subscriber" where
  "publish_to ev sub =
     (if sb_closed sub then sub
      else if sb_prefix sub \<noteq> [] \<and> \<not> pathMatchesPrefix (ev_Path ev) (sb_prefix sub) then sub
      else if length (sb_ch sub) < sb_buf sub then sub\<lparr>sb_ch := sb_ch sub @ [ev]\<rparr>
      else markOverflow (ev_Path ev) sub)"

definition publish :: "ChangeEvent \<Rightarrow> subscriber list \<Rightarrow> subscriber list" where
  "publish ev subs = map (publish_to ev) subs"

text \<open>The coalescing loop: it takes the signal, then the root, then tries to send.\<close>

definition coalesce_wake :: "subscriber \<Rightarrow> subscriber" where
  "coalesce_wake sub =
     (if sb_loop sub = LoopIdle \<and> sb_pending sub then sub\<lparr>sb_pending := False, sb_loop := LoopAwake\<rparr> else sub)"

definition coalesce_take :: "subscriber \<Rightarrow> subscriber" where
  "coalesce_take sub =
     (if sb_loop sub = LoopAwake then
        if \<not> sb_overflowed sub then sub\<lparr>sb_loop := LoopIdle\<rparr>
        else sub\<lparr>sb_loop := LoopHolds (sb_coalesceRoot sub), sb_overflowed := False, sb_coalesceRoot := []\<rparr>
      else sub)"

definition coalesce_send :: "gotime \<Rightarrow> subscriber \<Rightarrow> subscriber" where
  "coalesce_send now sub =
     (case sb_loop sub of
        LoopHolds root \<Rightarrow>
          let ev = (change_event root OpWrite now)\<lparr>ev_Coalesced := True\<rparr>; sub = sub\<lparr>sb_loop := LoopIdle\<rparr> in
          if sb_closed sub then sub
          else if length (sb_ch sub) < sb_buf sub then sub\<lparr>sb_ch := sb_ch sub @ [ev]\<rparr>
          else markOverflow root sub
      | _ \<Rightarrow> sub)"

section \<open>Paths and coverage\<close>

lemma TrimRight_slash_id: "s = [] \<or> last s \<noteq> slash \<Longrightarrow> TrimRight_slash s = s"
  by (cases s rule: rev_cases) (auto simp: TrimRight_slash_def)

lemma valid_name_ends: "valid_name n \<Longrightarrow> n \<noteq> [] \<and> hd n \<noteq> slash \<and> last n \<noteq> slash"
  by (metis hd_in_set last_in_set valid_name_def)

lemma join_slash_ends:
  "list_all valid_name cs \<Longrightarrow> cs \<noteq> [] \<Longrightarrow> join_slash cs \<noteq> [] \<and> hd (join_slash cs) \<noteq> slash \<and> last (join_slash cs) \<noteq> slash"
  by (induction cs rule: join_slash.induct) (simp_all add: valid_name_ends)

lemma Trim_slash_render: "list_all valid_name cs \<Longrightarrow> Trim_slash (render cs) = join_slash cs"
proof (cases "cs = []")
  case False
  assume "list_all valid_name cs"
  note j = join_slash_ends [OF this False]
  then have "dropWhile (\<lambda>c. c = slash) (join_slash cs) = join_slash cs" by (cases "join_slash cs") auto
  then show ?thesis using j by (simp add: Trim_slash_def render_def TrimRight_slash_id)
qed (simp add: Trim_slash_def TrimRight_slash_def)

lemma common_parts_prefix: "prefix (common_parts as bs) as" "prefix (common_parts as bs) bs"
  by (induction as bs rule: common_parts.induct) auto

lemma common_parts_valid: "list_all P as \<Longrightarrow> list_all P (common_parts as bs)"
  by (induction as bs rule: common_parts.induct) auto

lemma Trim_slash_root: "Trim_slash ''/'' = []"
  by (simp add: Trim_slash_def TrimRight_slash_def)

lemma trimmed_parts:
  "list_all valid_name cs \<Longrightarrow> split_slash (Trim_slash (render cs)) = (if cs = [] then [[]] else cs)"
  by (simp add: Trim_slash_render split_join_slash valid_no_slash)

lemma common_parts_root: "list_all valid_name cs \<Longrightarrow> cs \<noteq> [] \<Longrightarrow> common_parts [[]] cs = [] \<and> common_parts cs [[]] = []"
  by (cases cs) (auto simp: valid_name_def)

lemma render_nonempty: "render cs \<noteq> []"
  by (simp add: render_def)

lemma commonPathPrefix_render:
  assumes "list_all valid_name as" "list_all valid_name bs"
  shows "commonPathPrefix (render as) (render bs) = render (common_parts as bs)"
  using assms common_parts_root [of as] common_parts_root [of bs]
  by (cases "as = []"; cases "bs = []")
    (simp_all add: commonPathPrefix_def trimmed_parts render_nonempty Let_def Trim_slash_root, simp_all add: render_def)

definition covers :: "string \<Rightarrow> string \<Rightarrow> bool" where
  "covers q p \<longleftrightarrow> q = ''/'' \<or> p = q \<or> HasPrefix p (q @ ''/'')"

lemma covers_render: "list_all valid_name as \<Longrightarrow> list_all valid_name bs \<Longrightarrow> covers (render as) (render bs) \<longleftrightarrow> prefix as bs"
  by (cases "as = []") (auto simp: covers_def below_render render_inject render_eq_root strict_prefix_def)

text \<open>The paths that go through the machine.\<close>

definition clean_path :: "string \<Rightarrow> bool" where
  "clean_path p \<longleftrightarrow> (\<exists>cs. list_all valid_name cs \<and> p = render cs)"

lemma clean_common: "clean_path a \<Longrightarrow> clean_path b \<Longrightarrow> clean_path (commonPathPrefix a b)"
  by (auto simp: clean_path_def commonPathPrefix_render dest: common_parts_valid)

lemma covers_common:
  assumes "clean_path a" "clean_path b" "clean_path p"
  shows "covers a p \<Longrightarrow> covers (commonPathPrefix a b) p" "covers b p \<Longrightarrow> covers (commonPathPrefix a b) p"
proof -
  from assms obtain as bs ps where v: "list_all valid_name as" "list_all valid_name bs" "list_all valid_name ps"
    and [simp]: "a = render as" "b = render bs" "p = render ps"
    by (auto simp: clean_path_def)
  note c = covers_render [OF common_parts_valid [OF v(1)] v(3)]
  show "covers a p \<Longrightarrow> covers (commonPathPrefix a b) p"
    using v c [of bs] common_parts_prefix(1) [of as bs]
    by (auto simp: commonPathPrefix_render covers_render intro: prefix_order.trans)
  show "covers b p \<Longrightarrow> covers (commonPathPrefix a b) p"
    using v c [of bs] common_parts_prefix(2) [of as bs]
    by (auto simp: commonPathPrefix_render covers_render intro: prefix_order.trans)
qed

lemma covers_refl: "covers p p"
  by (simp add: covers_def)

section \<open>One subscriber at work\<close>

text \<open>
  A subscription with its history: every publication, with the length of the event stream when it
  happened, and what the consumer has received.
\<close>

record watch =
  w_sub :: subscriber
  w_published :: "(ChangeEvent \<times> nat) list"
  w_received :: "ChangeEvent list"

definition stream :: "watch \<Rightarrow> ChangeEvent list" where
  "stream w = w_received w @ sb_ch (w_sub w)"

definition watch_start :: "nat \<Rightarrow> string \<Rightarrow> int \<Rightarrow> watch" where
  "watch_start i pre buffer = \<lparr>w_sub = new_subscriber i pre buffer, w_published = [], w_received = []\<rparr>"

definition w_publish :: "ChangeEvent \<Rightarrow> watch \<Rightarrow> watch" where
  "w_publish ev w =
     w\<lparr>w_sub := publish_to ev (w_sub w), w_published := w_published w @ [(ev, length (stream w))]\<rparr>"

definition w_receive :: "watch \<Rightarrow> watch" where
  "w_receive w =
     (case sb_ch (w_sub w) of [] \<Rightarrow> w
      | e # es \<Rightarrow> w\<lparr>w_sub := (w_sub w)\<lparr>sb_ch := es\<rparr>, w_received := w_received w @ [e]\<rparr>)"

definition on_sub :: "(subscriber \<Rightarrow> subscriber) \<Rightarrow> watch \<Rightarrow> watch" where
  "on_sub f w = w\<lparr>w_sub := f (w_sub w)\<rparr>"

inductive watch_step :: "watch \<Rightarrow> watch \<Rightarrow> bool" where
  ws_publish: "clean_path (ev_Path ev) \<Longrightarrow> watch_step w (w_publish ev w)"
| ws_receive: "watch_step w (w_receive w)"
| ws_wake: "watch_step w (on_sub coalesce_wake w)"
| ws_take: "watch_step w (on_sub coalesce_take w)"
| ws_send: "watch_step w (on_sub (coalesce_send now) w)"

text \<open>The consumer empties its channel; the loop goes round twice.\<close>

definition w_receive_all :: "watch \<Rightarrow> watch" where
  "w_receive_all w = (w_receive ^^ length (sb_ch (w_sub w))) w"

definition w_round :: "gotime \<Rightarrow> watch \<Rightarrow> watch" where
  "w_round now w = w_receive_all (on_sub (coalesce_send now) (on_sub coalesce_take (on_sub coalesce_wake w)))"

definition w_drain :: "gotime \<Rightarrow> watch \<Rightarrow> watch" where
  "w_drain now w = w_round now (w_round now (w_receive_all w))"

definition wants :: "subscriber \<Rightarrow> ChangeEvent \<Rightarrow> bool" where
  "wants sub ev \<longleftrightarrow> sb_prefix sub = [] \<or> pathMatchesPrefix (ev_Path ev) (sb_prefix sub)"

definition tells :: "ChangeEvent list \<Rightarrow> ChangeEvent \<Rightarrow> bool" where
  "tells es ev \<longleftrightarrow> list_ex (\<lambda>c. c = ev \<or> ev_Coalesced c \<and> covers (ev_Path c) (ev_Path ev)) es"

subsection \<open>Invariant\<close>

definition owed :: "subscriber \<Rightarrow> string \<Rightarrow> bool" where
  "owed sub p \<longleftrightarrow>
     sb_overflowed sub \<and> covers (sb_coalesceRoot sub) p \<or> (\<exists>r. sb_loop sub = LoopHolds r \<and> covers r p)"

definition watch_inv :: "watch \<Rightarrow> bool" where
  "watch_inv w \<longleftrightarrow>
     \<not> sb_closed (w_sub w) \<and> 0 < sb_buf (w_sub w) \<and>
     (sb_overflowed (w_sub w) \<longrightarrow>
        clean_path (sb_coalesceRoot (w_sub w)) \<and> (sb_pending (w_sub w) \<or> sb_loop (w_sub w) = LoopAwake)) \<and>
     (\<forall>r. sb_loop (w_sub w) = LoopHolds r \<longrightarrow> clean_path r) \<and>
     (\<forall>(ev, k) \<in> set (w_published w). clean_path (ev_Path ev) \<and> k \<le> length (stream w) \<and>
        (wants (w_sub w) ev \<longrightarrow> tells (drop k (stream w)) ev \<or> owed (w_sub w) (ev_Path ev)))"

lemma tells_append: "tells (xs @ ys) ev \<longleftrightarrow> tells xs ev \<or> tells ys ev"
  by (simp add: tells_def)

definition sub_ok :: "subscriber \<Rightarrow> bool" where
  "sub_ok sub \<longleftrightarrow>
     \<not> sb_closed sub \<and> 0 < sb_buf sub \<and>
     (sb_overflowed sub \<longrightarrow> clean_path (sb_coalesceRoot sub) \<and> (sb_pending sub \<or> sb_loop sub = LoopAwake)) \<and>
     (\<forall>r. sb_loop sub = LoopHolds r \<longrightarrow> clean_path r)"

lemma watch_inv_alt:
  "watch_inv w \<longleftrightarrow> sub_ok (w_sub w) \<and>
     (\<forall>(ev, k) \<in> set (w_published w). clean_path (ev_Path ev) \<and> k \<le> length (stream w) \<and>
        (wants (w_sub w) ev \<longrightarrow> tells (drop k (stream w)) ev \<or> owed (w_sub w) (ev_Path ev)))"
  by (auto simp: watch_inv_def sub_ok_def)

lemma watch_inv_grow:
  assumes "watch_inv w" "w_published w' = w_published w" "stream w' = stream w @ es"
    and "sb_prefix (w_sub w') = sb_prefix (w_sub w)" "sub_ok (w_sub w) \<Longrightarrow> sub_ok (w_sub w')"
    and "\<And>ev. clean_path (ev_Path ev) \<Longrightarrow> owed (w_sub w) (ev_Path ev) \<Longrightarrow> tells es ev \<or> owed (w_sub w') (ev_Path ev)"
  shows "watch_inv w'"
  using assms by (fastforce simp: watch_inv_alt tells_append wants_def)

lemma markOverflow_sel [simp]:
  "sb_prefix (markOverflow p s) = sb_prefix s" "sb_buf (markOverflow p s) = sb_buf s" "sb_ch (markOverflow p s) = sb_ch s"
  "sb_closed (markOverflow p s) = sb_closed s" "sb_loop (markOverflow p s) = sb_loop s"
  "sb_overflowed (markOverflow p s)" "sb_pending (markOverflow p s)"
  by (simp_all add: markOverflow_def)

lemma markOverflow_root:
  "sb_coalesceRoot (markOverflow p s) = (if sb_overflowed s then commonPathPrefix (sb_coalesceRoot s) p else p)"
  by (simp add: markOverflow_def)

lemma markOverflow_owes:
  assumes "sub_ok s" "clean_path p"
  shows "sub_ok (markOverflow p s)" "owed (markOverflow p s) p"
    and "clean_path q \<Longrightarrow> owed s q \<Longrightarrow> owed (markOverflow p s) q"
    and "clean_path q \<Longrightarrow> covers p q \<Longrightarrow> owed (markOverflow p s) q"
  using assms by (auto simp: sub_ok_def markOverflow_root owed_def covers_refl clean_common covers_common)

lemma publish_to_fits:
  "sub_ok s \<Longrightarrow> wants s ev \<Longrightarrow> length (sb_ch s) < sb_buf s \<Longrightarrow> publish_to ev s = s\<lparr>sb_ch := sb_ch s @ [ev]\<rparr>"
  by (auto simp: publish_to_def sub_ok_def wants_def)

lemma publish_to_drops:
  "sub_ok s \<Longrightarrow> wants s ev \<Longrightarrow> \<not> length (sb_ch s) < sb_buf s \<Longrightarrow> publish_to ev s = markOverflow (ev_Path ev) s"
  by (auto simp: publish_to_def sub_ok_def wants_def)

lemma publish_to_skips: "\<not> wants s ev \<Longrightarrow> publish_to ev s = s"
  by (auto simp: publish_to_def wants_def)

lemma publish_to_sel [simp]: "sb_prefix (publish_to ev s) = sb_prefix s"
  by (simp add: publish_to_def)

lemma w_publish_inv:
  assumes "watch_inv w" "clean_path (ev_Path ev)"
  shows "watch_inv (w_publish ev w)"
proof -
  let ?s = "w_sub w" and ?w = "w\<lparr>w_sub := publish_to ev (w_sub w)\<rparr>"
  have ok: "sub_ok ?s" using assms(1) by (simp add: watch_inv_alt)
  consider "\<not> wants ?s ev" | "wants ?s ev" "length (sb_ch ?s) < sb_buf ?s" | "wants ?s ev" "\<not> length (sb_ch ?s) < sb_buf ?s"
    by blast
  then have "watch_inv ?w \<and> length (stream w) \<le> length (stream ?w) \<and>
      (wants (w_sub ?w) ev \<longrightarrow> tells (drop (length (stream w)) (stream ?w)) ev \<or> owed (w_sub ?w) (ev_Path ev))"
  proof cases
    case 1
    then show ?thesis using assms by (simp add: publish_to_skips)
  next
    case 2
    note p = publish_to_fits [OF ok 2]
    have "watch_inv ?w"
      by (rule watch_inv_grow [OF assms(1), where es = "[ev]"]) (use ok p in \<open>auto simp: stream_def sub_ok_def owed_def\<close>)
    then show ?thesis using p by (simp add: stream_def tells_def)
  next
    case 3
    note p = publish_to_drops [OF ok 3]
    have "watch_inv ?w"
      by (rule watch_inv_grow [OF assms(1), where es = "[]"]) (use p markOverflow_owes [OF ok assms(2)] in \<open>auto simp: stream_def\<close>)
    then show ?thesis using p markOverflow_owes [OF ok assms(2)] by (simp add: stream_def)
  qed
  then show ?thesis using assms(2) by (auto simp: watch_inv_alt w_publish_def stream_def)
qed

lemma w_receive_inv: "watch_inv w \<Longrightarrow> watch_inv (w_receive w)"
  by (erule watch_inv_grow [where es = "[]"])
    (auto simp: w_receive_def stream_def watch_inv_alt sub_ok_def owed_def split: list.splits)

lemma wake_inv: "watch_inv w \<Longrightarrow> watch_inv (on_sub coalesce_wake w)"
  by (erule watch_inv_grow [where es = "[]"])
    (auto simp: on_sub_def coalesce_wake_def stream_def watch_inv_alt sub_ok_def owed_def)

lemma take_inv: "watch_inv w \<Longrightarrow> watch_inv (on_sub coalesce_take w)"
  by (erule watch_inv_grow [where es = "[]"])
    (auto simp: on_sub_def coalesce_take_def stream_def watch_inv_alt sub_ok_def owed_def)

lemma send_inv:
  assumes "watch_inv w"
  shows "watch_inv (on_sub (coalesce_send now) w)"
proof (cases "sb_loop (w_sub w)")
  case (LoopHolds r)
  let ?s = "(w_sub w)\<lparr>sb_loop := LoopIdle\<rparr>" and ?m = "(change_event r OpWrite now)\<lparr>ev_Coalesced := True\<rparr>"
  have ok: "sub_ok ?s" "clean_path r" using assms LoopHolds by (auto simp: watch_inv_alt sub_ok_def)
  have owes: "owed ?s p \<or> covers r p" if "owed (w_sub w) p" for p using that LoopHolds by (auto simp: owed_def)
  show ?thesis
  proof (cases "length (sb_ch ?s) < sb_buf ?s")
    case True
    then have s: "coalesce_send now (w_sub w) = ?s\<lparr>sb_ch := sb_ch ?s @ [?m]\<rparr>"
      using LoopHolds ok by (simp add: coalesce_send_def sub_ok_def)
    show ?thesis
      by (rule watch_inv_grow [OF assms, where es = "[?m]"])
        (use s ok owes in \<open>auto simp: on_sub_def stream_def sub_ok_def owed_def tells_def change_event_def\<close>)
  next
    case False
    then have s: "coalesce_send now (w_sub w) = markOverflow r ?s"
      using LoopHolds ok by (simp add: coalesce_send_def sub_ok_def)
    show ?thesis
      by (rule watch_inv_grow [OF assms, where es = "[]"])
        (use s markOverflow_owes [OF ok] owes in \<open>auto simp: on_sub_def stream_def\<close>)
  qed
qed (use assms in \<open>simp_all add: on_sub_def coalesce_send_def\<close>)

lemmas watch_inv_steps = w_publish_inv w_receive_inv wake_inv take_inv send_inv

lemma watch_reach_inv: "watch_step\<^sup>*\<^sup>* (watch_start i pre buffer) w \<Longrightarrow> watch_inv w"
proof (induction rule: rtranclp_induct)
  case base
  show ?case by (simp add: watch_inv_alt watch_start_def new_subscriber_def sub_ok_def)
qed (auto elim: watch_step.cases intro: watch_inv_steps)

subsection \<open>Draining\<close>

lemma w_receive_all_eq:
  "w_receive_all w = w\<lparr>w_sub := (w_sub w)\<lparr>sb_ch := []\<rparr>, w_received := w_received w @ sb_ch (w_sub w)\<rparr>"
proof -
  have "(w_receive ^^ length es) w = w\<lparr>w_sub := (w_sub w)\<lparr>sb_ch := []\<rparr>, w_received := w_received w @ es\<rparr>"
    if "sb_ch (w_sub w) = es" for es
    using that
  proof (induction es arbitrary: w)
    case (Cons e es)
    have "w_receive w = w\<lparr>w_sub := (w_sub w)\<lparr>sb_ch := es\<rparr>, w_received := w_received w @ [e]\<rparr>"
      using Cons.prems by (simp add: w_receive_def)
    then show ?case using Cons.IH [of "w_receive w"] by (simp add: funpow_Suc_right del: funpow.simps)
  qed simp
  then show ?thesis by (simp add: w_receive_all_def)
qed

lemma w_receive_all_steps: "watch_step\<^sup>*\<^sup>* w (w_receive_all w)"
proof -
  have "watch_step\<^sup>*\<^sup>* w ((w_receive ^^ n) w)" for n
    by (induction n) (auto intro: rtranclp.rtrancl_into_rtrancl ws_receive)
  then show ?thesis by (simp add: w_receive_all_def)
qed

lemma w_round_steps: "watch_step\<^sup>*\<^sup>* w (w_round now w)"
  unfolding w_round_def
  by (meson converse_rtranclp_into_rtranclp w_receive_all_steps ws_send ws_take ws_wake)

lemma w_drain_steps: "watch_step\<^sup>*\<^sup>* w (w_drain now w)"
  unfolding w_drain_def by (meson rtranclp_trans w_receive_all_steps w_round_steps)

lemmas round_defs = w_round_def w_receive_all_eq on_sub_def coalesce_wake_def coalesce_take_def coalesce_send_def

lemma w_round_published: "w_published (w_round now w) = w_published w"
  by (simp add: w_round_def w_receive_all_eq on_sub_def)

lemma publish_prefix_sel [simp]: "sb_prefix (coalesce_wake s) = sb_prefix s" "sb_prefix (coalesce_take s) = sb_prefix s"
  "sb_prefix (coalesce_send now s) = sb_prefix s"
  by (simp_all add: coalesce_wake_def coalesce_take_def coalesce_send_def Let_def split: loop_phase.split)

lemma w_round_prefix: "sb_prefix (w_sub (w_round now w)) = sb_prefix (w_sub w)"
  by (simp add: w_round_def w_receive_all_eq on_sub_def)

lemma w_round_idle:
  assumes "watch_inv w" "sb_ch (w_sub w) = []"
  shows "sb_loop (w_sub (w_round now w)) = LoopIdle \<and> sb_ch (w_sub (w_round now w)) = []"
  using assms by (cases "sb_loop (w_sub w)") (auto simp: round_defs watch_inv_alt sub_ok_def Let_def split: loop_phase.split)

lemma w_round_clears:
  assumes "watch_inv w" "sb_ch (w_sub w) = []" "sb_loop (w_sub w) = LoopIdle"
  shows "\<not> sb_overflowed (w_sub (w_round now w))"
  using assms by (auto simp: round_defs watch_inv_alt sub_ok_def Let_def)

lemma w_drain_state:
  assumes "watch_inv w"
  shows "sb_loop (w_sub (w_drain now w)) = LoopIdle" "sb_ch (w_sub (w_drain now w)) = []"
    "\<not> sb_overflowed (w_sub (w_drain now w))"
proof -
  have inv: "watch_inv v'" if "watch_inv v" "watch_step\<^sup>*\<^sup>* v v'" for v v'
    using that(2,1) by (induction rule: rtranclp_induct) (auto elim: watch_step.cases intro: watch_inv_steps)
  let ?v = "w_receive_all w"
  have v: "watch_inv ?v" "sb_ch (w_sub ?v) = []"
    using inv [OF assms w_receive_all_steps] by (auto simp: w_receive_all_eq)
  note r = w_round_idle [OF v, of now] inv [OF v(1) w_round_steps, of now]
  show "sb_loop (w_sub (w_drain now w)) = LoopIdle" "sb_ch (w_sub (w_drain now w)) = []"
    "\<not> sb_overflowed (w_sub (w_drain now w))"
    using r w_round_idle [OF r(2), of now] w_round_clears [OF r(2), of now] by (auto simp: w_drain_def)
qed

lemma w_drain_published: "w_published (w_drain now w) = w_published w" "sb_prefix (w_sub (w_drain now w)) = sb_prefix (w_sub w)"
  by (simp_all add: w_drain_def w_round_published w_round_prefix w_receive_all_eq)

section \<open>Properties\<close>


text \<open>Three changes under \<^verbatim>\<open>/a\<close> with a buffer of one: the first is received, the other two become one marker.\<close>

definition busy_watch :: watch where
  "busy_watch =
     w_publish (change_event ''/a/z'' OpRemove 3)
       (w_publish (change_event ''/a/y'' OpWrite 2)
         (w_publish (change_event ''/a/x'' OpWrite 1) (watch_start 7 ''/a/'' 1)))"

lemma watch_publish: "watch_step\<^sup>*\<^sup>* v w \<Longrightarrow> clean_path (ev_Path ev) \<Longrightarrow> watch_step\<^sup>*\<^sup>* v (w_publish ev w)"
  by (blast intro: rtranclp.rtrancl_into_rtrancl ws_publish)

lemma busy_watch_reach: "watch_step\<^sup>*\<^sup>* (watch_start 7 ''/a/'' 1) busy_watch"
proof -
  have "clean_path (render [''a'', [c]])" if "c \<in> {CHR ''x'', CHR ''y'', CHR ''z''}" for c
    unfolding clean_path_def using that by (intro exI [of _ "[''a'', [c]]"]) (auto simp: valid_name_def)
  from this [of "CHR ''x''"] this [of "CHR ''y''"] this [of "CHR ''z''"] show ?thesis
    unfolding busy_watch_def
    by (intro watch_publish rtranclp.rtrancl_refl) (simp_all add: render_def change_event_def)
qed


text \<open>
  A rename is filtered by its new path only: one that takes a file out of a subscriber's prefix is not
  delivered, although the change under the old path concerns it.
\<close>

lemma rename_out_unnoticed:
  "publish_to ((change_event ''/b/x'' OpRename now)\<lparr>ev_OldPath := ''/a/x''\<rparr>) (new_subscriber i ''/a'' n) = new_subscriber i ''/a'' n"
proof -
  have "\<not> pathMatchesPrefix ''/b/x'' (cleanPrefix ''/a'')" "cleanPrefix ''/a'' \<noteq> []" by code_simp+
  then show ?thesis by (simp add: publish_to_def new_subscriber_def change_event_def)
qed

lemma prefix_match_render:
  "list_all valid_name as \<Longrightarrow> as \<noteq> [] \<Longrightarrow> list_all valid_name bs \<Longrightarrow>
    pathMatchesPrefix (render bs) (render as) \<longleftrightarrow> prefix as bs"
  by (auto simp: pathMatchesPrefix_def render_nonempty render_inject below_render strict_prefix_def)

end
