(* ===== verification/Go_Sort.thy ===== *)
theory Go_Sort imports Prelude
begin

text \<open>
  The parts of Go's \<^verbatim>\<open>sort\<close> package the sources use: \<^verbatim>\<open>sort.Search\<close>, a binary search, is
  modelled as written; \<^verbatim>\<open>sort.SliceStable\<close> by a key is \<open>sort_key\<close>, which is stable too.
\<close>

function search_loop :: "(nat \<Rightarrow> bool) \<Rightarrow> nat \<Rightarrow> nat \<Rightarrow> nat" where
  "search_loop f i j =
     (if i < j then
        let h = (i + j) div 2
        in if \<not> f h then search_loop f (h + 1) j else search_loop f i h
      else i)"
  by pat_completeness auto
termination
  by (relation "measure (\<lambda>(f, i, j). j - i)") auto

declare search_loop.simps [simp del]

definition sort_Search :: "nat \<Rightarrow> (nat \<Rightarrow> bool) \<Rightarrow> nat" where
  "sort_Search n f = search_loop f 0 n"

lemma search_loop_upper:
  "i \<le> j \<Longrightarrow> search_loop f i j \<le> j \<and> (search_loop f i j < j \<longrightarrow> f (search_loop f i j))"
proof (induction f i j rule: search_loop.induct)
  case (1 f i j)
  show ?case
  proof (cases "i < j")
    case True
    let ?h = "(i + j) div 2"
    have h: "i \<le> ?h" "?h < j" using True by auto
    have eq: "search_loop f i j = (if f ?h then search_loop f i ?h else search_loop f (?h + 1) j)"
      using True by (subst search_loop.simps) (simp add: Let_def)
    show ?thesis
    proof (cases "f ?h")
      case fh: True
      with 1(2) [OF True refl] h have "search_loop f i ?h \<le> ?h \<and>
        (search_loop f i ?h < ?h \<longrightarrow> f (search_loop f i ?h))" by simp
      then show ?thesis using fh eq h by (cases "search_loop f i ?h = ?h") auto
    next
      case False
      with 1(1) [OF True refl] h eq show ?thesis by simp
    qed
  next
    case False
    then show ?thesis using 1(3) by (subst (1 2 3) search_loop.simps) simp
  qed
qed

lemma search_loop_lower:
  assumes mono: "\<And>a b. a \<le> b \<Longrightarrow> b < n \<Longrightarrow> f a \<Longrightarrow> f b"
  shows "j \<le> n \<Longrightarrow> i \<le> j \<Longrightarrow> (\<And>k. k < i \<Longrightarrow> \<not> f k) \<Longrightarrow> k < search_loop f i j \<Longrightarrow> \<not> f k"
proof (induction "j - i" arbitrary: i j rule: less_induct)
  case less
  show ?case
  proof (cases "i < j")
    case True
    let ?h = "(i + j) div 2"
    have h: "i \<le> ?h" "?h < j" using True by auto
    have eq: "search_loop f i j = (if f ?h then search_loop f i ?h else search_loop f (?h + 1) j)"
      using True by (subst search_loop.simps) (simp add: Let_def)
    show ?thesis
    proof (cases "f ?h")
      case fh: True
      from less.hyps [of ?h i] less.prems h eq fh show ?thesis by simp
    next
      case False
      have "\<not> f m" if "m < ?h + 1" for m
        using mono [of m ?h] that False h less.prems(1) by auto
      with less.hyps [of j "?h + 1"] less.prems h eq False show ?thesis by simp
    qed
  next
    case False
    then have "search_loop f i j = i" by (subst search_loop.simps) simp
    then show ?thesis using less.prems by simp
  qed
qed

text \<open>The index found is in range or the length, satisfies the predicate, and for a monotone predicate
  is the first to do so.\<close>

lemma sort_Search_le: "sort_Search n f \<le> n"
  using search_loop_upper [of 0 n f] by (simp add: sort_Search_def)

lemma sort_Search_holds: "sort_Search n f < n \<Longrightarrow> f (sort_Search n f)"
  using search_loop_upper [of 0 n f] by (simp add: sort_Search_def)

lemma sort_Search_first:
  assumes "\<And>a b. a \<le> b \<Longrightarrow> b < n \<Longrightarrow> f a \<Longrightarrow> f b" "k < sort_Search n f"
  shows "\<not> f k"
  using search_loop_lower [of n f n 0 k] assms by (auto simp: sort_Search_def)

lemma sort_Search_bound:
  assumes "\<And>a b. a \<le> b \<Longrightarrow> b < n \<Longrightarrow> f a \<Longrightarrow> f b" "f m"
  shows "sort_Search n f \<le> m"
proof (rule ccontr)
  assume "\<not> sort_Search n f \<le> m"
  then have "m < sort_Search n f" by simp
  with sort_Search_first [of n f m] assms show False by blast
qed

lemma sort_Search_eqI:
  assumes "\<And>a b. a \<le> b \<Longrightarrow> b < n \<Longrightarrow> f a \<Longrightarrow> f b" "r < n" "f r" "\<And>k. k < r \<Longrightarrow> \<not> f k"
  shows "sort_Search n f = r"
proof (rule linorder_cases [of "sort_Search n f" r])
  assume "r < sort_Search n f"
  with sort_Search_first [of n f r] assms show ?thesis by blast
next
  assume lt: "sort_Search n f < r"
  then show ?thesis using sort_Search_holds [of n f] assms(2) assms(4) [OF lt] by simp
qed

subsection \<open>Stable sorting of three blocks\<close>

lemma sort_key_swap_blocks:
  assumes "sorted (map f (L @ P @ R))" "\<And>x y. x \<in> set P \<Longrightarrow> y \<in> set R \<Longrightarrow> f x \<noteq> f y"
  shows "sort_key f ((L @ R) @ P) = L @ P @ R"
proof (rule properties_for_sort_key)
  fix x
  have "filter (\<lambda>y. f x = f y) P = [] \<or> filter (\<lambda>y. f x = f y) R = []"
    using assms(2) by (auto simp: filter_empty_conv)
  then show "filter (\<lambda>y. f x = f y) (L @ P @ R) = filter (\<lambda>y. f x = f y) ((L @ R) @ P)" by auto
qed (use assms in \<open>auto simp: ac_simps\<close>)

end
