(* ===== verification/File_Body.thy ===== *)
theory File_Body imports Chunk_Store Go_Sort
begin

text \<open>
  File contents as extent lists (\<^verbatim>\<open>providers/vfs/storage.go\<close>, \<^verbatim>\<open>Extent\<close> and \<^verbatim>\<open>FileBody\<close>).
  The operations take the store's \<open>put\<close> and \<open>get\<close> as arguments, to be instantiated with those of
  the chunk store; a nil store, a nil reader and a nil body are \<open>None\<close>. The host file reader is a
  parameter: given a path, a length and an offset it returns the bytes read and perhaps an error.
  Offsets and sizes are unbounded integers. A slice expression out of range, a Go panic, is the
  error \<open>PanicSliceBounds\<close>.
\<close>

datatype extent_kind = ExtentBlob | ExtentRealFile | ExtentZero

record extent =
  x_start :: int
  x_length :: int
  x_kind :: extent_kind
  x_hash :: hash
  x_blob_offset :: int
  x_real_path :: string
  x_real_offset :: int

definition x_end :: "extent \<Rightarrow> int" where
  "x_end e = x_start e + x_length e"

definition x_shift :: "int \<Rightarrow> extent \<Rightarrow> extent" where
  "x_shift delta e = e\<lparr>x_start := x_start e + delta\<rparr>"

definition x_subrange :: "int \<Rightarrow> int \<Rightarrow> extent \<Rightarrow> extent" where
  "x_subrange start stop e =
     (let delta = start - x_start e;
          out = e\<lparr>x_start := start, x_length := stop - start\<rparr>
      in case x_kind e of
           ExtentBlob \<Rightarrow> out\<lparr>x_blob_offset := x_blob_offset out + delta\<rparr>
         | ExtentRealFile \<Rightarrow> out\<lparr>x_real_offset := x_real_offset out + delta\<rparr>
         | ExtentZero \<Rightarrow> out)"

definition zero_extent :: "int \<Rightarrow> int \<Rightarrow> extent" where
  "zero_extent start len =
     \<lparr>x_start = start, x_length = len, x_kind = ExtentZero, x_hash = [], x_blob_offset = 0,
      x_real_path = '''', x_real_offset = 0\<rparr>"

definition blob_extent :: "int \<Rightarrow> int \<Rightarrow> hash \<Rightarrow> extent" where
  "blob_extent start len h =
     \<lparr>x_start = start, x_length = len, x_kind = ExtentBlob, x_hash = h, x_blob_offset = 0,
      x_real_path = '''', x_real_offset = 0\<rparr>"

definition real_extent :: "int \<Rightarrow> int \<Rightarrow> string \<Rightarrow> extent" where
  "real_extent start len path =
     \<lparr>x_start = start, x_length = len, x_kind = ExtentRealFile, x_hash = [], x_blob_offset = 0,
      x_real_path = path, x_real_offset = 0\<rparr>"

record file_body =
  fb_size :: int
  fb_extents :: "extent list"

definition NewEmptyFileBody :: file_body where
  "NewEmptyFileBody = \<lparr>fb_size = 0, fb_extents = []\<rparr>"

definition NewBlobFileBody :: "hash \<Rightarrow> int \<Rightarrow> file_body" where
  "NewBlobFileBody h sz =
     (if sz \<le> 0 then NewEmptyFileBody else \<lparr>fb_size = sz, fb_extents = [blob_extent 0 sz h]\<rparr>)"

definition NewRealFileBody :: "string \<Rightarrow> int \<Rightarrow> file_body" where
  "NewRealFileBody path sz =
     (if sz \<le> 0 then NewEmptyFileBody else \<lparr>fb_size = sz, fb_extents = [real_extent 0 sz path]\<rparr>)"

definition body_Clone :: "file_body option \<Rightarrow> file_body" where
  "body_Clone mb =
     (case mb of None \<Rightarrow> NewEmptyFileBody | Some b \<Rightarrow> \<lparr>fb_size = fb_size b, fb_extents = fb_extents b\<rparr>)"

definition body_Size :: "file_body option \<Rightarrow> int" where
  "body_Size mb = (case mb of None \<Rightarrow> 0 | Some b \<Rightarrow> fb_size b)"

subsection \<open>Normal form and coverage\<close>

definition canMergeExtent :: "extent \<Rightarrow> extent \<Rightarrow> bool" where
  "canMergeExtent a b =
     (if x_kind a \<noteq> x_kind b \<or> x_end a \<noteq> x_start b then False
      else case x_kind a of
          ExtentBlob \<Rightarrow> x_hash a = x_hash b \<and> x_blob_offset a + x_length a = x_blob_offset b
        | ExtentRealFile \<Rightarrow> x_real_path a = x_real_path b \<and> x_real_offset a + x_length a = x_real_offset b
        | ExtentZero \<Rightarrow> True)"

definition norm_step :: "extent list \<Rightarrow> extent \<Rightarrow> extent list" where
  "norm_step out ex =
     (if x_length ex \<le> 0 then out
      else if out = [] then [ex]
      else if canMergeExtent (last out) ex
        then butlast out @ [(last out)\<lparr>x_length := x_length (last out) + x_length ex\<rparr>]
        else out @ [ex])"

definition normalizeExtents :: "extent list \<Rightarrow> extent list" where
  "normalizeExtents extents = foldl norm_step [] (sort_key x_start extents)"

definition appendAndNormalize :: "extent list \<Rightarrow> extent \<Rightarrow> extent list" where
  "appendAndNormalize extents e = normalizeExtents (extents @ [e])"

fun covered_loop :: "int \<Rightarrow> extent list \<Rightarrow> int \<Rightarrow> vfs_error option" where
  "covered_loop stop [] expected =
     (if stop = 0 then None else if expected < stop then Some ErrExtentCorruption else None)"
| "covered_loop stop (ex # exs) expected =
     (if x_length ex \<le> 0 then Some ErrExtentCorruption
      else if x_start ex > expected then Some ErrExtentCorruption
      else if x_end ex \<le> expected then covered_loop stop exs expected
      else let expected' = min (x_end ex) stop
           in if expected' \<ge> stop then None else covered_loop stop exs expected')"

definition ensureCoveredRange :: "file_body \<Rightarrow> int \<Rightarrow> int \<Rightarrow> vfs_error option" where
  "ensureCoveredRange b start stop =
     (if stop < start then Some ErrInvalidRange
      else if start = stop then None
      else covered_loop stop (fb_extents b) start)"

definition findExtentIndex :: "file_body \<Rightarrow> int \<Rightarrow> nat option" where
  "findExtentIndex b pos =
     (let n = length (fb_extents b);
          idx = sort_Search n (\<lambda>i. x_end (fb_extents b ! i) > pos)
      in if idx \<ge> n then None
         else if pos < x_start (fb_extents b ! idx) \<or> pos \<ge> x_end (fb_extents b ! idx) then None
         else Some idx)"

subsection \<open>Reading\<close>

type_synonym real_reader = "string \<Rightarrow> int \<Rightarrow> int \<Rightarrow> bytes \<times> vfs_error option"

definition slice_bytes :: "bytes \<Rightarrow> int \<Rightarrow> int \<Rightarrow> bytes option" where
  "slice_bytes c a len =
     (if 0 \<le> a \<and> 0 \<le> len \<and> a + len \<le> int (length c) then Some (take (nat len) (drop (nat a) c)) else None)"

text \<open>The bytes of one extent from \<open>eo\<close> on, \<open>len\<close> of them, or the bytes read before an error.\<close>

definition read_extent ::
  "(hash \<Rightarrow> 's \<Rightarrow> (vfs_error + bytes) \<times> 's) \<Rightarrow> real_reader option \<Rightarrow> extent \<Rightarrow> int \<Rightarrow> int \<Rightarrow> 's option
   \<Rightarrow> ((bytes \<times> vfs_error) + bytes) \<times> 's option"
where
  "read_extent get reader ex eo len store =
     (case x_kind ex of
        ExtentZero \<Rightarrow> (Inr (replicate (nat len) (CHR 0x00)), store)
      | ExtentBlob \<Rightarrow>
          (case store of
             None \<Rightarrow> (Inl ([], ErrChunkNotFound), store)
           | Some st \<Rightarrow>
               (case get (x_hash ex) st of
                  (Inl err, st') \<Rightarrow> (Inl ([], err), Some st')
                | (Inr content, st') \<Rightarrow>
                    (case slice_bytes content (x_blob_offset ex + eo) len of
                       None \<Rightarrow> (Inl ([], PanicSliceBounds), Some st')
                     | Some d \<Rightarrow> (Inr d, Some st'))))
      | ExtentRealFile \<Rightarrow>
          (case reader of
             None \<Rightarrow> (Inl ([], ErrMissingRealRead), store)
           | Some rd \<Rightarrow>
               (case rd (x_real_path ex) len (x_real_offset ex + eo) of
                  (d, err) \<Rightarrow>
                    if int (length d) \<noteq> len
                    then (Inl (d, case err of None \<Rightarrow> ErrUnexpectedEOF | Some e \<Rightarrow> e), store)
                    else (Inr d, store))))"

lemma read_extent_length:
  "read_extent get reader ex eo len store = (Inr d, store') \<Longrightarrow> 0 \<le> len \<Longrightarrow> int (length d) = len"
  by (auto simp: read_extent_def slice_bytes_def
      split: extent_kind.splits option.splits sum.splits prod.splits if_splits)

lemma findExtentIndex_inside:
  "findExtentIndex b pos = Some idx \<Longrightarrow>
   idx < length (fb_extents b) \<and> x_start (fb_extents b ! idx) \<le> pos \<and> pos < x_end (fb_extents b ! idx)"
  by (auto simp: findExtentIndex_def Let_def split: if_splits)

function read_loop ::
  "(hash \<Rightarrow> 's \<Rightarrow> (vfs_error + bytes) \<times> 's) \<Rightarrow> real_reader option \<Rightarrow> file_body \<Rightarrow> int \<Rightarrow> int \<Rightarrow> bytes
   \<Rightarrow> 's option \<Rightarrow> bytes \<times> vfs_error option \<times> 's option"
where
  "read_loop get reader b off limit acc store =
     (if int (length acc) < limit then
        let pos = off + int (length acc)
        in case findExtentIndex b pos of
             None \<Rightarrow> (acc, Some ErrExtentCorruption, store)
           | Some idx \<Rightarrow>
               let ex = fb_extents b ! idx;
                   eo = pos - x_start ex;
                   len = min (x_length ex - eo) (limit - int (length acc))
               in case read_extent get reader ex eo len store of
                    (Inl (part, err), store') \<Rightarrow> (acc @ part, Some err, store')
                  | (Inr d, store') \<Rightarrow> read_loop get reader b off limit (acc @ d) store'
      else (acc, None, store))"
  by pat_completeness auto
termination
proof (relation "measure (\<lambda>(get, reader, b, off, limit, acc, store). nat (limit - int (length acc)))", goal_cases)
  case (2 get reader b off limit acc store pos idx ex eo len r store' d)
  from findExtentIndex_inside [OF 2(3)] have "0 < len" using 2 by (auto simp: x_end_def)
  with read_extent_length [of get reader ex eo len store d store'] 2 show ?case by auto
qed simp

declare read_loop.simps [simp del]

definition ReadAt ::
  "(hash \<Rightarrow> 's \<Rightarrow> (vfs_error + bytes) \<times> 's) \<Rightarrow> real_reader option \<Rightarrow> file_body option \<Rightarrow> int \<Rightarrow> int \<Rightarrow> 's option
   \<Rightarrow> bytes \<times> vfs_error option \<times> 's option"
where
  "ReadAt get reader mb plen off store =
     (case mb of
        None \<Rightarrow> ([], None, store)
      | Some b \<Rightarrow>
          if plen = 0 then ([], None, store)
          else if off < 0 then ([], Some ErrNegativeOffset, store)
          else if off \<ge> fb_size b then ([], Some ErrEOF, store)
          else
            let limit = min plen (fb_size b - off)
            in case ensureCoveredRange b off (off + limit) of
                 Some err \<Rightarrow> ([], Some err, store)
               | None \<Rightarrow>
                   (case read_loop get reader b off limit [] store of
                      (acc, Some err, store') \<Rightarrow> (acc, Some err, store')
                    | (acc, None, store') \<Rightarrow> (acc, if limit < plen then Some ErrEOF else None, store')))"

subsection \<open>Writing\<close>

definition blobReplacement ::
  "(bytes \<Rightarrow> 's \<Rightarrow> (vfs_error + hash) \<times> 's) \<Rightarrow> bytes \<Rightarrow> 's option
   \<Rightarrow> (vfs_error + extent list \<times> int) \<times> 's option"
where
  "blobReplacement put content store =
     (if content = [] then (Inr ([], 0), store)
      else case store of
          None \<Rightarrow> (Inl ErrChunkNotFound, store)
        | Some st \<Rightarrow>
            (case put content st of
               (Inl err, st') \<Rightarrow> (Inl err, Some st')
             | (Inr h, st') \<Rightarrow>
                 (Inr ([blob_extent 0 (int (length content)) h], int (length content)), Some st')))"

definition replace_extent :: "int \<Rightarrow> int \<Rightarrow> int \<Rightarrow> extent \<Rightarrow> extent list" where
  "replace_extent start stop delta ex =
     (if x_end ex \<le> start then [ex]
      else if x_start ex \<ge> stop then [x_shift delta ex]
      else (if x_start ex < start then [x_subrange (x_start ex) start ex] else []) @
           (if x_end ex > stop then [x_shift delta (x_subrange stop (x_end ex) ex)] else []))"

definition replaceRange ::
  "int \<Rightarrow> int \<Rightarrow> extent list \<Rightarrow> int \<Rightarrow> file_body \<Rightarrow> vfs_error option \<times> file_body"
where
  "replaceRange start stop repl replLen b =
     (if start < 0 \<or> stop < start \<or> stop > fb_size b then (Some ErrInvalidRange, b)
      else
        let delta = replLen - (stop - start);
            result = concat (map (replace_extent start stop delta) (fb_extents b)) @ map (x_shift start) repl;
            b' = \<lparr>fb_size = fb_size b + delta,
                  fb_extents = normalizeExtents (sort_key x_start result)\<rparr>
        in (ensureCoveredRange b' 0 (fb_size b'), b'))"

definition appendZero :: "int \<Rightarrow> file_body \<Rightarrow> file_body" where
  "appendZero len b =
     (if len \<le> 0 then b
      else \<lparr>fb_size = fb_size b + len,
            fb_extents = appendAndNormalize (fb_extents b) (zero_extent (fb_size b) len)\<rparr>)"

definition WriteAt ::
  "(bytes \<Rightarrow> 's \<Rightarrow> (vfs_error + hash) \<times> 's) \<Rightarrow> int \<Rightarrow> bytes \<Rightarrow> file_body option \<Rightarrow> 's option
   \<Rightarrow> vfs_error option \<times> file_body option \<times> 's option"
where
  "WriteAt put off content mb store =
     (case mb of
        None \<Rightarrow> (Some ErrInvalidRange, mb, store)
      | Some b \<Rightarrow>
          if off < 0 then (Some ErrNegativeOffset, mb, store)
          else if content = [] then (None, mb, store)
          else
            let b1 = (if off > fb_size b then appendZero (off - fb_size b) b else b);
                stop = off + int (length content);
                replacedEnd = min stop (fb_size b1)
            in case blobReplacement put content store of
                 (Inl err, store') \<Rightarrow> (Some err, Some b1, store')
               | (Inr (repl, replLen), store') \<Rightarrow>
                   (case replaceRange off replacedEnd repl replLen b1 of
                      (err, b2) \<Rightarrow> (err, Some b2, store')))"

definition InsertAt ::
  "(bytes \<Rightarrow> 's \<Rightarrow> (vfs_error + hash) \<times> 's) \<Rightarrow> int \<Rightarrow> bytes \<Rightarrow> file_body option \<Rightarrow> 's option
   \<Rightarrow> vfs_error option \<times> file_body option \<times> 's option"
where
  "InsertAt put off content mb store =
     (case mb of
        None \<Rightarrow> (Some ErrInvalidRange, mb, store)
      | Some b \<Rightarrow>
          if off < 0 \<or> off > fb_size b then (Some ErrInvalidRange, mb, store)
          else if content = [] then (None, mb, store)
          else case blobReplacement put content store of
              (Inl err, store') \<Rightarrow> (Some err, mb, store')
            | (Inr (repl, replLen), store') \<Rightarrow>
                (case replaceRange off off repl replLen b of (err, b2) \<Rightarrow> (err, Some b2, store')))"

definition DeleteRange :: "int \<Rightarrow> int \<Rightarrow> file_body option \<Rightarrow> vfs_error option \<times> file_body option" where
  "DeleteRange start stop mb =
     (case mb of
        None \<Rightarrow> (Some ErrInvalidRange, mb)
      | Some b \<Rightarrow>
          if start < 0 \<or> stop < start \<or> stop > fb_size b then (Some ErrInvalidRange, mb)
          else (case replaceRange start stop [] 0 b of (err, b2) \<Rightarrow> (err, Some b2)))"

definition Truncate :: "int \<Rightarrow> file_body option \<Rightarrow> vfs_error option \<times> file_body option" where
  "Truncate sz mb =
     (case mb of
        None \<Rightarrow> (Some ErrInvalidRange, mb)
      | Some b \<Rightarrow>
          if sz < 0 then (Some ErrInvalidRange, mb)
          else if sz = fb_size b then (None, mb)
          else if sz < fb_size b then DeleteRange sz (fb_size b) mb
          else (None, Some (appendZero (sz - fb_size b) b)))"

text \<open>The loop of \<^verbatim>\<open>NewChunkedFileBody\<close>, from offset \<open>off\<close> on, with the extents made so far;
  its only caller passes a positive chunk size.\<close>

function chunk_loop ::
  "(bytes \<Rightarrow> 's \<Rightarrow> (vfs_error + hash) \<times> 's) \<Rightarrow> bytes \<Rightarrow> nat \<Rightarrow> nat \<Rightarrow> extent list \<Rightarrow> 's
   \<Rightarrow> (vfs_error + extent list) \<times> 's"
where
  "chunk_loop put content chunkSize off exs st =
     (if chunkSize = 0 then (Inl ErrInvalidRange, st)
      else if off < length content then
        let stop = min (off + chunkSize) (length content)
        in case put (take (stop - off) (drop off content)) st of
             (Inl err, st') \<Rightarrow> (Inl err, st')
           | (Inr h, st') \<Rightarrow>
               chunk_loop put content chunkSize (off + chunkSize)
                 (exs @ [blob_extent (int off) (int (stop - off)) h]) st'
      else (Inr exs, st))"
  by pat_completeness auto
termination
  by (relation "measure (\<lambda>(put, content, chunkSize, off, exs, st). length content - off)") auto

declare chunk_loop.simps [simp del]

definition NewChunkedFileBody ::
  "(bytes \<Rightarrow> 's \<Rightarrow> (vfs_error + hash) \<times> 's) \<Rightarrow> bytes \<Rightarrow> 's option \<Rightarrow> int
   \<Rightarrow> (vfs_error + file_body) \<times> 's option"
where
  "NewChunkedFileBody put content store chunkSize =
     (if content = [] then (Inr NewEmptyFileBody, store)
      else case store of
          None \<Rightarrow> (Inl ErrChunkNotFound, store)
        | Some st \<Rightarrow>
            let sz = (if chunkSize \<le> 0 then 65536 else nat chunkSize)
            in (case chunk_loop put content sz 0 [] st of
                  (Inl err, st') \<Rightarrow> (Inl err, Some st')
                | (Inr exs, st') \<Rightarrow> (Inr \<lparr>fb_size = int (length content), fb_extents = exs\<rparr>, Some st')))"

end
