(* ===== verification/File_Spec.thy ===== *)
theory File_Spec imports File_Body
begin

text \<open>
  File bodies refine byte strings. A well-formed body is a list of non-empty extents that tile
  \<open>[0, size)\<close> in order; the byte string it stands for is read off the chunks and host files its
  extents point to. Every operation keeps the tiling and is the corresponding operation on byte
  strings; reading returns the byte string's bytes.
\<close>

fun contig :: "int \<Rightarrow> extent list \<Rightarrow> int \<Rightarrow> bool" where
  "contig s [] e \<longleftrightarrow> s = e"
| "contig s (x # xs) e \<longleftrightarrow> x_start x = s \<and> x_length x > 0 \<and> contig (x_end x) xs e"

definition body_wf :: "file_body \<Rightarrow> bool" where
  "body_wf b \<longleftrightarrow> contig 0 (fb_extents b) (fb_size b)"

definition extent_data :: "(hash \<Rightarrow> bytes option) \<Rightarrow> (string \<Rightarrow> bytes) \<Rightarrow> extent \<Rightarrow> bytes option" where
  "extent_data sto host x =
     (case x_kind x of
        ExtentZero \<Rightarrow> Some (replicate (nat (x_length x)) (CHR 0x00))
      | ExtentBlob \<Rightarrow> (case sto (x_hash x) of None \<Rightarrow> None | Some c \<Rightarrow> slice_bytes c (x_blob_offset x) (x_length x))
      | ExtentRealFile \<Rightarrow> slice_bytes (host (x_real_path x)) (x_real_offset x) (x_length x))"

fun exts_data :: "(hash \<Rightarrow> bytes option) \<Rightarrow> (string \<Rightarrow> bytes) \<Rightarrow> extent list \<Rightarrow> bytes option" where
  "exts_data sto host [] = Some []"
| "exts_data sto host (x # xs) =
     (case extent_data sto host x of
        None \<Rightarrow> None
      | Some d \<Rightarrow> (case exts_data sto host xs of None \<Rightarrow> None | Some ds \<Rightarrow> Some (d @ ds)))"

definition body_data :: "(hash \<Rightarrow> bytes option) \<Rightarrow> (string \<Rightarrow> bytes) \<Rightarrow> file_body \<Rightarrow> bytes option" where
  "body_data sto host b = exts_data sto host (fb_extents b)"

subsection \<open>Tilings\<close>

lemma contig_le: "contig s xs e \<Longrightarrow> s \<le> e"
  by (induction s xs e rule: contig.induct) (auto simp: x_end_def)

lemma contig_append: "contig s (xs @ ys) e \<longleftrightarrow> (\<exists>m. contig s xs m \<and> contig m ys e)"
  by (induction xs arbitrary: s) auto

lemma contig_bounds: "contig s xs e \<Longrightarrow> x \<in> set xs \<Longrightarrow> s \<le> x_start x \<and> x_start x < x_end x \<and> x_end x \<le> e"
proof (induction s xs e rule: contig.induct)
  case (2 s y ys e)
  then show ?case using contig_le [of "x_end y" ys e] by (auto simp: x_end_def)
qed simp

lemma contig_sorted: "contig s xs e \<Longrightarrow> sorted (map x_start xs)"
proof (induction s xs e rule: contig.induct)
  case (2 s y ys e)
  then show ?case using contig_bounds [of "x_end y" ys e] by (force simp: x_end_def)
qed simp

lemma contig_shift: "contig s xs e \<Longrightarrow> contig (s + d) (map (x_shift d) xs) (e + d)"
  by (induction s xs e rule: contig.induct) (auto simp: x_shift_def x_end_def algebra_simps)

lemma exts_data_append:
  "exts_data sto host (xs @ ys) =
   (case exts_data sto host xs of
      None \<Rightarrow> None
    | Some d \<Rightarrow> (case exts_data sto host ys of None \<Rightarrow> None | Some d' \<Rightarrow> Some (d @ d')))"
  by (induction xs) (auto split: option.splits)

lemma extent_data_length: "extent_data sto host x = Some d \<Longrightarrow> 0 \<le> x_length x \<Longrightarrow> int (length d) = x_length x"
  by (auto simp: extent_data_def slice_bytes_def split: extent_kind.splits option.splits if_splits)

lemma exts_data_length: "contig s xs e \<Longrightarrow> exts_data sto host xs = Some d \<Longrightarrow> int (length d) = e - s"
proof (induction s xs e arbitrary: d rule: contig.induct)
  case (2 s x xs e)
  then show ?case
    using extent_data_length [of sto host x] by (force simp: x_end_def split: option.splits)
qed simp

lemma extent_data_shift [simp]: "extent_data sto host (x_shift d x) = extent_data sto host x"
  by (simp add: extent_data_def x_shift_def split: extent_kind.split option.split)

lemma exts_data_shift [simp]: "exts_data sto host (map (x_shift d) xs) = exts_data sto host xs"
  by (induction xs) (auto split: option.splits)

lemma slice_length: "slice_bytes c a len = Some d \<Longrightarrow> int (length d) = len"
  by (auto simp: slice_bytes_def split: if_splits)

lemma slice_of_slice:
  "slice_bytes c a len = Some d \<Longrightarrow> 0 \<le> b \<Longrightarrow> 0 \<le> m \<Longrightarrow> b + m \<le> len \<Longrightarrow>
   slice_bytes c (a + b) m = Some (take (nat m) (drop (nat b) d))"
  by (auto simp: slice_bytes_def drop_take nat_add_distrib add.commute min_def split: if_splits)

lemma extent_data_subrange:
  assumes "extent_data sto host x = Some d" "x_start x \<le> a" "a \<le> b" "b \<le> x_end x"
  shows "extent_data sto host (x_subrange a b x) = Some (take (nat (b - a)) (drop (nat (a - x_start x)) d))"
  using assms slice_of_slice [of _ _ "x_length x" d "a - x_start x" "b - a"]
  by (auto simp: extent_data_def x_subrange_def Let_def x_end_def min_def split: extent_kind.splits option.splits)

lemma x_subrange_simps [simp]:
  "x_start (x_subrange a b x) = a" "x_length (x_subrange a b x) = b - a" "x_end (x_subrange a b x) = b"
  by (auto simp: x_subrange_def Let_def x_end_def split: extent_kind.split)

lemma x_shift_simps [simp]:
  "x_start (x_shift d x) = x_start x + d" "x_length (x_shift d x) = x_length x" "x_end (x_shift d x) = x_end x + d"
  by (simp_all add: x_shift_def x_end_def)

subsection \<open>Cutting a tiling\<close>

definition left_of :: "int \<Rightarrow> extent \<Rightarrow> extent list" where
  "left_of start x =
     (if x_end x \<le> start then [x] else if x_start x < start then [x_subrange (x_start x) start x] else [])"

definition right_of :: "int \<Rightarrow> extent \<Rightarrow> extent list" where
  "right_of stop x =
     (if x_start x \<ge> stop then [x] else if x_end x > stop then [x_subrange stop (x_end x) x] else [])"

definition left_part :: "int \<Rightarrow> extent list \<Rightarrow> extent list" where
  "left_part start xs = concat (map (left_of start) xs)"

definition right_part :: "int \<Rightarrow> extent list \<Rightarrow> extent list" where
  "right_part stop xs = concat (map (right_of stop) xs)"

lemma part_simps [simp]:
  "left_part start [] = []" "left_part start (x # xs) = left_of start x @ left_part start xs"
  "right_part stop [] = []" "right_part stop (x # xs) = right_of stop x @ right_part stop xs"
  by (simp_all add: left_part_def right_part_def)

lemma left_part_none: "contig s xs e \<Longrightarrow> start \<le> s \<Longrightarrow> left_part start xs = []"
  by (induction s xs e rule: contig.induct) (auto simp: left_of_def x_end_def)

lemma right_part_all: "contig s xs e \<Longrightarrow> stop \<le> s \<Longrightarrow> right_part stop xs = xs"
  by (induction s xs e rule: contig.induct) (auto simp: right_of_def x_end_def)

lemma replace_extent_eq:
  "x_start x < x_end x \<Longrightarrow> start \<le> stop \<Longrightarrow>
   replace_extent start stop delta x = left_of start x @ map (x_shift delta) (right_of stop x)"
  by (auto simp: replace_extent_def left_of_def right_of_def)

lemma replace_extents_eq:
  assumes "contig s xs e" "start \<le> stop"
  shows "concat (map (replace_extent start stop delta) xs) =
    left_part start xs @ map (x_shift delta) (right_part stop xs)"
  using assms(1)
proof (induction s xs e rule: contig.induct)
  case (2 s x xs e)
  have x: "x_start x < x_end x" using 2(2) by (simp add: x_end_def)
  have IH: "concat (map (replace_extent start stop delta) xs) =
    left_part start xs @ map (x_shift delta) (right_part stop xs)" using 2 by simp
  show ?case
  proof (cases "x_end x \<le> start")
    case True
    then have "right_of stop x = []" using x assms(2) by (simp add: right_of_def)
    then show ?thesis
      using IH replace_extent_eq [OF x assms(2), of delta] by simp
  next
    case False
    then have "left_part start xs = []" using left_part_none [of "x_end x" xs e] 2(2) by simp
    then show ?thesis
      using IH replace_extent_eq [OF x assms(2), of delta] by simp
  qed
qed simp

lemma left_part_spec:
  assumes "contig s xs e" "s \<le> start" "start \<le> e" "exts_data sto host xs = Some d"
  shows "contig s (left_part start xs) start \<and>
    exts_data sto host (left_part start xs) = Some (take (nat (start - s)) d)"
  using assms
proof (induction s xs e arbitrary: d rule: contig.induct)
  case (2 s x xs e)
  obtain dx ds where d: "extent_data sto host x = Some dx" "exts_data sto host xs = Some ds" "d = dx @ ds"
    using 2(5) by (auto split: option.splits)
  have x: "x_start x = s" "x_length x > 0" "contig (x_end x) xs e" using 2(2) by auto
  have len: "int (length dx) = x_end x - s" using extent_data_length [OF d(1)] x by (simp add: x_end_def)
  show ?case
  proof (cases "x_end x \<le> start")
    case True
    with 2(1) [OF x(3) True 2(4) d(2)] d len x show ?thesis
      by (auto simp: left_of_def nat_diff_distrib' intro!: arg_cong2 [where f = take])
  next
    case False
    then have none: "left_part start xs = []" using left_part_none [OF x(3)] by simp
    show ?thesis
    proof (cases "s < start")
      case True
      with none False x d len extent_data_subrange [OF d(1), of s start] show ?thesis
        by (auto simp: left_of_def)
    next
      case eq: False
      with none False x 2(3) show ?thesis by (simp add: left_of_def)
    qed
  qed
qed simp

lemma right_part_spec:
  assumes "contig s xs e" "s \<le> stop" "stop \<le> e" "exts_data sto host xs = Some d"
  shows "contig stop (right_part stop xs) e \<and>
    exts_data sto host (right_part stop xs) = Some (drop (nat (stop - s)) d)"
  using assms
proof (induction s xs e arbitrary: d rule: contig.induct)
  case (2 s x xs e)
  obtain dx ds where d: "extent_data sto host x = Some dx" "exts_data sto host xs = Some ds" "d = dx @ ds"
    using 2(5) by (auto split: option.splits)
  have x: "x_start x = s" "x_length x > 0" "contig (x_end x) xs e" using 2(2) by auto
  have len: "int (length dx) = x_end x - s" using extent_data_length [OF d(1)] x by (simp add: x_end_def)
  show ?case
  proof (cases "x_end x \<le> stop")
    case True
    then have "right_of stop x = []" using x by (simp add: right_of_def x_end_def)
    with 2(1) [OF x(3) True 2(4) d(2)] d len x True show ?thesis
      by (auto intro!: arg_cong2 [where f = drop])
  next
    case False
    then have all: "right_part stop xs = xs" using right_part_all [OF x(3)] by simp
    show ?thesis
    proof (cases "s = stop")
      case True
      then show ?thesis using all x d by (simp add: right_of_def)
    next
      case ne: False
      have "extent_data sto host (x_subrange stop (x_end x) x) = Some (drop (nat (stop - s)) dx)"
        using extent_data_subrange [OF d(1), of stop "x_end x"] x False 2(3) len by simp
      then show ?thesis using all x d ne 2(3) False len by (simp add: right_of_def)
    qed
  qed
qed simp

subsection \<open>Normalisation, coverage and search\<close>

lemma extent_data_merge:
  assumes "canMergeExtent a b" "extent_data sto host a = Some d" "extent_data sto host b = Some d'"
    "0 \<le> x_length a" "0 \<le> x_length b"
  shows "extent_data sto host (a\<lparr>x_length := x_length a + x_length b\<rparr>) = Some (d @ d')"
proof -
  have slices: "slice_bytes c o1 (l1 + l2) = Some (d @ d')"
    if "slice_bytes c o1 l1 = Some d" "slice_bytes c (o1 + l1) l2 = Some d'" "0 \<le> l1" "0 \<le> l2" for c o1 l1 l2
    using that by (auto simp: slice_bytes_def nat_add_distrib take_add add.commute split: if_splits)
  show ?thesis
    using assms slices
    by (auto simp: canMergeExtent_def extent_data_def nat_add_distrib replicate_add
        split: if_splits extent_kind.splits option.splits)
qed

lemma norm_step_spec:
  assumes "contig s out m" "contig m [x] e" "exts_data sto host out = Some d" "extent_data sto host x = Some dx"
  shows "contig s (norm_step out x) e \<and> exts_data sto host (norm_step out x) = Some (d @ dx)"
proof (cases "out \<noteq> [] \<and> canMergeExtent (last out) x")
  case True
  then obtain ys y where out: "out = ys @ [y]" by (metis append_butlast_last_id)
  let ?y = "y\<lparr>x_length := x_length y + x_length x\<rparr>"
  have merge: "canMergeExtent y x" using True out by simp
  obtain m' where c: "contig s ys m'" "x_start y = m'" "x_length y > 0" "x_end y = m"
    using assms(1) out by (auto simp: contig_append)
  obtain dys dy where d: "exts_data sto host ys = Some dys" "extent_data sto host y = Some dy" "d = dys @ dy"
    using assms(3) out by (auto simp: exts_data_append split: option.splits)
  have x: "x_start x = m" "x_length x > 0" "x_end x = e" using assms(2) by auto
  have step: "norm_step out x = ys @ [?y]" using merge out x by (simp add: norm_step_def)
  have "extent_data sto host ?y = Some (dy @ dx)"
    using extent_data_merge [OF merge d(2) assms(4)] c x by simp
  then show ?thesis
    unfolding step using c x d by (auto simp: contig_append exts_data_append x_end_def)
next
  case False
  then have "norm_step out x = out @ [x]" using assms(2) by (auto simp: norm_step_def)
  then show ?thesis using assms by (auto simp: contig_append exts_data_append)
qed

lemma foldl_norm_spec:
  assumes "contig s out m" "contig m xs e" "exts_data sto host out = Some d" "exts_data sto host xs = Some dx"
  shows "contig s (foldl norm_step out xs) e \<and> exts_data sto host (foldl norm_step out xs) = Some (d @ dx)"
  using assms
proof (induction xs arbitrary: out m d dx)
  case (Cons x xs)
  obtain d1 d2 where d: "extent_data sto host x = Some d1" "exts_data sto host xs = Some d2" "dx = d1 @ d2"
    using Cons.prems(4) by (auto split: option.splits)
  have "contig m [x] (x_end x)" "contig (x_end x) xs e" using Cons.prems(2) by auto
  with norm_step_spec [OF Cons.prems(1) this(1) Cons.prems(3) d(1)]
    Cons.IH [of "norm_step out x" "x_end x" "d @ d1" d2] d show ?case by simp
qed simp

lemma normalize_spec:
  assumes "contig s xs e" "exts_data sto host xs = Some d"
  shows "contig s (normalizeExtents xs) e \<and> exts_data sto host (normalizeExtents xs) = Some d"
  using foldl_norm_spec [of s "[]" s xs e sto host "[]" d] assms contig_sorted [OF assms(1)]
  by (simp add: normalizeExtents_def sort_key_id_if_sorted)

lemma covered_loop_None:
  "contig s xs e \<Longrightarrow> s \<le> expected \<Longrightarrow> expected < stop \<Longrightarrow> stop \<le> e \<Longrightarrow> covered_loop stop xs expected = None"
proof (induction s xs e arbitrary: expected rule: contig.induct)
  case (2 s x xs e)
  show ?case
  proof (cases "x_end x \<le> expected")
    case True
    then show ?thesis using 2 by simp
  next
    case False
    then show ?thesis using 2(1) [of "x_end x"] 2(2-) by (auto simp: Let_def min_def)
  qed
qed simp

lemma ensureCovered_None:
  "body_wf b \<Longrightarrow> 0 \<le> start \<Longrightarrow> start \<le> stop \<Longrightarrow> stop \<le> fb_size b \<Longrightarrow> ensureCoveredRange b start stop = None"
  using covered_loop_None [of 0 "fb_extents b" "fb_size b" start stop]
  by (simp add: ensureCoveredRange_def body_wf_def)

lemma contig_nth_ends:
  "contig s xs e \<Longrightarrow> i < length xs \<Longrightarrow> (if Suc i < length xs then x_start (xs ! Suc i) = x_end (xs ! i) else x_end (xs ! i) = e)"
proof (induction s xs e arbitrary: i rule: contig.induct)
  case (2 s x xs e)
  show ?case
  proof (cases i)
    case 0
    then show ?thesis using 2(2) by (cases xs) auto
  next
    case (Suc j)
    with 2(1) [of j] 2(2,3) show ?thesis by simp
  qed
qed simp

lemma contig_ends_mono: "contig s xs e \<Longrightarrow> i \<le> j \<Longrightarrow> j < length xs \<Longrightarrow> x_end (xs ! i) \<le> x_end (xs ! j)"
proof (induction j)
  case (Suc j)
  then have "x_end (xs ! j) \<le> x_end (xs ! Suc j)"
    using contig_nth_ends [of s xs e j] contig_bounds [of s xs e "xs ! Suc j"] by simp
  with Suc show ?case by (cases "i = Suc j") auto
qed simp

lemma findExtentIndex_found:
  assumes wf: "body_wf b" and pos: "0 \<le> pos" "pos < fb_size b"
  shows "\<exists>idx. findExtentIndex b pos = Some idx"
proof -
  define xs where "xs = fb_extents b"
  define f where "f = (\<lambda>i. x_end (xs ! i) > pos)"
  define r where "r = sort_Search (length xs) f"
  have c: "contig 0 xs (fb_size b)" using wf by (simp add: body_wf_def xs_def)
  have mono: "f j" if "i \<le> j" "j < length xs" "f i" for i j
    using contig_ends_mono [OF c that(1,2)] that(3) by (simp add: f_def)
  have ne: "length xs > 0" using c pos by (cases xs) auto
  have "f (length xs - 1)" using contig_nth_ends [OF c, of "length xs - 1"] ne pos by (simp add: f_def)
  with sort_Search_bound [of "length xs" f "length xs - 1"] mono have "r \<le> length xs - 1"
    unfolding r_def by blast
  then have lt: "r < length xs" using ne by linarith
  have start: "x_start (xs ! r) \<le> pos"
  proof (cases "r = 0")
    case True
    then show ?thesis using c ne pos by (cases xs) auto
  next
    case False
    have "\<not> f (r - 1)"
      using sort_Search_first [of "length xs" f "r - 1"] mono False unfolding r_def by simp
    moreover have "x_start (xs ! r) = x_end (xs ! (r - 1))"
      using contig_nth_ends [OF c, of "r - 1"] False lt by simp
    ultimately show ?thesis by (simp add: f_def)
  qed
  have "f r" using sort_Search_holds lt unfolding r_def by blast
  with lt start show ?thesis
    unfolding findExtentIndex_def xs_def [symmetric] f_def [symmetric] r_def [symmetric] Let_def
    by (simp add: f_def)
qed

lemma extent_data_nth:
  assumes "contig s xs e" "exts_data sto host xs = Some d" "i < length xs"
  shows "extent_data sto host (xs ! i) =
    Some (take (nat (x_length (xs ! i))) (drop (nat (x_start (xs ! i) - s)) d))"
  using assms
proof (induction s xs e arbitrary: d i rule: contig.induct)
  case (2 s x xs e)
  obtain d1 d2 where d: "extent_data sto host x = Some d1" "exts_data sto host xs = Some d2" "d = d1 @ d2"
    using 2(3) by (auto split: option.splits)
  have len: "int (length d1) = x_length x" using extent_data_length [OF d(1)] 2(2) by simp
  show ?case
  proof (cases i)
    case 0
    then show ?thesis using 2(2) d len by simp
  next
    case (Suc j)
    then have j: "j < length xs" "contig (x_end x) xs e" using 2(2,4) by auto
    have "x_end x \<le> x_start (xs ! j)" using contig_bounds [OF j(2)] j(1) by simp
    then have "nat (x_start (xs ! j) - s) = length d1 + nat (x_start (xs ! j) - x_end x)"
      using len 2(2) by (simp add: x_end_def)
    then show ?thesis using 2(1) [OF j(2) d(2) j(1)] Suc d by simp
  qed
qed simp

subsection \<open>Replacing a range\<close>

lemma replaceRange_spec:
  assumes wf: "body_wf b" and d: "body_data sto host b = Some d"
    and rng: "0 \<le> start" "start \<le> stop" "stop \<le> fb_size b"
    and repl: "contig 0 repl replLen" "exts_data sto host repl = Some dr"
  shows "\<exists>b'. replaceRange start stop repl replLen b = (None, b') \<and> body_wf b' \<and>
    body_data sto host b' = Some (take (nat start) d @ dr @ drop (nat stop) d) \<and>
    fb_size b' = fb_size b + replLen - (stop - start)"
proof -
  let ?delta = "replLen - (stop - start)" and ?xs = "fb_extents b"
  let ?L = "left_part start ?xs" and ?R = "map (x_shift ?delta) (right_part stop ?xs)"
  let ?P = "map (x_shift start) repl"
  have c: "contig 0 ?xs (fb_size b)" using wf by (simp add: body_wf_def)
  have e: "exts_data sto host ?xs = Some d" using d by (simp add: body_data_def)
  have L: "contig 0 ?L start" "exts_data sto host ?L = Some (take (nat start) d)"
    using left_part_spec [OF c rng(1) _ e] rng by simp_all
  have P: "contig start ?P (start + replLen)" using contig_shift [OF repl(1), of start] by (simp add: add.commute)
  have "contig stop (right_part stop ?xs) (fb_size b)" using right_part_spec [OF c _ rng(3) e] rng by simp
  from contig_shift [OF this, of ?delta]
  have R: "contig (start + replLen) ?R (fb_size b + ?delta)" by (simp add: add.commute)
  have Rd: "exts_data sto host ?R = Some (drop (nat stop) d)"
    using right_part_spec [OF c _ rng(3) e] rng by simp
  have all: "contig 0 (?L @ ?P @ ?R) (fb_size b + ?delta)" using L(1) P R by (auto simp: contig_append)
  have alld: "exts_data sto host (?L @ ?P @ ?R) = Some (take (nat start) d @ dr @ drop (nat stop) d)"
    using L(2) Rd repl(2) by (simp add: exts_data_append)
  have "sort_key x_start ((?L @ ?R) @ ?P) = ?L @ ?P @ ?R"
  proof (rule sort_key_swap_blocks)
    show "sorted (map x_start (?L @ ?P @ ?R))" by (rule contig_sorted [OF all])
    show "x_start x \<noteq> x_start y" if "x \<in> set ?P" "y \<in> set ?R" for x y
      using contig_bounds [OF P that(1)] contig_bounds [OF R that(2)] by linarith
  qed
  then have res: "sort_key x_start (concat (map (replace_extent start stop ?delta) ?xs) @ ?P) = ?L @ ?P @ ?R"
    using replace_extents_eq [OF c rng(2)] by simp
  let ?b = "\<lparr>fb_size = fb_size b + ?delta, fb_extents = normalizeExtents (?L @ ?P @ ?R)\<rparr>"
  have n: "contig 0 (normalizeExtents (?L @ ?P @ ?R)) (fb_size b + ?delta)"
    "exts_data sto host (normalizeExtents (?L @ ?P @ ?R)) = Some (take (nat start) d @ dr @ drop (nat stop) d)"
    using normalize_spec [OF all alld] by simp_all
  then have b: "body_wf ?b" by (simp add: body_wf_def)
  have "ensureCoveredRange ?b 0 (fb_size ?b) = None"
    using ensureCovered_None [OF b, of 0 "fb_size ?b"] contig_le [OF n(1)] by simp
  then have "replaceRange start stop repl replLen b = (None, ?b)"
    using rng res by (simp add: replaceRange_def Let_def)
  then show ?thesis using b n(2) by (auto simp: body_data_def)
qed

lemma appendZero_spec:
  assumes wf: "body_wf b" and d: "body_data sto host b = Some d" and len: "0 \<le> len"
  shows "body_wf (appendZero len b) \<and>
    body_data sto host (appendZero len b) = Some (d @ replicate (nat len) (CHR 0x00)) \<and>
    fb_size (appendZero len b) = fb_size b + len"
proof (cases "len \<le> 0")
  case False
  let ?xs = "fb_extents b @ [zero_extent (fb_size b) len]"
  have "contig 0 ?xs (fb_size b + len)"
    using wf False by (auto simp: body_wf_def contig_append zero_extent_def x_end_def)
  moreover have "exts_data sto host ?xs = Some (d @ replicate (nat len) (CHR 0x00))"
    using d by (simp add: body_data_def exts_data_append zero_extent_def extent_data_def)
  ultimately show ?thesis
    using normalize_spec [of 0 ?xs "fb_size b + len"] False
    by (simp add: appendZero_def appendAndNormalize_def body_wf_def body_data_def)
qed (use assms in \<open>simp add: appendZero_def\<close>)

lemma body_data_length: "body_wf b \<Longrightarrow> body_data sto host b = Some d \<Longrightarrow> int (length d) = fb_size b"
  using exts_data_length by (fastforce simp: body_wf_def body_data_def)

lemma extent_data_mono:
  "(\<And>k x. sto k = Some x \<Longrightarrow> sto' k = Some x) \<Longrightarrow> extent_data sto host x = Some d \<Longrightarrow>
   extent_data sto' host x = Some d"
  by (auto simp: extent_data_def split: extent_kind.splits option.splits)

lemma exts_data_mono:
  "(\<And>k x. sto k = Some x \<Longrightarrow> sto' k = Some x) \<Longrightarrow> exts_data sto host xs = Some d \<Longrightarrow>
   exts_data sto' host xs = Some d"
proof (induction xs arbitrary: d)
  case (Cons x xs)
  then show ?case using extent_data_mono [of sto sto' host x] by (auto split: option.splits)
qed simp

lemma body_data_mono:
  "(\<And>k x. sto k = Some x \<Longrightarrow> sto' k = Some x) \<Longrightarrow> body_data sto host b = Some d \<Longrightarrow>
   body_data sto' host b = Some d"
  unfolding body_data_def by (rule exts_data_mono)

subsection \<open>Reading and writing over any chunk provider\<close>

definition reader_ok :: "(string \<Rightarrow> bytes) \<Rightarrow> real_reader \<Rightarrow> bool" where
  "reader_ok host rd \<longleftrightarrow>
     (\<forall>path len off d. slice_bytes (host path) off len = Some d \<longrightarrow> fst (rd path len off) = d)"

context chunk_provider
begin

lemma read_extent_ok:
  assumes st: "ok st" and rd: "reader_ok host rd" and x: "extent_data (sto st) host x = Some dx"
    and rng: "0 \<le> eo" "0 \<le> len" "eo + len \<le> x_length x"
  shows "\<exists>st'. read_extent get (Some rd) x eo len (Some st) = (Inr (take (nat len) (drop (nat eo) dx)), Some st') \<and>
    ok st' \<and> sto st' = sto st"
proof (cases "x_kind x")
  case ExtentBlob
  then obtain c where c: "sto st (x_hash x) = Some c" "slice_bytes c (x_blob_offset x) (x_length x) = Some dx"
    using x by (auto simp: extent_data_def split: option.splits)
  obtain r st' where g: "get (x_hash x) st = (r, st')" by fastforce
  have "r = Inr c" "ok st'" "sto st' = sto st"
    using get_ok [OF st, of "x_hash x"] get_result [OF st, of "x_hash x"] g c(1) by simp_all
  then show ?thesis
    using g ExtentBlob slice_of_slice [OF c(2) rng] by (simp add: read_extent_def)
next
  case ExtentRealFile
  then have "slice_bytes (host (x_real_path x)) (x_real_offset x) (x_length x) = Some dx"
    using x by (simp add: extent_data_def)
  from slice_of_slice [OF this rng]
  have s: "slice_bytes (host (x_real_path x)) (x_real_offset x + eo) len = Some (take (nat len) (drop (nat eo) dx))" .
  then have "fst (rd (x_real_path x) len (x_real_offset x + eo)) = take (nat len) (drop (nat eo) dx)"
    using rd by (simp add: reader_ok_def)
  moreover have "int (length (take (nat len) (drop (nat eo) dx))) = len"
    by (rule slice_length [OF s])
  ultimately show ?thesis using ExtentRealFile st by (simp add: read_extent_def case_prod_unfold)
next
  case ExtentZero
  then show ?thesis using x rng st by (auto simp: extent_data_def read_extent_def min_def nat_le_eq_zle)
qed

lemma read_step:
  assumes wf: "body_wf b" and st: "ok st" "body_data (sto st) host b = Some d" and rd: "reader_ok host rd"
    and rng: "0 \<le> off" "off + limit \<le> fb_size b" "int (length acc) < limit"
  shows "\<exists>n st'. 0 < n \<and> int (length acc) + int n \<le> limit \<and> ok st' \<and> sto st' = sto st \<and>
    read_loop get (Some rd) b off limit acc (Some st) =
    read_loop get (Some rd) b off limit (acc @ take n (drop (nat (off + int (length acc))) d)) (Some st')"
proof -
  let ?pos = "off + int (length acc)"
  have pos: "0 \<le> ?pos" "?pos < fb_size b" using rng by linarith+
  obtain i where i: "findExtentIndex b ?pos = Some i" using findExtentIndex_found [OF wf pos] ..
  let ?x = "fb_extents b ! i"
  let ?eo = "?pos - x_start ?x" and ?len = "min (x_length ?x - (?pos - x_start ?x)) (limit - int (length acc))"
  have ins: "i < length (fb_extents b)" "x_start ?x \<le> ?pos" "?pos < x_end ?x"
    using findExtentIndex_inside [OF i] by simp_all
  have c: "contig 0 (fb_extents b) (fb_size b)" using wf by (simp add: body_wf_def)
  have x0: "0 \<le> x_start ?x" using contig_bounds [OF c, of ?x] ins by simp
  have dx: "extent_data (sto st) host ?x = Some (take (nat (x_length ?x)) (drop (nat (x_start ?x)) d))"
    using extent_data_nth [OF c _ ins(1)] st(2) by (simp add: body_data_def)
  have len: "0 < ?len" "?eo + ?len \<le> x_length ?x" "0 \<le> ?eo" using ins rng by (auto simp: x_end_def)
  from read_extent_ok [OF st(1) rd dx len(3) _ len(2)] len(1) obtain st' where
    r: "read_extent get (Some rd) ?x ?eo ?len (Some st) =
      (Inr (take (nat ?len) (drop (nat ?eo) (take (nat (x_length ?x)) (drop (nat (x_start ?x)) d)))), Some st')"
      "ok st'" "sto st' = sto st" by auto
  have idx: "nat ?eo + nat (x_start ?x) = nat ?pos" using ins x0 by simp
  have "take (nat ?len) (drop (nat ?eo) (take (nat (x_length ?x)) (drop (nat (x_start ?x)) d))) =
    take (nat ?len) (drop (nat ?pos) d)"
    using len by (simp add: drop_take min_def idx nat_le_iff)
  then have eq: "read_loop get (Some rd) b off limit acc (Some st) =
    read_loop get (Some rd) b off limit (acc @ take (nat ?len) (drop (nat ?pos) d)) (Some st')"
    using rng i r(1) by (subst read_loop.simps) (simp add: Let_def)
  have "0 < nat ?len" "int (length acc) + int (nat ?len) \<le> limit" using len by auto
  with eq r show ?thesis by blast
qed

lemma read_loop_ok:
  assumes wf: "body_wf b" and rd: "reader_ok host rd" and rng: "0 \<le> off" "off + limit \<le> fb_size b"
  shows "ok st \<Longrightarrow> body_data (sto st) host b = Some d \<Longrightarrow> int k \<le> limit \<Longrightarrow>
    \<exists>st'. read_loop get (Some rd) b off limit (take k (drop (nat off) d)) (Some st) =
      (take (nat limit) (drop (nat off) d), None, Some st') \<and> ok st' \<and> sto st' = sto st"
proof (induction "nat limit - k" arbitrary: k st rule: less_induct)
  case less
  let ?acc = "take k (drop (nat off) d)"
  have ld: "int (length d) = fb_size b" using body_data_length [OF wf less.prems(2)] .
  have la: "length ?acc = k" using ld rng less.prems(3) by simp
  show ?case
  proof (cases "int k < limit")
    case True
    from read_step [OF wf less.prems(1,2) rd rng, of ?acc] la True obtain n st' where
      n: "0 < n" "int k + int n \<le> limit" "ok st'" "sto st' = sto st"
        "read_loop get (Some rd) b off limit ?acc (Some st) =
         read_loop get (Some rd) b off limit (?acc @ take n (drop (nat (off + int k)) d)) (Some st')" by auto
    have acc: "?acc @ take n (drop (nat (off + int k)) d) = take (k + n) (drop (nat off) d)"
      using rng by (simp add: take_add nat_add_distrib add.commute)
    have "nat limit - (k + n) < nat limit - k" using n True by linarith
    from less.hyps [OF this n(3)] less.prems(2) n(2,4) show ?thesis unfolding n(5) acc by simp
  next
    case False
    then have "k = nat limit" using less.prems(3) by simp
    then show ?thesis using less.prems la False by (subst read_loop.simps) simp
  qed
qed

lemma ReadAt_ok:
  assumes "body_wf b" "reader_ok host rd" "ok st" "body_data (sto st) host b = Some d" "0 \<le> off" "0 < plen"
  shows "\<exists>st'. ReadAt get (Some rd) (Some b) plen off (Some st) =
      (take (nat plen) (drop (nat off) d), if off + plen \<le> fb_size b then None else Some ErrEOF, Some st') \<and>
    ok st' \<and> sto st' = sto st"
proof (cases "off < fb_size b")
  case True
  let ?limit = "min plen (fb_size b - off)"
  have len: "int (length d) = fb_size b" by (rule body_data_length [OF assms(1,4)])
  have lim: "off + ?limit \<le> fb_size b" by simp
  have "ensureCoveredRange b off (off + ?limit) = None"
    using ensureCovered_None [OF assms(1,5)] assms(6) True by simp
  moreover obtain st' where "read_loop get (Some rd) b off ?limit [] (Some st) =
      (take (nat ?limit) (drop (nat off) d), None, Some st')" "ok st'" "sto st' = sto st"
    using read_loop_ok [OF assms(1,2,5) lim assms(3,4), of 0] assms(6) True by auto
  moreover have "take (nat ?limit) (drop (nat off) d) = take (nat plen) (drop (nat off) d)"
    using len assms(5,6) True by (cases "plen \<le> fb_size b - off") (simp_all add: min_def)
  ultimately show ?thesis using assms(5,6) True by (auto simp: ReadAt_def Let_def min_def)
next
  case False
  have "drop (nat off) d = []" using body_data_length [OF assms(1,4)] False by simp
  then show ?thesis using assms(3,5,6) False by (auto simp: ReadAt_def)
qed

end

subsection \<open>The byte-string operations\<close>

definition pad_to :: "nat \<Rightarrow> bytes \<Rightarrow> bytes" where
  "pad_to n d = d @ replicate (n - length d) (CHR 0x00)"

definition overwrite :: "bytes \<Rightarrow> nat \<Rightarrow> bytes \<Rightarrow> bytes" where
  "overwrite d off c = take off (pad_to off d) @ c @ drop (off + length c) d"

definition insert_bytes :: "bytes \<Rightarrow> nat \<Rightarrow> bytes \<Rightarrow> bytes" where
  "insert_bytes d off c = take off d @ c @ drop off d"

definition delete_bytes :: "bytes \<Rightarrow> nat \<Rightarrow> nat \<Rightarrow> bytes" where
  "delete_bytes d start stop = take start d @ drop stop d"

definition resize :: "bytes \<Rightarrow> nat \<Rightarrow> bytes" where
  "resize d n = take n (pad_to n d)"

lemma grown_body:
  assumes "body_wf b" "body_data sto host b = Some d" "0 \<le> off"
  shows "let b1 = (if off > fb_size b then appendZero (off - fb_size b) b else b)
    in body_wf b1 \<and> body_data sto host b1 = Some (pad_to (nat off) d) \<and> fb_size b1 = max off (fb_size b)"
proof -
  have len: "int (length d) = fb_size b" by (rule body_data_length [OF assms(1,2)])
  have "nat (off - fb_size b) = nat off - length d" using len by simp
  then show ?thesis
    using appendZero_spec [OF assms(1,2), of "off - fb_size b"] assms len
    by (auto simp: Let_def pad_to_def)
qed

lemma blob_contig: "c \<noteq> [] \<Longrightarrow> contig 0 [blob_extent 0 (int (length c)) h] (int (length c))"
  by (simp add: blob_extent_def x_end_def)

lemma blob_data: "sto h = Some c \<Longrightarrow> exts_data sto host [blob_extent 0 (int (length c)) h] = Some c"
  by (simp add: extent_data_def blob_extent_def slice_bytes_def)

context chunk_provider
begin

lemma WriteAt_ok:
  assumes wf: "body_wf b" and st: "ok st" "body_data (sto st) host b = Some d"
    and c: "c \<noteq> []" "safe c" and off: "0 \<le> off" and put: "put c st = (Inr h, st')"
  shows "\<exists>b'. WriteAt put off c (Some b) (Some st) = (None, Some b', Some st') \<and> body_wf b' \<and> ok st' \<and>
    body_data (sto st') host b' = Some (overwrite d (nat off) c)"
proof -
  define b1 where "b1 = (if off > fb_size b then appendZero (off - fb_size b) b else b)"
  have st': "ok st'" "sto st' h = Some c" "\<And>k x. sto st k = Some x \<Longrightarrow> sto st' k = Some x"
    using put_ok [OF st(1) c(2) put] by auto
  have len: "int (length d) = fb_size b" by (rule body_data_length [OF wf st(2)])
  have b1: "body_wf b1" "body_data (sto st') host b1 = Some (pad_to (nat off) d)" "fb_size b1 = max off (fb_size b)"
    using grown_body [OF wf body_data_mono [OF st'(3) st(2)] off] unfolding b1_def Let_def by auto
  let ?stop = "min (off + int (length c)) (fb_size b1)"
  have "off \<le> ?stop" "?stop \<le> fb_size b1" using b1(3) by auto
  from replaceRange_spec [OF b1(1,2) off this blob_contig [OF c(1)] blob_data [of "sto st'", OF st'(2)]]
  obtain b' where b': "replaceRange off ?stop [blob_extent 0 (int (length c)) h] (int (length c)) b1 = (None, b')"
    "body_wf b'" "body_data (sto st') host b' =
      Some (take (nat off) (pad_to (nat off) d) @ c @ drop (nat ?stop) (pad_to (nat off) d))" by auto
  have "drop (nat ?stop) (pad_to (nat off) d) = drop (nat off + length c) d"
    using len off b1(3) by (auto simp: pad_to_def min_def max_def nat_add_distrib split: if_splits)
  with b' have "body_data (sto st') host b' = Some (overwrite d (nat off) c)" by (simp add: overwrite_def)
  moreover have "WriteAt put off c (Some b) (Some st) = (None, Some b', Some st')"
    using off c(1) put b'(1) by (simp add: WriteAt_def blobReplacement_def Let_def b1_def [symmetric])
  ultimately show ?thesis using b'(2) st'(1) by blast
qed

lemma WriteAt_fails:
  assumes wf: "body_wf b" and st: "ok st" "body_data (sto st) host b = Some d"
    and c: "c \<noteq> []" and off: "0 \<le> off" and put: "put c st = (Inl err, st')"
  shows "\<exists>b'. WriteAt put off c (Some b) (Some st) = (Some err, Some b', Some st') \<and> body_wf b' \<and> ok st' \<and>
    body_data (sto st') host b' = Some (pad_to (nat off) d)"
  using grown_body [OF wf st(2) off] put_fail [OF st(1) put] off c put
  by (auto simp: WriteAt_def blobReplacement_def Let_def)

lemma InsertAt_ok:
  assumes wf: "body_wf b" and st: "ok st" "body_data (sto st) host b = Some d"
    and c: "c \<noteq> []" "safe c" and off: "0 \<le> off" "off \<le> fb_size b" and put: "put c st = (Inr h, st')"
  shows "\<exists>b'. InsertAt put off c (Some b) (Some st) = (None, Some b', Some st') \<and> body_wf b' \<and> ok st' \<and>
    body_data (sto st') host b' = Some (insert_bytes d (nat off) c)"
proof -
  have st': "ok st'" "sto st' h = Some c" "\<And>k x. sto st k = Some x \<Longrightarrow> sto st' k = Some x"
    using put_ok [OF st(1) c(2) put] by auto
  from replaceRange_spec [OF wf body_data_mono [OF st'(3) st(2)] off(1) order_refl off(2) blob_contig [OF c(1)]
      blob_data [of "sto st'", OF st'(2)]] st'(1)
  show ?thesis
    using off c(1) put by (auto simp: InsertAt_def blobReplacement_def insert_bytes_def)
qed

text \<open>The chunk loop: what is stored so far tiles the content up to the current offset.\<close>

lemma chunk_loop_ok:
  assumes n: "0 < n" and safe: "\<And>i j. safe (take i (drop j content))"
  shows "ok st \<Longrightarrow> contig 0 exs (int (min off (length content))) \<Longrightarrow>
    exts_data (sto st) host exs = Some (take off content) \<Longrightarrow>
    chunk_loop put content n off exs st = (r, st') \<Longrightarrow>
    ok st' \<and> (\<forall>exs'. r = Inr exs' \<longrightarrow> contig 0 exs' (int (length content)) \<and>
      exts_data (sto st') host exs' = Some content)"
proof (induction "length content - off" arbitrary: off exs st rule: less_induct)
  case less
  show ?case
  proof (cases "off < length content")
    case False
    then have "r = Inr exs" "st' = st" using less.prems(4) n by (auto simp: chunk_loop.simps)
    then show ?thesis using False less.prems by simp
  next
    case True
    let ?stop = "min (off + n) (length content)"
    let ?piece = "take (?stop - off) (drop off content)"
    obtain pr st1 where p: "put ?piece st = (pr, st1)" by fastforce
    show ?thesis
    proof (cases pr)
      case (Inl err)
      then have "r = Inl err" "st' = st1" using less.prems(4) n True p by (auto simp: chunk_loop.simps Let_def)
      then show ?thesis using put_fail [OF less.prems(1), of ?piece err st1] p Inl by simp
    next
      case (Inr h)
      let ?exs = "exs @ [blob_extent (int off) (int (?stop - off)) h]"
      have st1: "ok st1" "sto st1 h = Some ?piece" "\<And>k x. sto st k = Some x \<Longrightarrow> sto st1 k = Some x"
        using put_ok [OF less.prems(1) safe, of "?stop - off" off h st1] p Inr by auto
      have len: "length ?piece = ?stop - off" using True by simp
      have "contig 0 ?exs (int (min (off + n) (length content)))"
        using less.prems(2) True n by (auto simp: contig_append blob_extent_def x_end_def)
      moreover have "exts_data (sto st1) host ?exs = Some (take (off + n) content)"
      proof -
        have "extent_data (sto st1) host (blob_extent (int off) (int (?stop - off)) h) = Some ?piece"
          using st1(2) len by (simp add: extent_data_def blob_extent_def slice_bytes_def)
        moreover have "take off content @ ?piece = take (off + n) content"
          using True by (auto simp: min_def take_add)
        ultimately show ?thesis
          using exts_data_mono [OF st1(3) less.prems(3)] by (simp add: exts_data_append)
      qed
      moreover have "chunk_loop put content n (off + n) ?exs st1 = (r, st')"
        using less.prems(4) n True p Inr by (subst (asm) chunk_loop.simps) (simp add: Let_def)
      ultimately show ?thesis using less.hyps [of "off + n" st1 ?exs] st1(1) True n by simp
    qed
  qed
qed

lemma NewChunkedFileBody_ok:
  assumes st: "ok st" and safe: "\<And>i j. safe (take i (drop j content))"
    and eq: "NewChunkedFileBody put content (Some st) chunkSize = (Inr b, Some st')"
  shows "body_wf b \<and> ok st' \<and> body_data (sto st') host b = Some content \<and> fb_size b = int (length content)"
proof (cases "content = []")
  case True
  then show ?thesis
    using st eq by (auto simp: NewChunkedFileBody_def NewEmptyFileBody_def body_wf_def body_data_def)
next
  case False
  let ?n = "if chunkSize \<le> 0 then 65536 else nat chunkSize"
  obtain r st1 where l: "chunk_loop put content ?n 0 [] st = (r, st1)" by fastforce
  have "0 < ?n" by simp
  from chunk_loop_ok [OF this safe st, of "[]" 0 host r st1] l
  have "ok st1 \<and> (\<forall>exs'. r = Inr exs' \<longrightarrow> contig 0 exs' (int (length content)) \<and>
      exts_data (sto st1) host exs' = Some content)" by simp
  then show ?thesis
    using eq l False by (auto simp: NewChunkedFileBody_def body_wf_def body_data_def split: sum.splits)
qed

end

subsection \<open>File bodies over the chunk store\<close>

lemma put_hash_error: "put_hash cd now c s = (Inl err, s') \<Longrightarrow> err = ErrMemoryPressure"
  by (auto simp: put_hash_def Put_def Let_def split: option.splits if_splits prod.splits)



text \<open>C17: Reading is exact: a read of \<open>plen\<close> bytes at \<open>off\<close> returns the corresponding slice of the
  contents, whatever mix of chunks (compressed or not), holes and host files the extents point to,
  reports the end of the file exactly when the range reaches past it, and leaves every content of
  the chunk store as it was.\<close>

theorem ReadAt_exact:
  assumes "codec_ok cd" "chunk_inv cd s" "body_wf b" "body_data (stored cd s) host b = Some d"
    "reader_ok host rd" "0 \<le> off" "0 < plen"
  shows "\<exists>s'. ReadAt (Get cd now) (Some rd) (Some b) plen off (Some s) =
      (take (nat plen) (drop (nat off) d), if off + plen \<le> fb_size b then None else Some ErrEOF, Some s') \<and>
    chunk_inv cd s' \<and> stored cd s' = stored cd s"
  using chunks.ReadAt_ok [of b host rd cd s d off plen now] assms by blast

text \<open>C18: Storing and reading back is the identity: content split into chunks of any size by
  \<open>NewChunkedFileBody\<close>, once accepted by the store, is read back in full unchanged.\<close>

theorem chunked_roundtrip:
  assumes "codec_ok cd" "chunk_inv cd s" "\<forall>i j. collision_free cd (take i (drop j content))"
    "NewChunkedFileBody (put_hash cd now) content (Some s) chunkSize = (Inr b, Some s')" "content \<noteq> []"
    "reader_ok host rd"
  shows "fst (ReadAt (Get cd t) (Some rd) (Some b) (int (length content)) 0 (Some s')) = content \<and> body_wf b"
proof -
  have b: "body_wf b \<and> (codec_ok cd \<and> chunk_inv cd s') \<and> body_data (stored cd s') host b = Some content \<and>
      fb_size b = int (length content)"
    by (rule chunks.NewChunkedFileBody_ok [where st = s and now = now and chunkSize = chunkSize])
      (use assms in auto)
  with chunks.ReadAt_ok [of b host rd cd s' content 0 "int (length content)" t] assms(5,6)
  show ?thesis by auto
qed

subsection \<open>A concrete file\<close>

definition no_host :: "string \<Rightarrow> bytes" where "no_host p = []"

definition no_reader :: real_reader where "no_reader p len off = ([], None)"

definition sample_body :: file_body where
  "sample_body = \<lparr>fb_size = 12, fb_extents = [blob_extent 0 8 ''aaaaaaaa'', blob_extent 8 4 ''bbbb'']\<rparr>"

lemma no_reader_ok: "reader_ok no_host no_reader"
  by (auto simp: reader_ok_def no_host_def no_reader_def slice_bytes_def split: if_splits)

lemma sample_body_ok:
  "chunk_inv sample_codec sample_chunks" "body_wf sample_body"
  "body_data (stored sample_codec sample_chunks) no_host sample_body = Some ''aaaaaaaabbbb''"
proof -
  show "chunk_inv sample_codec sample_chunks"
    unfolding sample_chunks_def by (rule chunk_run_inv [OF sample_codec_ok(1) chunk_inv_New])
  show "body_wf sample_body" by code_simp
  show "body_data (stored sample_codec sample_chunks) no_host sample_body = Some ''aaaaaaaabbbb''" by code_simp
qed



theorem ReadAt_exact_witness:
  "fst (ReadAt (Get sample_codec 3) (Some no_reader) (Some sample_body) 4 6 (Some sample_chunks)) = ''aabb''"
proof -
  have "take 4 (drop 6 ''aaaaaaaabbbb'') = ''aabb''" by code_simp
  then show ?thesis
    using ReadAt_exact [OF sample_codec_ok(1) sample_body_ok no_reader_ok, of 6 4 3] by auto
qed

theorem chunked_roundtrip_witness:
  "\<exists>b s'. NewChunkedFileBody (put_hash sample_codec 1) ''hello'' (Some (NewChunkStore 0)) 2 = (Inr b, Some s') \<and>
     fst (ReadAt (Get sample_codec 2) (Some no_reader) (Some b) 5 0 (Some s')) = ''hello''"
proof -
  let ?r = "NewChunkedFileBody (put_hash sample_codec 1) ''hello'' (Some (NewChunkStore 0)) 2"
  have "case ?r of (Inr b, Some s') \<Rightarrow> True | _ \<Rightarrow> False" by code_simp
  then obtain b s' where r: "?r = (Inr b, Some s')" by (auto split: prod.splits sum.splits option.splits)
  with chunked_roundtrip [OF sample_codec_ok(1) chunk_inv_New _ r _ no_reader_ok, of 2] sample_codec_ok(2)
  show ?thesis by auto
qed

end
