(* ===== verification/Vfs_Tree.thy ===== *)
theory Vfs_Tree imports
  Vfs_Events File_Spec
  "HOL-Library.Word" "HOL-Library.List_Lexorder" "HOL-Library.Char_ord"
begin

text \<open>
  The directory tree of the virtual file system (\<^verbatim>\<open>vfs/tree.go\<close>, \<^verbatim>\<open>overlay.go\<close>, \<^verbatim>\<open>inode.go\<close>). Inside one
  tree no node is shared, so a pointer to a node in memory is its path from the root, and a pointer to
  a synthesized host node is its key in \<^verbatim>\<open>hostNodes\<close>. A write through a pointer whose node has been
  unlinked meanwhile changes nothing that can be seen from the tree. A nil children map is \<open>None\<close>:
  reading it finds nothing, assigning into it panics. The write lock makes an operation atomic, except
  that \<^verbatim>\<open>Write\<close> creates the missing parents under a lock of its own.

  The host is a parameter of every operation, so it may change from one operation to the next; so are
  the clock, the digest and compression of the chunk store, and the reader of host files.
\<close>

unbundle bit_operations_syntax

section \<open>Inodes\<close>

type_synonym file_mode = "32 word"

definition ModeDir :: file_mode where "ModeDir = push_bit 31 1"
definition ModeSymlink :: file_mode where "ModeSymlink = push_bit 27 1"
definition ModePerm :: file_mode where "ModePerm = 0x1FF"

datatype EntryKind = EntryFile | EntryDir | EntrySymlink

record Inode =
  in_ID :: nat
  in_Kind :: EntryKind
  in_Mode :: file_mode
  in_ModTime :: gotime
  in_Nlink :: int
  in_Body :: "file_body option"
  in_LinkTarget :: string

definition inode_Clone :: "Inode \<Rightarrow> Inode" where
  "inode_Clone i = (if in_Body i \<noteq> None then i\<lparr>in_Body := Some (body_Clone (in_Body i))\<rparr> else i)"

definition inode_Size :: "Inode \<Rightarrow> int" where
  "inode_Size i =
     (case in_Kind i of
        EntryFile \<Rightarrow> body_Size (in_Body i)
      | EntrySymlink \<Rightarrow> int (length (in_LinkTarget i))
      | EntryDir \<Rightarrow> 0)"

definition IsDir :: "Inode \<Rightarrow> bool" where "IsDir i \<longleftrightarrow> in_Kind i = EntryDir"
definition IsFile :: "Inode \<Rightarrow> bool" where "IsFile i \<longleftrightarrow> in_Kind i = EntryFile"
definition IsSymlink :: "Inode \<Rightarrow> bool" where "IsSymlink i \<longleftrightarrow> in_Kind i = EntrySymlink"

section \<open>Nodes and trees\<close>

datatype tnode = TNode (n_inode: Inode) (n_children: "(string \<times> tnode) list option")

record tree =
  tr_root :: tnode
  tr_store :: chunk_store
  tr_alloc :: nat
  tr_chunkSize :: int
  tr_hostRoot :: string
  tr_hostNodes :: "(string \<times> Inode) list"
  tr_whiteouts :: "string list"
  tr_subs :: "subscriber list"

text \<open>The host, as the overlay queries it.\<close>

record host_info =
  hi_mode :: file_mode
  hi_modTime :: gotime
  hi_size :: int

datatype os_error = OSNotExist | OSOther string

record host_os =
  os_Lstat :: "string \<Rightarrow> os_error + host_info"
  os_Stat :: "string \<Rightarrow> os_error + host_info"
  os_Readlink :: "string \<Rightarrow> string option"
  os_ReadDir :: "string \<Rightarrow> string list option"

record vfs_env =
  ve_os :: host_os
  ve_codec :: codec
  ve_reader :: real_reader
  ve_now :: gotime
  ve_nanos :: int

definition info_IsDir :: "host_info \<Rightarrow> bool" where "info_IsDir info \<longleftrightarrow> hi_mode info AND ModeDir \<noteq> 0"

definition nextID :: "tree \<Rightarrow> nat \<times> tree" where
  "nextID t = (tr_alloc t + 1, t\<lparr>tr_alloc := tr_alloc t + 1\<rparr>)"

definition dir_inode :: "nat \<Rightarrow> file_mode \<Rightarrow> gotime \<Rightarrow> Inode" where
  "dir_inode i mode now =
     \<lparr>in_ID = i, in_Kind = EntryDir, in_Mode = ModeDir OR mode AND ModePerm, in_ModTime = now, in_Nlink = 2,
      in_Body = None, in_LinkTarget = []\<rparr>"

definition NewTree :: "int \<Rightarrow> int \<Rightarrow> string \<Rightarrow> gotime \<Rightarrow> tree" where
  "NewTree memoryLimit chunkSize hostOverlay now =
     \<lparr>tr_root = TNode (dir_inode 1 0x1ED now) (Some []), tr_store = NewChunkStore memoryLimit, tr_alloc = 1,
      tr_chunkSize = chunkSize, tr_hostRoot = hostOverlay, tr_hostNodes = [], tr_whiteouts = [], tr_subs = []\<rparr>"

text \<open>Reading and writing through a pointer.\<close>

datatype noderef = Mem "string list" | HostN string

definition child_of :: "tnode \<Rightarrow> string \<Rightarrow> tnode option" where
  "child_of n c = (case n_children n of None \<Rightarrow> None | Some kids \<Rightarrow> map_of kids c)"

fun get_at :: "tnode \<Rightarrow> string list \<Rightarrow> tnode option" where
  "get_at n [] = Some n"
| "get_at n (c # cs) = (case child_of n c of None \<Rightarrow> None | Some m \<Rightarrow> get_at m cs)"

definition put_child :: "string \<Rightarrow> tnode \<Rightarrow> tnode \<Rightarrow> tnode" where
  "put_child c m n = TNode (n_inode n) (map_option (alist_put c m) (n_children n))"

definition del_child :: "string \<Rightarrow> tnode \<Rightarrow> tnode" where
  "del_child c n = TNode (n_inode n) (map_option (alist_del c) (n_children n))"

definition on_inode :: "(Inode \<Rightarrow> Inode) \<Rightarrow> tnode \<Rightarrow> tnode" where
  "on_inode f n = TNode (f (n_inode n)) (n_children n)"

fun modify_at :: "string list \<Rightarrow> (tnode \<Rightarrow> tnode) \<Rightarrow> tnode \<Rightarrow> tnode" where
  "modify_at [] f n = f n"
| "modify_at (c # cs) f n = (case child_of n c of None \<Rightarrow> n | Some m \<Rightarrow> put_child c (modify_at cs f m) n)"

definition on_node :: "noderef \<Rightarrow> (tnode \<Rightarrow> tnode) \<Rightarrow> tree \<Rightarrow> tree" where
  "on_node r f t =
     (case r of
        Mem cs \<Rightarrow> t\<lparr>tr_root := modify_at cs f (tr_root t)\<rparr>
      | HostN k \<Rightarrow>
          (case map_of (tr_hostNodes t) k of
             None \<Rightarrow> t
           | Some i \<Rightarrow> t\<lparr>tr_hostNodes := alist_put k (n_inode (f (TNode i None))) (tr_hostNodes t)\<rparr>))"

definition set_modTime :: "noderef \<Rightarrow> gotime \<Rightarrow> tree \<Rightarrow> tree" where
  "set_modTime r now = on_node r (on_inode (in_ModTime_update (\<lambda>_. now)))"

definition notify :: "ChangeEvent \<Rightarrow> tree \<Rightarrow> tree" where
  "notify ev t = t\<lparr>tr_subs := publish ev (tr_subs t)\<rparr>"

section \<open>The overlay\<close>

definition hostPath :: "tree \<Rightarrow> string \<Rightarrow> string" where
  "hostPath t p =
     (if tr_hostRoot t = [] then []
      else case cleanPath p of
          Inl _ \<Rightarrow> []
        | Inr clean \<Rightarrow> if clean = ''/'' then tr_hostRoot t else path_Clean (tr_hostRoot t @ ''/'' @ clean))"

text \<open>The walk to the ancestors: a clean path has fewer ancestors than characters.\<close>

fun ancestor_whiteout :: "nat \<Rightarrow> string list \<Rightarrow> string \<Rightarrow> bool" where
  "ancestor_whiteout 0 ws a = False"
| "ancestor_whiteout (Suc fuel) ws a =
     (if a \<noteq> ''/'' \<and> a \<noteq> ''.'' then a \<in> set ws \<or> ancestor_whiteout fuel ws (path_Dir a) else False)"

definition isWhiteoutLocked :: "tree \<Rightarrow> string \<Rightarrow> bool" where
  "isWhiteoutLocked t p =
     (if tr_whiteouts t = [] then False
      else case cleanPath p of
          Inl _ \<Rightarrow> False
        | Inr clean \<Rightarrow>
            clean \<in> set (tr_whiteouts t) \<or> ancestor_whiteout (length clean) (tr_whiteouts t) (path_Dir clean))"

definition addWhiteoutLocked :: "string \<Rightarrow> tree \<Rightarrow> tree" where
  "addWhiteoutLocked p t =
     (case cleanPath p of
        Inl _ \<Rightarrow> t
      | Inr clean \<Rightarrow>
          t\<lparr>tr_whiteouts := List.insert clean (filter (\<lambda>k. \<not> HasPrefix k (clean @ ''/'')) (tr_whiteouts t)),
            tr_hostNodes := filter (\<lambda>(k, _). \<not> (k = clean \<or> HasPrefix k (clean @ ''/''))) (tr_hostNodes t)\<rparr>)"

definition clearWhiteoutLocked :: "string \<Rightarrow> tree \<Rightarrow> tree" where
  "clearWhiteoutLocked p t =
     (case cleanPath p of
        Inl _ \<Rightarrow> t
      | Inr clean \<Rightarrow> t\<lparr>tr_whiteouts := filter (\<lambda>k. k \<noteq> clean) (tr_whiteouts t)\<rparr>)"

definition updateHostInode :: "host_os \<Rightarrow> host_info \<Rightarrow> string \<Rightarrow> Inode \<Rightarrow> Inode" where
  "updateHostInode os info hp i0 =
     (let i = i0\<lparr>in_Mode := hi_mode info, in_ModTime := hi_modTime info\<rparr> in
      if info_IsDir info then i\<lparr>in_Kind := EntryDir, in_Nlink := 2, in_Body := None, in_LinkTarget := []\<rparr>
      else if hi_mode info AND ModeSymlink \<noteq> 0 then
        let i = i\<lparr>in_Kind := EntrySymlink, in_Nlink := 1, in_Body := None\<rparr>
        in (case os_Readlink os hp of None \<Rightarrow> i | Some target \<Rightarrow> i\<lparr>in_LinkTarget := target\<rparr>)
      else i\<lparr>in_Kind := EntryFile, in_Nlink := 1, in_LinkTarget := [], in_Body := Some (NewRealFileBody hp (hi_size info))\<rparr>)"

definition hostInodeStillFresh :: "Inode \<Rightarrow> host_info \<Rightarrow> bool" where
  "hostInodeStillFresh i info =
     (if in_Mode i \<noteq> hi_mode info then False
      else if in_ModTime i \<noteq> hi_modTime info then False
      else if in_Kind i = EntryFile \<and> in_Body i \<noteq> None \<and> body_Size (in_Body i) \<noteq> hi_size info then False
      else True)"

definition zero_inode :: "nat \<Rightarrow> Inode" where
  "zero_inode i =
     \<lparr>in_ID = i, in_Kind = EntryFile, in_Mode = 0, in_ModTime = 0, in_Nlink = 0, in_Body = None, in_LinkTarget = []\<rparr>"

definition from_os :: "os_error \<Rightarrow> tree_error" where
  "from_os err = (case err of OSNotExist \<Rightarrow> ErrNotExist | OSOther e \<Rightarrow> ErrOS e)"

definition synthesizeHostNodeLocked :: "host_os \<Rightarrow> string \<Rightarrow> tree \<Rightarrow> (tree_error + noderef \<times> tnode) \<times> tree" where
  "synthesizeHostNodeLocked os p t =
     (if tr_hostRoot t = [] then (Inl ErrNotExist, t)
      else let hp = hostPath t p in
        if hp = [] then (Inl ErrInvalidPath, t)
        else case os_Lstat os hp of
            Inl err \<Rightarrow> (Inl (from_os err), t)
          | Inr info \<Rightarrow>
              (case map_of (tr_hostNodes t) p of
                 Some cached \<Rightarrow>
                   if hostInodeStillFresh cached info then (Inr (HostN p, TNode cached None), t)
                   else let i = updateHostInode os info hp cached
                        in (Inr (HostN p, TNode i None), t\<lparr>tr_hostNodes := alist_put p i (tr_hostNodes t)\<rparr>)
               | None \<Rightarrow>
                   let (ino, t) = nextID t; i = updateHostInode os info hp (zero_inode ino)
                   in (Inr (HostN p, TNode i None), t\<lparr>tr_hostNodes := alist_put p i (tr_hostNodes t)\<rparr>)))"

definition hostDirAtLocked :: "host_os \<Rightarrow> string \<Rightarrow> tree \<Rightarrow> tnode option \<times> tree" where
  "hostDirAtLocked os p t =
     (let hp = hostPath t p in
      if hp = [] then (None, t)
      else case os_Stat os hp of
          Inl _ \<Rightarrow> (None, t)
        | Inr info \<Rightarrow>
            if \<not> info_IsDir info then (None, t)
            else let (ino, t) = nextID t
                 in (Some (TNode (dir_inode ino (hi_mode info) (hi_modTime info)) (Some [])), t))"

definition hostHasNonDirLocked :: "host_os \<Rightarrow> string \<Rightarrow> tree \<Rightarrow> bool" where
  "hostHasNonDirLocked os p t =
     (let hp = hostPath t p in
      if hp = [] then False
      else case os_Lstat os hp of Inl _ \<Rightarrow> False | Inr info \<Rightarrow> \<not> info_IsDir info)"

definition hostNodeID :: "tree \<Rightarrow> string \<Rightarrow> nat" where
  "hostNodeID t p = (case map_of (tr_hostNodes t) p of Some i \<Rightarrow> in_ID i | None \<Rightarrow> 0)"

definition hostMtime :: "host_os \<Rightarrow> tree \<Rightarrow> string \<Rightarrow> tree_error + gotime" where
  "hostMtime os t p =
     (let hp = hostPath t p in
      if hp = [] then Inl ErrNotExist
      else case os_Stat os hp of Inl err \<Rightarrow> Inl (from_os err) | Inr info \<Rightarrow> Inr (hi_modTime info))"

definition unionDirChildrenLocked :: "host_os \<Rightarrow> tree \<Rightarrow> string \<Rightarrow> tnode \<Rightarrow> string list" where
  "unionDirChildrenLocked os t p n =
     (let names = (case n_children n of None \<Rightarrow> [] | Some kids \<Rightarrow> map fst kids) in
      if tr_hostRoot t = [] then sort names
      else let hp = hostPath t p in
        if hp = [] then sort names
        else case os_ReadDir os hp of
            None \<Rightarrow> sort names
          | Some entries \<Rightarrow>
              sort (fold (\<lambda>name names.
                  if name \<in> set names then names
                  else if isWhiteoutLocked t (joinPath p name) then names
                  else names @ [name]) entries names))"

section \<open>Lookup\<close>

text \<open>The loop, with the parts behind it and the node it stands on.\<close>

fun lookup_loop ::
  "host_os \<Rightarrow> string list \<Rightarrow> string list \<Rightarrow> noderef \<times> tnode \<Rightarrow> tree \<Rightarrow> (tree_error + noderef \<times> tnode) \<times> tree"
where
  "lookup_loop os done [] cursor t = (Inr cursor, t)"
| "lookup_loop os done (part # parts) (r, n) t =
     (if \<not> IsDir (n_inode n) then (Inl ErrNotDir, t)
      else case child_of n part of
          Some m \<Rightarrow> lookup_loop os (done @ [part]) parts (Mem (done @ [part]), m) t
        | None \<Rightarrow>
            let pre = ''/'' @ join_slash (done @ [part]) in
            if isWhiteoutLocked t pre then (Inl ErrNotExist, t)
            else if tr_hostRoot t = [] then (Inl ErrNotExist, t)
            else case synthesizeHostNodeLocked os pre t of
                (Inl err, t) \<Rightarrow> (Inl err, t)
              | (Inr synth, t) \<Rightarrow> lookup_loop os (done @ [part]) parts synth t)"

definition lookupLocked :: "host_os \<Rightarrow> string \<Rightarrow> tree \<Rightarrow> (tree_error + noderef \<times> tnode) \<times> tree" where
  "lookupLocked os p t =
     (case cleanPath p of
        Inl err \<Rightarrow> (Inl err, t)
      | Inr clean \<Rightarrow>
          if clean = ''/'' then (Inr (Mem [], tr_root t), t)
          else lookup_loop os [] (splitNonEmpty clean) (Mem [], tr_root t) t)"

text \<open>
  \<^verbatim>\<open>materializeDirLocked\<close> only ever stands on a node in memory. \<open>assign_child\<close> is an assignment into the
  children map of the node it stands on.
\<close>

definition assign_child :: "noderef \<Rightarrow> tnode \<Rightarrow> string \<Rightarrow> tnode \<Rightarrow> tree \<Rightarrow> (tree_error + unit) \<times> tree" where
  "assign_child r n c m t =
     (case n_children n of None \<Rightarrow> (Inl PanicNilMap, t) | Some _ \<Rightarrow> (Inr (), on_node r (put_child c m) t))"

fun materialize_loop ::
  "host_os \<Rightarrow> string list \<Rightarrow> string list \<Rightarrow> tnode \<Rightarrow> tree \<Rightarrow> (tree_error + string list \<times> tnode) \<times> tree"
where
  "materialize_loop os done [] n t = (if \<not> IsDir (n_inode n) then (Inl ErrNotDir, t) else (Inr (done, n), t))"
| "materialize_loop os done (part # parts) n t =
     (if \<not> IsDir (n_inode n) then (Inl ErrNotDir, t)
      else case child_of n part of
          Some m \<Rightarrow> materialize_loop os (done @ [part]) parts m t
        | None \<Rightarrow>
            let pre = ''/'' @ join_slash (done @ [part]) in
            if isWhiteoutLocked t pre then (Inl ErrNotExist, t)
            else if tr_hostRoot t \<noteq> [] then
              (case hostDirAtLocked os pre t of
                 (Some hostDir, t) \<Rightarrow>
                   (case assign_child (Mem done) n part hostDir t of
                      (Inl err, t) \<Rightarrow> (Inl err, t)
                    | (Inr _, t) \<Rightarrow> materialize_loop os (done @ [part]) parts hostDir t)
               | (None, t) \<Rightarrow> if hostHasNonDirLocked os pre t then (Inl ErrNotDir, t) else (Inl ErrNotExist, t))
            else (Inl ErrNotExist, t))"

definition materializeDirLocked :: "host_os \<Rightarrow> string \<Rightarrow> tree \<Rightarrow> (tree_error + string list \<times> tnode) \<times> tree" where
  "materializeDirLocked os p t =
     (case cleanPath p of
        Inl err \<Rightarrow> (Inl err, t)
      | Inr clean \<Rightarrow>
          if clean = ''/'' then (Inr ([], tr_root t), t)
          else materialize_loop os [] (splitNonEmpty clean) (tr_root t) t)"

section \<open>Creating\<close>

definition Mkdir :: "vfs_env \<Rightarrow> string \<Rightarrow> file_mode \<Rightarrow> tree \<Rightarrow> (tree_error + unit) \<times> tree" where
  "Mkdir env p mode t =
     (case cleanPath p of
        Inl err \<Rightarrow> (Inl err, t)
      | Inr clean \<Rightarrow>
          (case splitPath p of
             Inl err \<Rightarrow> (Inl err, t)
           | Inr (parent, name) \<Rightarrow>
               (case materializeDirLocked (ve_os env) parent t of
                  (Inl err, t) \<Rightarrow> (Inl err, t)
                | (Inr (cs, parentNode), t) \<Rightarrow>
                    if child_of parentNode name \<noteq> None then (Inl ErrExist, t)
                    else
                      let t = clearWhiteoutLocked clean t; now = ve_now env; (ino, t) = nextID t in
                      (case assign_child (Mem cs) parentNode name (TNode (dir_inode ino mode now) (Some [])) t of
                         (Inl err, t) \<Rightarrow> (Inl err, t)
                       | (Inr _, t) \<Rightarrow>
                           (Inr (), notify (change_event clean OpMkdir now) (set_modTime (Mem cs) now t))))))"

fun mkdirall_loop :: "vfs_env \<Rightarrow> file_mode \<Rightarrow> string list \<Rightarrow> string list \<Rightarrow> tnode \<Rightarrow> tree \<Rightarrow> (tree_error + unit) \<times> tree" where
  "mkdirall_loop env mode done [] n t = (Inr (), t)"
| "mkdirall_loop env mode done (part # parts) n t =
     (case child_of n part of
        Some existing \<Rightarrow>
          if \<not> IsDir (n_inode existing) then (Inl ErrNotDir, t)
          else mkdirall_loop env mode (done @ [part]) parts existing t
      | None \<Rightarrow>
          let pre = ''/'' @ join_slash (done @ [part]);
              make = (\<lambda>t.
                let t = clearWhiteoutLocked pre t; now = ve_now env; (ino, t) = nextID t;
                    newDir = TNode (dir_inode ino mode now) (Some [])
                in (case assign_child (Mem done) n part newDir t of
                      (Inl err, t) \<Rightarrow> (Inl err, t)
                    | (Inr _, t) \<Rightarrow>
                        mkdirall_loop env mode (done @ [part]) parts newDir
                          (notify (change_event pre OpMkdir now) (set_modTime (Mem done) now t))))
          in if tr_hostRoot t \<noteq> [] \<and> \<not> isWhiteoutLocked t pre then
               (case hostDirAtLocked (ve_os env) pre t of
                  (Some hostDir, t) \<Rightarrow>
                    (case assign_child (Mem done) n part hostDir t of
                       (Inl err, t) \<Rightarrow> (Inl err, t)
                     | (Inr _, t) \<Rightarrow> mkdirall_loop env mode (done @ [part]) parts hostDir t)
                | (None, t) \<Rightarrow> if hostHasNonDirLocked (ve_os env) pre t then (Inl ErrNotDir, t) else make t)
             else make t)"

definition MkdirAll :: "vfs_env \<Rightarrow> string \<Rightarrow> file_mode \<Rightarrow> tree \<Rightarrow> (tree_error + unit) \<times> tree" where
  "MkdirAll env p mode t =
     (case cleanPath p of
        Inl err \<Rightarrow> (Inl err, t)
      | Inr clean \<Rightarrow>
          if clean = ''/'' then (Inr (), t)
          else mkdirall_loop env mode [] (splitNonEmpty clean) (tr_root t) t)"

definition makeFileBodyLocked :: "vfs_env \<Rightarrow> bytes \<Rightarrow> tree \<Rightarrow> (vfs_error + file_body) \<times> tree" where
  "makeFileBodyLocked env content t =
     (if content = [] then (Inr NewEmptyFileBody, t)
      else if tr_chunkSize t \<le> 0 then
        (case put_hash (ve_codec env) (ve_nanos env) content (tr_store t) of
           (Inl err, st) \<Rightarrow> (Inl err, t\<lparr>tr_store := st\<rparr>)
         | (Inr h, st) \<Rightarrow> (Inr (NewBlobFileBody h (int (length content))), t\<lparr>tr_store := st\<rparr>))
      else
        (case NewChunkedFileBody (put_hash (ve_codec env) (ve_nanos env)) content (Some (tr_store t)) (tr_chunkSize t) of
           (r, Some st) \<Rightarrow> (r, t\<lparr>tr_store := st\<rparr>)
         | (r, None) \<Rightarrow> (r, t)))"

definition file_inode :: "nat \<Rightarrow> file_mode \<Rightarrow> gotime \<Rightarrow> file_body \<Rightarrow> Inode" where
  "file_inode i mode now body =
     \<lparr>in_ID = i, in_Kind = EntryFile, in_Mode = mode AND ModePerm, in_ModTime = now, in_Nlink = 1,
      in_Body = Some body, in_LinkTarget = []\<rparr>"

text \<open>What \<^verbatim>\<open>Write\<close> does once the parents are there.\<close>

definition write_locked :: "vfs_env \<Rightarrow> string \<Rightarrow> string \<Rightarrow> string \<Rightarrow> bytes \<Rightarrow> file_mode \<Rightarrow> tree \<Rightarrow> (tree_error + unit) \<times> tree" where
  "write_locked env clean parent name content mode t =
     (case materializeDirLocked (ve_os env) parent t of
        (Inl err, t) \<Rightarrow> (Inl err, t)
      | (Inr (cs, parentNode), t) \<Rightarrow>
          (case makeFileBodyLocked env content t of
             (Inl err, t) \<Rightarrow> (Inl (ErrBody err), t)
           | (Inr body, t) \<Rightarrow>
               let t = clearWhiteoutLocked clean t; now = ve_now env in
               (case child_of parentNode name of
                  Some existing \<Rightarrow>
                    if \<not> IsFile (n_inode existing) then (Inl ErrIsDir, t)
                    else
                      let t = on_node (Mem (cs @ [name])) (on_inode (\<lambda>i. i\<lparr>in_Body := Some body, in_ModTime := now\<rparr>)) t
                      in (Inr (), notify (change_event clean OpWrite now) t)
                | None \<Rightarrow>
                    let (ino, t) = nextID t in
                    (case assign_child (Mem cs) parentNode name (TNode (file_inode ino mode now body) None) t of
                       (Inl err, t) \<Rightarrow> (Inl err, t)
                     | (Inr _, t) \<Rightarrow>
                         (Inr (), notify (change_event clean OpWrite now) (set_modTime (Mem cs) now t))))))"

definition Write :: "vfs_env \<Rightarrow> string \<Rightarrow> bytes \<Rightarrow> file_mode \<Rightarrow> tree \<Rightarrow> (tree_error + unit) \<times> tree" where
  "Write env p content mode t =
     (case cleanPath p of
        Inl err \<Rightarrow> (Inl err, t)
      | Inr clean \<Rightarrow>
          (case splitPath p of
             Inl err \<Rightarrow> (Inl err, t)
           | Inr (parent, name) \<Rightarrow>
               (case MkdirAll env parent 0x1ED t of
                  (Inl err, t) \<Rightarrow> (Inl err, t)
                | (Inr _, t) \<Rightarrow> write_locked env clean parent name content mode t)))"

definition WriteReader :: "vfs_env \<Rightarrow> string \<Rightarrow> tree_error + bytes \<Rightarrow> file_mode \<Rightarrow> tree \<Rightarrow> (tree_error + unit) \<times> tree" where
  "WriteReader env p r mode t =
     (case r of Inl err \<Rightarrow> (Inl err, t) | Inr content \<Rightarrow> Write env p content mode t)"

definition link_inode :: "nat \<Rightarrow> gotime \<Rightarrow> string \<Rightarrow> Inode" where
  "link_inode i now target =
     \<lparr>in_ID = i, in_Kind = EntrySymlink, in_Mode = ModeSymlink OR 0x1FF, in_ModTime = now, in_Nlink = 1,
      in_Body = None, in_LinkTarget = target\<rparr>"

definition Symlink :: "vfs_env \<Rightarrow> string \<Rightarrow> string \<Rightarrow> tree \<Rightarrow> (tree_error + unit) \<times> tree" where
  "Symlink env target linkPath t =
     (case cleanPath linkPath of
        Inl err \<Rightarrow> (Inl err, t)
      | Inr clean \<Rightarrow>
          (case splitPath linkPath of
             Inl err \<Rightarrow> (Inl err, t)
           | Inr (parent, name) \<Rightarrow>
               (case materializeDirLocked (ve_os env) parent t of
                  (Inl err, t) \<Rightarrow> (Inl err, t)
                | (Inr (cs, parentNode), t) \<Rightarrow>
                    if child_of parentNode name \<noteq> None then (Inl ErrExist, t)
                    else
                      let t = clearWhiteoutLocked clean t; now = ve_now env; (ino, t) = nextID t in
                      (case assign_child (Mem cs) parentNode name (TNode (link_inode ino now target) None) t of
                         (Inl err, t) \<Rightarrow> (Inl err, t)
                       | (Inr _, t) \<Rightarrow>
                           (Inr (), notify ((change_event clean OpSymlink now)\<lparr>ev_LinkTarget := target\<rparr>)
                              (set_modTime (Mem cs) now t))))))"

section \<open>Removing and renaming\<close>

definition releaseInodeLocked :: "Inode \<Rightarrow> chunk_store \<Rightarrow> chunk_store" where
  "releaseInodeLocked i st =
     (case in_Body i of
        None \<Rightarrow> st
      | Some b \<Rightarrow> fold (\<lambda>ex st. if x_kind ex = ExtentBlob then snd (Release (x_hash ex) st) else st) (fb_extents b) st)"

fun releaseSubtreeLocked :: "tnode \<Rightarrow> chunk_store \<Rightarrow> chunk_store" where
  "releaseSubtreeLocked (TNode i kids) st =
     (case kids of
        None \<Rightarrow> releaseInodeLocked i st
      | Some ks \<Rightarrow> fold (\<lambda>k. releaseSubtreeLocked (snd k)) ks (releaseInodeLocked i st))"

definition Remove :: "vfs_env \<Rightarrow> string \<Rightarrow> tree \<Rightarrow> (tree_error + unit) \<times> tree" where
  "Remove env p t =
     (case cleanPath p of
        Inl err \<Rightarrow> (Inl err, t)
      | Inr clean \<Rightarrow>
          if clean = ''/'' then (Inl ErrInvalidPath, t)
          else case splitPath p of
              Inl err \<Rightarrow> (Inl err, t)
            | Inr (parent, name) \<Rightarrow>
                (case lookupLocked (ve_os env) parent t of
                   (Inl err, t) \<Rightarrow> (Inl err, t)
                 | (Inr (r, parentNode), t) \<Rightarrow>
                     (case child_of parentNode name of
                        Some target \<Rightarrow>
                          if IsDir (n_inode target) \<and> n_children target \<noteq> None \<and> n_children target \<noteq> Some [] then (Inl ErrNotEmpty, t)
                          else
                            let t = t\<lparr>tr_store := releaseInodeLocked (n_inode target) (tr_store t)\<rparr>;
                                t = on_node r (del_child name) t;
                                now = ve_now env;
                                t = set_modTime r now t;
                                t = (if tr_hostRoot t \<noteq> [] then addWhiteoutLocked clean t else t)
                            in (Inr (), notify (change_event clean OpRemove now) t)
                      | None \<Rightarrow>
                          if tr_hostRoot t \<noteq> [] then
                            if isWhiteoutLocked t clean then (Inl ErrNotExist, t)
                            else let hp = hostPath t clean in
                              if hp \<noteq> [] then
                                (case os_Lstat (ve_os env) hp of
                                   Inl _ \<Rightarrow> (Inl ErrNotExist, t)
                                 | Inr _ \<Rightarrow>
                                     let t = addWhiteoutLocked clean t; now = ve_now env; t = set_modTime r now t
                                     in (Inr (), notify (change_event clean OpRemove now) t))
                              else (Inl ErrNotExist, t)
                          else (Inl ErrNotExist, t))))"

definition RemoveAll :: "vfs_env \<Rightarrow> string \<Rightarrow> tree \<Rightarrow> (tree_error + unit) \<times> tree" where
  "RemoveAll env p t =
     (case cleanPath p of
        Inl err \<Rightarrow> (Inl err, t)
      | Inr clean \<Rightarrow>
          if clean = ''/'' then (Inl ErrInvalidPath, t)
          else case splitPath p of
              Inl err \<Rightarrow> (Inl err, t)
            | Inr (parent, name) \<Rightarrow>
                (case lookupLocked (ve_os env) parent t of
                   (Inl err, t) \<Rightarrow> if err = ErrNotExist then (Inr (), t) else (Inl err, t)
                 | (Inr (r, parentNode), t) \<Rightarrow>
                     let now = ve_now env;
                         (mutated, t) =
                           (case child_of parentNode name of
                              Some target \<Rightarrow>
                                (True, set_modTime r now (on_node r (del_child name)
                                   (t\<lparr>tr_store := releaseSubtreeLocked target (tr_store t)\<rparr>)))
                            | None \<Rightarrow> (False, t));
                         (mutated, t) =
                           (if tr_hostRoot t \<noteq> [] then (True, set_modTime r now (addWhiteoutLocked clean t)) else (mutated, t))
                     in (Inr (), if mutated then notify (change_event clean OpRemove now) t else t)))"

text \<open>
  \<^verbatim>\<open>Rename\<close> unlinks the source first and then assigns it to the destination: a destination inside the
  moved directory is by then no longer part of the tree, and the children of a host-only directory are
  a nil map.
\<close>

definition Rename :: "vfs_env \<Rightarrow> string \<Rightarrow> string \<Rightarrow> tree \<Rightarrow> (tree_error + unit) \<times> tree" where
  "Rename env oldPath newPath t =
     (case splitPath oldPath of
        Inl err \<Rightarrow> (Inl err, t)
      | Inr (oldParent, oldName) \<Rightarrow>
          (case splitPath newPath of
             Inl err \<Rightarrow> (Inl err, t)
           | Inr (newParent, newName) \<Rightarrow>
               (case lookupLocked (ve_os env) oldParent t of
                  (Inl err, t) \<Rightarrow> (Inl err, t)
                | (Inr (sr, srcParent), t) \<Rightarrow>
                    (case child_of srcParent oldName of
                       None \<Rightarrow> (Inl ErrNotExist, t)
                     | Some src \<Rightarrow>
                         (case lookupLocked (ve_os env) newParent t of
                            (Inl err, t) \<Rightarrow> (Inl err, t)
                          | (Inr (dr, dstParent), t) \<Rightarrow>
                              if \<not> IsDir (n_inode dstParent) then (Inl ErrNotDir, t)
                              else if child_of dstParent newName \<noteq> None then (Inl ErrExist, t)
                              else
                                let t = on_node sr (del_child oldName) t in
                                (case assign_child dr dstParent newName src t of
                                   (Inl err, t) \<Rightarrow> (Inl err, t)
                                 | (Inr _, t) \<Rightarrow>
                                     let now = ve_now env; t = set_modTime dr now (set_modTime sr now t);
                                         oldClean = (case cleanPath oldPath of Inr c \<Rightarrow> c | Inl _ \<Rightarrow> []);
                                         newClean = (case cleanPath newPath of Inr c \<Rightarrow> c | Inl _ \<Rightarrow> [])
                                     in (Inr (), notify ((change_event newClean OpRename now)\<lparr>ev_OldPath := oldClean\<rparr>) t)))))))"

section \<open>Reading\<close>

text \<open>A buffer of \<open>n\<close> zero bytes with \<open>d\<close> copied to its start.\<close>

definition filled :: "nat \<Rightarrow> bytes \<Rightarrow> bytes" where
  "filled n d = take n d @ replicate (n - length d) (CHR 0x00)"

definition Read :: "vfs_env \<Rightarrow> string \<Rightarrow> tree \<Rightarrow> (tree_error + bytes) \<times> tree" where
  "Read env p t =
     (case lookupLocked (ve_os env) p t of
        (Inl err, t) \<Rightarrow> (Inl err, t)
      | (Inr (r, n), t) \<Rightarrow>
          if \<not> IsFile (n_inode n) then (Inl ErrIsDir, t)
          else (case in_Body (n_inode n) of
              None \<Rightarrow> (Inr [], t)
            | Some b \<Rightarrow>
                let len = body_Size (Some b) in
                if len = 0 then (Inr [], t)
                else (case ReadAt (Get (ve_codec env) (ve_nanos env)) (Some (ve_reader env)) (Some b) len 0 (Some (tr_store t)) of
                    (d, err, st) \<Rightarrow>
                      let t = (case st of Some st \<Rightarrow> t\<lparr>tr_store := st\<rparr> | None \<Rightarrow> t) in
                      if err \<noteq> None \<and> err \<noteq> Some ErrEOF then (Inl (ErrBody (the err)), t)
                      else (Inr (filled (nat len) d), t))))"

definition tree_Stat :: "vfs_env \<Rightarrow> string \<Rightarrow> tree \<Rightarrow> (tree_error + Inode) \<times> tree" where
  "tree_Stat env p t =
     (case lookupLocked (ve_os env) p t of
        (Inl err, t) \<Rightarrow> (Inl err, t)
      | (Inr (r, n), t) \<Rightarrow> (Inr (inode_Clone (n_inode n)), t))"

definition clean_or_empty :: "string \<Rightarrow> string" where
  "clean_or_empty p = (case cleanPath p of Inr c \<Rightarrow> c | Inl _ \<Rightarrow> [])"

definition Chmod :: "vfs_env \<Rightarrow> string \<Rightarrow> file_mode \<Rightarrow> tree \<Rightarrow> (tree_error + unit) \<times> tree" where
  "Chmod env p mode t =
     (case lookupLocked (ve_os env) p t of
        (Inl err, t) \<Rightarrow> (Inl err, t)
      | (Inr (r, n), t) \<Rightarrow>
          let t = on_node r (on_inode (\<lambda>i. i\<lparr>in_Mode := in_Mode i AND NOT ModePerm OR mode AND ModePerm\<rparr>)) t;
              now = ve_now env
          in (Inr (), notify (change_event (clean_or_empty p) OpChmod now) (set_modTime r now t)))"

definition Chtime :: "vfs_env \<Rightarrow> string \<Rightarrow> gotime \<Rightarrow> tree \<Rightarrow> (tree_error + unit) \<times> tree" where
  "Chtime env p mtime t =
     (case lookupLocked (ve_os env) p t of
        (Inl err, t) \<Rightarrow> (Inl err, t)
      | (Inr (r, n), t) \<Rightarrow>
          (Inr (), notify (change_event (clean_or_empty p) OpChtime mtime) (set_modTime r mtime t)))"

fun readdir_loop :: "host_os \<Rightarrow> string \<Rightarrow> string list \<Rightarrow> tree \<Rightarrow> (string \<times> Inode) list \<times> tree" where
  "readdir_loop os clean [] t = ([], t)"
| "readdir_loop os clean (name # names) t =
     (case lookupLocked os (joinPath clean name) t of
        (Inl err, t) \<Rightarrow> readdir_loop os clean names t
      | (Inr (r, child), t) \<Rightarrow>
          (case readdir_loop os clean names t of (out, t) \<Rightarrow> ((name, inode_Clone (n_inode child)) # out, t)))"

definition ReadDir :: "vfs_env \<Rightarrow> string \<Rightarrow> tree \<Rightarrow> (tree_error + (string \<times> Inode) list) \<times> tree" where
  "ReadDir env p t =
     (case lookupLocked (ve_os env) p t of
        (Inl err, t) \<Rightarrow> (Inl err, t)
      | (Inr (r, n), t) \<Rightarrow>
          if \<not> IsDir (n_inode n) then (Inl ErrNotDir, t)
          else let clean = clean_or_empty p in
            (case readdir_loop (ve_os env) clean (unionDirChildrenLocked (ve_os env) t clean n) t of
               (out, t) \<Rightarrow> (Inr out, t)))"

text \<open>
  The visitor of a walk returns nil, \<^verbatim>\<open>fs.SkipDir\<close> or an error, and has a state of its own. The fuel bounds
  the depth: a walk that runs out of it stops with \<open>None\<close>.
\<close>

datatype visit = Visited | SkipDir | VisitErr tree_error

fun walkLocked :: "nat \<Rightarrow> host_os \<Rightarrow> (string \<Rightarrow> Inode \<Rightarrow> 'a \<Rightarrow> visit \<times> 'a) \<Rightarrow> string \<Rightarrow> tnode \<Rightarrow> 'a \<times> tree
    \<Rightarrow> (tree_error option \<times> 'a \<times> tree) option"
  and walk_children :: "nat \<Rightarrow> host_os \<Rightarrow> (string \<Rightarrow> Inode \<Rightarrow> 'a \<Rightarrow> visit \<times> 'a) \<Rightarrow> string \<Rightarrow> string list \<Rightarrow> 'a \<times> tree
    \<Rightarrow> (tree_error option \<times> 'a \<times> tree) option"
where
  "walkLocked 0 os fn p n st = None"
| "walkLocked (Suc fuel) os fn p n (a, t) =
     (case fn p (inode_Clone (n_inode n)) a of
        (SkipDir, a) \<Rightarrow> Some (None, a, t)
      | (VisitErr err, a) \<Rightarrow> Some (Some err, a, t)
      | (Visited, a) \<Rightarrow>
          if \<not> IsDir (n_inode n) then Some (None, a, t)
          else walk_children fuel os fn p (unionDirChildrenLocked os t p n) (a, t))"
| "walk_children fuel os fn p [] (a, t) = Some (None, a, t)"
| "walk_children fuel os fn p (name # names) (a, t) =
     (case lookupLocked os (joinPath p name) t of
        (Inl err, t) \<Rightarrow> walk_children fuel os fn p names (a, t)
      | (Inr (r, child), t) \<Rightarrow>
          (case walkLocked fuel os fn (joinPath p name) child (a, t) of
             None \<Rightarrow> None
           | Some (Some err, a, t) \<Rightarrow> Some (Some err, a, t)
           | Some (None, a, t) \<Rightarrow> walk_children fuel os fn p names (a, t)))"

definition Walk :: "nat \<Rightarrow> vfs_env \<Rightarrow> (string \<Rightarrow> Inode \<Rightarrow> 'a \<Rightarrow> visit \<times> 'a) \<Rightarrow> 'a \<times> tree \<Rightarrow> (tree_error option \<times> 'a \<times> tree) option" where
  "Walk fuel env fn st = walkLocked fuel (ve_os env) fn ''/'' (tr_root (snd st)) st"

text \<open>Open files: the inode as it was at \<^verbatim>\<open>Open\<close>, an offset and a closed flag.\<close>

record openFile =
  of_path :: string
  of_inode :: Inode
  of_offset :: int
  of_closed :: bool

definition Open :: "vfs_env \<Rightarrow> string \<Rightarrow> tree \<Rightarrow> (tree_error + openFile) \<times> tree" where
  "Open env p t =
     (case lookupLocked (ve_os env) p t of
        (Inl err, t) \<Rightarrow> (Inl err, t)
      | (Inr (r, n), t) \<Rightarrow>
          (Inr \<lparr>of_path = p, of_inode = inode_Clone (n_inode n), of_offset = 0, of_closed = False\<rparr>, t))"

text \<open>A read of at most \<open>plen\<close> bytes: the bytes, the error and what is left of the file.\<close>

definition openFile_Read ::
  "vfs_env \<Rightarrow> int \<Rightarrow> openFile \<Rightarrow> tree \<Rightarrow> (bytes \<times> tree_error option) \<times> openFile \<times> tree"
where
  "openFile_Read env plen f t =
     (if of_closed f then (([], Some ErrFileClosed), f, t)
      else if IsDir (of_inode f) then (([], Some ErrIsDir), f, t)
      else case in_Body (of_inode f) of
          None \<Rightarrow> (([], Some (ErrBody ErrEOF)), f, t)
        | Some b \<Rightarrow>
            (case ReadAt (Get (ve_codec env) (ve_nanos env)) (Some (ve_reader env)) (Some b) plen (of_offset f) (Some (tr_store t)) of
               (d, err, st) \<Rightarrow>
                 ((d, map_option ErrBody err), f\<lparr>of_offset := of_offset f + int (length d)\<rparr>,
                  case st of Some st \<Rightarrow> t\<lparr>tr_store := st\<rparr> | None \<Rightarrow> t)))"

definition openFile_Close :: "openFile \<Rightarrow> openFile" where
  "openFile_Close f = f\<lparr>of_closed := True\<rparr>"

definition path_Base :: "string \<Rightarrow> string" where
  "path_Base p =
     (if p = [] then ''.''
      else let q = TrimRight_slash p; b = snd (path_Split q) in if b = [] then ''/'' else b)"

record fileInfo =
  fi_name :: string
  fi_size :: int
  fi_mode :: file_mode
  fi_modTime :: gotime
  fi_isDir :: bool

definition openFile_Stat :: "openFile \<Rightarrow> tree_error + fileInfo" where
  "openFile_Stat f =
     (if of_closed f then Inl ErrFileClosed
      else Inr \<lparr>fi_name = path_Base (of_path f), fi_size = inode_Size (of_inode f), fi_mode = in_Mode (of_inode f),
                fi_modTime = in_ModTime (of_inode f), fi_isDir = IsDir (of_inode f)\<rparr>)"

end
