(* ===== verification/Vfs_Nodes.thy ===== *)
theory Vfs_Nodes imports
  Vfs_Tree
begin

text \<open>
  What the primitives of the tree do to the view from the root, the map from paths to inodes, and the
  well-formedness of nodes: kinds, mode bits, bodies and children maps agree.
\<close>

section \<open>Views\<close>

definition view :: "tnode \<Rightarrow> string list \<Rightarrow> Inode option" where
  "view n cs = map_option n_inode (get_at n cs)"

lemma child_of_put [simp]:
  "child_of (put_child c m n) d = (if n_children n = None then None else if d = c then Some m else child_of n d)"
  by (auto simp: child_of_def put_child_def split: option.split)

lemma child_of_del [simp]: "child_of (del_child c n) d = (if d = c then None else child_of n d)"
  by (auto simp: child_of_def del_child_def split: option.split)

lemma child_of_on_inode [simp]: "child_of (on_inode f n) d = child_of n d"
  by (simp add: child_of_def on_inode_def)

lemma node_parts [simp]:
  "n_inode (put_child c m n) = n_inode n" "n_inode (del_child c n) = n_inode n" "n_inode (on_inode f n) = f (n_inode n)"
  "n_children (put_child c m n) = None \<longleftrightarrow> n_children n = None" "n_children (del_child c n) = None \<longleftrightarrow> n_children n = None"
  "n_children (on_inode f n) = n_children n"
  by (simp_all add: put_child_def del_child_def on_inode_def)

lemma child_of_leaf [simp]: "child_of (TNode i None) c = None" "child_of (TNode i (Some [])) c = None"
  by (simp_all add: child_of_def)

lemma child_of_children: "child_of n c = Some m \<Longrightarrow> \<exists>kids. n_children n = Some kids"
  by (auto simp: child_of_def split: option.splits)

lemma get_at_append: "get_at n (cs @ ds) = (case get_at n cs of None \<Rightarrow> None | Some m \<Rightarrow> get_at m ds)"
  by (induction cs arbitrary: n) (auto split: option.split)

lemma get_at_snoc: "get_at n (cs @ [c]) = (case get_at n cs of None \<Rightarrow> None | Some m \<Rightarrow> child_of m c)"
  by (auto simp: get_at_append split: option.split)

lemma get_modify_below:
  "get_at (modify_at ps f n) (ps @ rs) = (case get_at n ps of None \<Rightarrow> None | Some m \<Rightarrow> get_at (f m) rs)"
  by (induction ps arbitrary: n) (auto split: option.split dest: child_of_children)

lemma get_modify_above:
  "get_at (modify_at (cs @ d # ds) f n) cs = map_option (modify_at (d # ds) f) (get_at n cs)"
proof (induction cs arbitrary: n)
  case (Cons c cs)
  then show ?case by (cases "child_of n c") (auto dest: child_of_children)
qed simp

lemma get_modify_other: "\<not> prefix ps cs \<Longrightarrow> \<not> prefix cs ps \<Longrightarrow> get_at (modify_at ps f n) cs = get_at n cs"
proof (induction ps arbitrary: cs n)
  case (Cons p ps)
  then show ?case by (cases cs) (auto split: option.split dest: child_of_children)
qed simp

lemma modify_at_cong: "(\<And>m. get_at n ps = Some m \<Longrightarrow> f m = g m) \<Longrightarrow> modify_at ps f n = modify_at ps g n"
  by (induction ps arbitrary: n) (auto split: option.split)

lemma modify_at_inode: "ps \<noteq> [] \<Longrightarrow> n_inode (modify_at ps f n) = n_inode n"
  by (cases ps) (auto split: option.split)

lemma view_modify:
  "view (modify_at ps f n) cs =
     (if prefix ps cs then (case get_at n ps of None \<Rightarrow> None | Some m \<Rightarrow> view (f m) (drop (length ps) cs)) else view n cs)"
proof -
  consider rs where "cs = ps @ rs" | d ds where "ps = cs @ d # ds" | "\<not> prefix ps cs" "\<not> prefix cs ps"
    by (metis list.exhaust prefixE prefix_def append_Nil2)
  then show ?thesis
  proof cases
    case 1
    then show ?thesis by (auto simp: view_def get_modify_below split: option.split)
  next
    case 2
    have "n_inode (modify_at (d # ds) f x) = n_inode x" for x by (rule modify_at_inode) simp
    then show ?thesis using 2 by (simp add: view_def get_modify_above option.map_comp comp_def del: modify_at.simps)
  next
    case 3
    then show ?thesis by (simp add: view_def get_modify_other)
  qed
qed

lemma view_Nil [simp]: "view n [] = Some (n_inode n)"
  by (simp add: view_def)

lemma view_Cons: "view n (c # cs) = (case child_of n c of None \<Rightarrow> None | Some m \<Rightarrow> view m cs)"
  by (simp add: view_def split: option.split)

lemma view_append: "get_at n ps = Some m \<Longrightarrow> view n (ps @ cs) = view m cs"
  by (simp add: view_def get_at_append)

lemma view_here: "get_at n ps = Some m \<Longrightarrow> view n ps = Some (n_inode m)"
  by (simp add: view_def)

lemma view_absent: "get_at n ps = None \<Longrightarrow> view n (ps @ cs) = None"
  by (simp add: view_def get_at_append)

lemma view_leaf: "view (TNode i None) cs = (if cs = [] then Some i else None)"
  "view (TNode i (Some [])) cs = (if cs = [] then Some i else None)"
  by (cases cs; simp add: view_Cons)+

lemma view_inode_at:
  "view (modify_at ps (on_inode f) n) cs = (if cs = ps then map_option f (view n cs) else view n cs)"
proof (cases "prefix ps cs")
  case True
  then obtain rs where [simp]: "cs = ps @ rs" by (auto simp: prefix_def)
  show ?thesis
    by (cases rs; cases "get_at n ps") (auto simp: view_modify view_Cons view_append view_here view_absent view_absent [of _ _ "[]", simplified])
qed (auto simp: view_modify)

lemma view_put_child:
  assumes "get_at n ps = Some p" "n_children p \<noteq> None"
  shows "view (modify_at ps (put_child c m) n) cs =
    (if prefix (ps @ [c]) cs then view m (drop (Suc (length ps)) cs) else view n cs)"
proof (cases "prefix ps cs")
  case True
  then obtain rs where [simp]: "cs = ps @ rs" by (auto simp: prefix_def)
  show ?thesis using assms by (cases rs) (auto simp: view_modify view_Cons view_append view_here)
qed (use assms in \<open>auto simp: view_modify prefix_def\<close>)

lemma view_del_child:
  assumes "get_at n ps = Some p"
  shows "view (modify_at ps (del_child c) n) cs = (if prefix (ps @ [c]) cs then None else view n cs)"
proof (cases "prefix ps cs")
  case True
  then obtain rs where [simp]: "cs = ps @ rs" by (auto simp: prefix_def)
  show ?thesis using assms by (cases rs) (auto simp: view_modify view_Cons view_append view_here)
qed (use assms in \<open>auto simp: view_modify prefix_def\<close>)

section \<open>Well-formed nodes\<close>

text \<open>
  An inode is of one kind: the mode bits say so, a file has a body and nothing else does, only a link
  has a target, and the link count is the kind's.
\<close>

definition inode_wf :: "Inode \<Rightarrow> bool" where
  "inode_wf i \<longleftrightarrow>
     (in_Kind i = EntryDir \<longleftrightarrow> bit (in_Mode i) 31) \<and>
     (in_Kind i = EntrySymlink \<longleftrightarrow> \<not> bit (in_Mode i) 31 \<and> bit (in_Mode i) 27) \<and>
     (in_Kind i = EntryFile \<longleftrightarrow> in_Body i \<noteq> None) \<and>
     (\<forall>b. in_Body i = Some b \<longrightarrow> body_wf b) \<and>
     in_Nlink i = (if in_Kind i = EntryDir then 2 else 1) \<and>
     (in_Kind i \<noteq> EntrySymlink \<longrightarrow> in_LinkTarget i = [])"

text \<open>A directory has a children map with distinct, valid names; nothing else has one.\<close>

definition node_ok :: "tnode \<Rightarrow> bool" where
  "node_ok n \<longleftrightarrow>
     inode_wf (n_inode n) \<and> (IsDir (n_inode n) \<longleftrightarrow> n_children n \<noteq> None) \<and>
     (\<forall>kids. n_children n = Some kids \<longrightarrow> distinct (map fst kids) \<and> list_all valid_name (map fst kids))"

definition node_wf :: "tnode \<Rightarrow> bool" where
  "node_wf n \<longleftrightarrow> (\<forall>cs m. get_at n cs = Some m \<longrightarrow> node_ok m)"

lemma bit_Mode: "bit ModeDir k \<longleftrightarrow> k = 31" "bit ModeSymlink k \<longleftrightarrow> k = 27"
  unfolding ModeDir_def ModeSymlink_def by (auto simp: bit_push_bit_iff bit_1_iff simp del: push_bit_of_1)

lemma mode_bits [simp]:
  "\<not> bit ModePerm 31" "\<not> bit ModePerm 27" "\<not> bit (0x1FF :: file_mode) 31" "\<not> bit (0x1FF :: file_mode) 27"
  by (simp_all add: ModePerm_def)

lemma mask_bit: "m AND ModeDir \<noteq> 0 \<longleftrightarrow> bit m 31" "m AND ModeSymlink \<noteq> 0 \<longleftrightarrow> bit m 27"
  unfolding bit_eq_iff [of "m AND ModeDir" 0] bit_eq_iff [of "m AND ModeSymlink" 0]
  by (auto simp: bit_and_iff bit_Mode)

lemma info_IsDir_bit: "info_IsDir info \<longleftrightarrow> bit (hi_mode info) 31"
  by (simp add: info_IsDir_def mask_bit)

lemma new_inode_wf [simp]:
  "inode_wf (dir_inode i mode now)" "body_wf b \<Longrightarrow> inode_wf (file_inode i mode now b)" "inode_wf (link_inode i now target)"
  by (simp_all add: inode_wf_def dir_inode_def file_inode_def link_inode_def bit_simps bit_Mode)

lemma Chmod_inode_wf: "inode_wf i \<Longrightarrow> inode_wf (i\<lparr>in_Mode := in_Mode i AND NOT ModePerm OR mode AND ModePerm\<rparr>)"
  by (simp add: inode_wf_def bit_simps)

lemma ModTime_inode_wf: "inode_wf (i\<lparr>in_ModTime := m\<rparr>) = inode_wf i"
  by (simp add: inode_wf_def)

lemma NewRealFileBody_wf: "body_wf (NewRealFileBody hp sz)"
  by (simp add: NewRealFileBody_def NewEmptyFileBody_def body_wf_def real_extent_def x_end_def)

lemma updateHostInode_wf: "inode_wf (updateHostInode os info hp i)" if "in_Kind i = EntrySymlink \<or> in_LinkTarget i = []"
  using that
  by (auto simp: updateHostInode_def inode_wf_def Let_def info_IsDir_bit mask_bit NewRealFileBody_wf split: option.split)

lemma updateHostInode_ID [simp]: "in_ID (updateHostInode os info hp i) = in_ID i"
  by (simp add: updateHostInode_def Let_def split: option.split)

lemma node_wf_root: "node_wf n \<Longrightarrow> node_ok n"
  by (auto simp: node_wf_def dest: spec [where x = "[]"])

lemma node_wf_get:
  assumes "node_wf n" "get_at n cs = Some m"
  shows "node_wf m"
proof -
  have "get_at n (cs @ ds) = get_at m ds" for ds using assms(2) by (simp add: get_at_append)
  then show ?thesis using assms(1) unfolding node_wf_def by metis
qed

lemma node_wf_child: "node_wf n \<Longrightarrow> child_of n c = Some m \<Longrightarrow> node_wf m"
  using node_wf_get [of n "[c]" m] by simp

lemma node_wf_iff: "node_wf n \<longleftrightarrow> node_ok n \<and> (\<forall>c m. child_of n c = Some m \<longrightarrow> node_wf m)"
proof
  assume n: "node_ok n \<and> (\<forall>c m. child_of n c = Some m \<longrightarrow> node_wf m)"
  have "node_ok m" if "get_at n cs = Some m" for cs m
    using that n by (cases cs) (auto simp: node_wf_def split: option.splits)
  then show "node_wf n" by (auto simp: node_wf_def)
qed (auto intro: node_wf_root node_wf_child)

lemma node_wf_leaf:
  "inode_wf i \<Longrightarrow> \<not> IsDir i \<Longrightarrow> node_wf (TNode i None)" "inode_wf i \<Longrightarrow> IsDir i \<Longrightarrow> node_wf (TNode i (Some []))"
  by (subst node_wf_iff; simp add: node_ok_def)+

lemma node_ok_put: "node_ok n \<Longrightarrow> valid_name c \<Longrightarrow> node_ok (put_child c m n)"
  by (auto simp: node_ok_def put_child_def keys_alist_put)

lemma node_ok_del: "node_ok n \<Longrightarrow> node_ok (del_child c n)"
  by (auto simp: node_ok_def del_child_def list_all_iff set_alist_del) force

lemma node_wf_put: "node_wf n \<Longrightarrow> node_wf m \<Longrightarrow> valid_name c \<Longrightarrow> node_wf (put_child c m n)"
  by (subst node_wf_iff) (auto simp: node_wf_root node_ok_put split: if_splits dest: node_wf_child)

lemma node_wf_del: "node_wf n \<Longrightarrow> node_wf (del_child c n)"
  by (subst node_wf_iff) (auto simp: node_wf_root node_ok_del split: if_splits dest: node_wf_child)

lemma node_wf_on_inode:
  "node_wf n \<Longrightarrow> inode_wf (f (n_inode n)) \<Longrightarrow> in_Kind (f (n_inode n)) = in_Kind (n_inode n) \<Longrightarrow> node_wf (on_inode f n)"
  by (subst node_wf_iff) (auto simp: node_wf_child node_ok_def IsDir_def dest!: node_wf_root)

lemma node_wf_modify:
  "node_wf n \<Longrightarrow> (\<And>m. get_at n ps = Some m \<Longrightarrow> node_wf (f m)) \<Longrightarrow> node_wf (modify_at ps f n)"
proof (induction ps arbitrary: n)
  case (Cons p ps)
  show ?case
  proof (cases "child_of n p")
    case (Some m)
    obtain kids where "n_children n = Some kids" "map_of kids p = Some m"
      using Some by (auto simp: child_of_def split: option.splits)
    then have "valid_name p"
      using node_wf_root [OF Cons.prems(1)] by (force simp: node_ok_def list_all_iff dest: map_of_SomeD)
    then show ?thesis
      using Cons.IH [of m] Cons.prems Some by (simp add: node_wf_put node_wf_child)
  qed (use Cons.prems in simp)
qed simp

end
