(* ===== verification/Vfs_Wf.thy ===== *)
theory Vfs_Wf imports
  Vfs_Nodes
begin

text \<open>
  Every tree the operations build is well formed, whatever the host does: nodes are of one kind, the
  root is a directory, and no two inodes share an identifier. Only \<^verbatim>\<open>Rename\<close> can panic.
\<close>

section \<open>Well-formed trees\<close>

fun inode_at :: "tree \<Rightarrow> noderef \<Rightarrow> Inode option" where
  "inode_at t (Mem cs) = view (tr_root t) cs"
| "inode_at t (HostN k) = map_of (tr_hostNodes t) k"

definition ids_ok :: "tree \<Rightarrow> bool" where
  "ids_ok t \<longleftrightarrow>
     (\<forall>r i. inode_at t r = Some i \<longrightarrow> in_ID i \<le> tr_alloc t) \<and>
     (\<forall>r s i j. inode_at t r = Some i \<longrightarrow> inode_at t s = Some j \<longrightarrow> in_ID i = in_ID j \<longrightarrow> r = s)"

definition tree_ok :: "tree \<Rightarrow> bool" where
  "tree_ok t \<longleftrightarrow>
     node_wf (tr_root t) \<and> IsDir (n_inode (tr_root t)) \<and>
     (\<forall>k i. map_of (tr_hostNodes t) k = Some i \<longrightarrow> inode_wf i) \<and> ids_ok t"

lemma inode_at_other_fields [simp]:
  "inode_at (t\<lparr>tr_store := x\<rparr>) r = inode_at t r" "inode_at (t\<lparr>tr_whiteouts := w\<rparr>) r = inode_at t r"
  "inode_at (t\<lparr>tr_subs := s\<rparr>) r = inode_at t r" "inode_at (t\<lparr>tr_alloc := a\<rparr>) r = inode_at t r"
  by (cases r; simp)+

lemma tree_ok_other_fields [simp]:
  "tree_ok (t\<lparr>tr_store := x\<rparr>) = tree_ok t" "tree_ok (t\<lparr>tr_whiteouts := w\<rparr>) = tree_ok t"
  "tree_ok (t\<lparr>tr_subs := s\<rparr>) = tree_ok t" "tree_ok (notify ev t) = tree_ok t"
  by (simp_all add: tree_ok_def ids_ok_def notify_def)

text \<open>
  Identifiers stay distinct if every inode of the new tree comes from one of the old tree, different
  ones from different ones, except for at most one fresh inode.
\<close>

lemma ids_ok_move:
  assumes ok: "ids_ok t" and alloc: "tr_alloc t \<le> tr_alloc t'"
    and old: "\<And>r i. inode_at t' r = Some i \<Longrightarrow> r \<notin> F \<Longrightarrow> \<exists>j. inode_at t (g r) = Some j \<and> in_ID j = in_ID i"
    and inj: "\<And>r s. inode_at t' r \<noteq> None \<Longrightarrow> inode_at t' s \<noteq> None \<Longrightarrow> r \<notin> F \<Longrightarrow> s \<notin> F \<Longrightarrow> g r = g s \<Longrightarrow> r = s"
    and new: "\<And>r i. inode_at t' r = Some i \<Longrightarrow> r \<in> F \<Longrightarrow> tr_alloc t < in_ID i \<and> in_ID i \<le> tr_alloc t'"
    and one: "F \<subseteq> {r\<^sub>0}"
  shows "ids_ok t'"
proof -
  have old_le: "in_ID i \<le> tr_alloc t" if "inode_at t' r = Some i" "r \<notin> F" for r i
    using old [OF that] ok unfolding ids_ok_def by metis
  have bound: "in_ID i \<le> tr_alloc t'" if "inode_at t' r = Some i" for r i
    using old_le [OF that] new [OF that] alloc by fastforce
  have "r = s" if r: "inode_at t' r = Some i" and s: "inode_at t' s = Some j" and eq: "in_ID i = in_ID j" for r s i j
  proof (cases "r \<in> F")
    case True
    then have "s \<in> F" using new [OF r] old_le [OF s] eq by fastforce
    then show ?thesis using True one by blast
  next
    case False
    then have F: "s \<notin> F" using new [OF s] old_le [OF r] eq by fastforce
    obtain i' j' where "inode_at t (g r) = Some i'" "inode_at t (g s) = Some j'" "in_ID i' = in_ID j'"
      using old [OF r False] old [OF s F] eq by auto
    then have "g r = g s" using ok by (auto simp: ids_ok_def)
    then show ?thesis using inj [of r s] r s False F by simp
  qed
  then show ?thesis using bound unfolding ids_ok_def by blast
qed

lemmas ids_ok_keep = ids_ok_move [where F = "{}" and g = "\<lambda>r. r", simplified]

text \<open>The primitives.\<close>

lemma node_wf_at: "tree_ok t \<Longrightarrow> get_at (tr_root t) cs = Some n \<Longrightarrow> node_wf n"
  using node_wf_get by (auto simp: tree_ok_def)

lemma node_ok_at: "tree_ok t \<Longrightarrow> get_at (tr_root t) cs = Some n \<Longrightarrow> node_ok n"
  using node_wf_at node_wf_root by blast

lemma inode_at_on_inode: "inode_at (on_node r (on_inode f) t) s = (if s = r then map_option f (inode_at t s) else inode_at t s)"
  by (cases r; cases s) (auto simp: on_node_def view_inode_at on_inode_def split: option.split)

lemma on_node_sel [simp]:
  "tr_alloc (on_node r f t) = tr_alloc t" "tr_store (on_node r f t) = tr_store t" "tr_hostRoot (on_node r f t) = tr_hostRoot t"
  "tr_whiteouts (on_node r f t) = tr_whiteouts t" "tr_chunkSize (on_node r f t) = tr_chunkSize t"
  "tr_subs (on_node r f t) = tr_subs t"
  "tr_root (on_node (Mem cs) f t) = modify_at cs f (tr_root t)" "tr_hostNodes (on_node (Mem cs) f t) = tr_hostNodes t"
  "tr_root (on_node (HostN k) f t) = tr_root t"
  by (simp_all add: on_node_def split: noderef.split option.split)

lemma tree_ok_on_inode:
  assumes ok: "tree_ok t" and f: "\<And>i. inode_wf i \<Longrightarrow> inode_wf (f i)" "\<And>i. in_Kind (f i) = in_Kind i" "\<And>i. in_ID (f i) = in_ID i"
  shows "tree_ok (on_node r (on_inode f) t)"
proof -
  have ids: "ids_ok (on_node r (on_inode f) t)"
    by (rule ids_ok_keep) (use ok f in \<open>auto simp: tree_ok_def inode_at_on_inode split: if_splits\<close>)
  show ?thesis
  proof (cases r)
    case (Mem cs)
    have "node_wf (modify_at cs (on_inode f) (tr_root t))"
      using ok node_wf_at [OF ok] f(1,2)
      by (intro node_wf_modify node_wf_on_inode) (auto simp: tree_ok_def node_ok_def dest: node_ok_at [OF ok])
    moreover have "IsDir (n_inode (modify_at cs (on_inode f) (tr_root t)))"
      using ok f(2) by (cases cs) (auto simp: tree_ok_def IsDir_def split: option.split)
    ultimately show ?thesis using ids ok by (simp add: tree_ok_def Mem)
  next
    case (HostN k)
    then show ?thesis
      using ids ok f(1) by (auto simp: tree_ok_def on_node_def on_inode_def split: option.splits if_splits)
  qed
qed

lemma tree_ok_set_modTime: "tree_ok t \<Longrightarrow> tree_ok (set_modTime r now t)"
  unfolding set_modTime_def by (rule tree_ok_on_inode) (auto simp: ModTime_inode_wf)

lemma root_dir_modify: "IsDir (n_inode n) \<Longrightarrow> IsDir (n_inode (modify_at cs (put_child c m) n))"
  "IsDir (n_inode n) \<Longrightarrow> IsDir (n_inode (modify_at cs (del_child c) n))"
  by (cases cs; auto split: option.split)+

lemma tree_ok_del:
  assumes ok: "tree_ok t" and p: "get_at (tr_root t) cs = Some p"
  shows "tree_ok (on_node (Mem cs) (del_child c) t)"
proof -
  let ?t = "on_node (Mem cs) (del_child c) t"
  have at: "inode_at ?t r = Some i \<Longrightarrow> inode_at t r = Some i" for r i
    by (cases r) (auto simp: view_del_child [OF p] split: if_splits)
  have "ids_ok ?t" by (rule ids_ok_keep) (use ok at in \<open>auto simp: tree_ok_def\<close>)
  moreover have "node_wf (modify_at cs (del_child c) (tr_root t))"
    using ok node_wf_at [OF ok] by (intro node_wf_modify node_wf_del) (auto simp: tree_ok_def)
  ultimately show ?thesis using ok by (simp add: tree_ok_def root_dir_modify)
qed

text \<open>A new leaf with the identifier just allocated.\<close>

lemma tree_ok_new_child:
  assumes ok: "tree_ok t" and p: "get_at (tr_root t) cs = Some p" "n_children p \<noteq> None" and c: "valid_name c"
    and i: "node_wf (TNode i kids)" "kids = None \<or> kids = Some []" "in_ID i = Suc (tr_alloc t)"
    and t': "tr_root t' = tr_root t" "tr_alloc t' = Suc (tr_alloc t)" "tr_hostNodes t' = tr_hostNodes t"
  shows "tree_ok (on_node (Mem cs) (put_child c (TNode i kids)) t')"
proof -
  let ?t = "on_node (Mem cs) (put_child c (TNode i kids)) t'"
  have leaf: "view (TNode i kids) ds = (if ds = [] then Some i else None)" for ds
    using i(2) view_leaf by auto
  have at: "r = Mem (cs @ [c]) \<and> x = i \<or> r \<noteq> Mem (cs @ [c]) \<and> inode_at t r = Some x" if "inode_at ?t r = Some x" for r x
    using that by (cases r) (auto simp: t' view_put_child [OF p] leaf prefix_def split: if_splits)
  have "ids_ok ?t"
    by (rule ids_ok_move [of t ?t "{Mem (cs @ [c])}" "\<lambda>r. r"])
      (use ok at t' i(3) in \<open>auto simp: tree_ok_def view_put_child [OF p] leaf\<close>)
  moreover have "node_wf (modify_at cs (put_child c (TNode i kids)) (tr_root t))"
    using ok node_wf_at [OF ok] i(1) c by (intro node_wf_modify node_wf_put) (auto simp: tree_ok_def)
  ultimately show ?thesis using ok by (simp add: tree_ok_def t' root_dir_modify)
qed

text \<open>Moving a subtree.\<close>

definition moved_to :: "string list \<Rightarrow> string list \<Rightarrow> noderef \<Rightarrow> noderef" where
  "moved_to old new r = (case r of Mem cs \<Rightarrow> if prefix new cs then Mem (old @ drop (length new) cs) else r | HostN k \<Rightarrow> r)"

lemma moved_to_Mem:
  assumes eq: "moved_to old new (Mem cs) = moved_to old new (Mem cs')"
    and "\<not> prefix old cs \<or> prefix new cs" "\<not> prefix old cs' \<or> prefix new cs'"
  shows "cs = cs'"
proof -
  have m: "moved_to old new (Mem ds) = Mem (if prefix new ds then old @ drop (length new) ds else ds)" for ds
    by (simp add: moved_to_def)
  have eq': "(if prefix new cs then old @ drop (length new) cs else cs) = (if prefix new cs' then old @ drop (length new) cs' else cs')"
    using eq by (simp only: m noderef.inject)
  show ?thesis
  proof (cases "prefix new cs"; cases "prefix new cs'")
    assume "prefix new cs" "prefix new cs'"
    then obtain x y where "cs = new @ x" "cs' = new @ y" by (auto simp: prefix_def)
    then show ?thesis using eq' by simp
  next
    assume new: "prefix new cs" "\<not> prefix new cs'"
    then have "cs' = old @ drop (length new) cs" using eq' by simp
    then have "prefix old cs'" by (rule prefixI)
    then show ?thesis using assms(3) new by simp
  next
    assume new: "\<not> prefix new cs" "prefix new cs'"
    then have "cs = old @ drop (length new) cs'" using eq' by simp
    then have "prefix old cs" by (rule prefixI)
    then show ?thesis using assms(2) new by simp
  qed (use eq' in simp)
qed

lemma moved_to_inj:
  assumes "moved_to old new r = moved_to old new r'"
    and "\<And>cs. r = Mem cs \<Longrightarrow> \<not> prefix old cs \<or> prefix new cs" "\<And>cs. r' = Mem cs \<Longrightarrow> \<not> prefix old cs \<or> prefix new cs"
  shows "r = r'"
proof (cases r)
  case (Mem cs)
  then obtain cs' where "r' = Mem cs'" using assms(1) by (cases r') (auto simp: moved_to_def split: if_splits)
  with Mem assms moved_to_Mem show ?thesis by blast
next
  case (HostN k)
  then show ?thesis using assms(1) by (cases r') (auto simp: moved_to_def split: if_splits)
qed

lemma view_move:
  assumes s: "get_at n ss = Some sp" "child_of sp s = Some src"
    and d: "get_at n ds = Some dp" "n_children dp \<noteq> None"
  shows "view (modify_at ds (put_child d src) (modify_at ss (del_child s) n)) cs =
    (if prefix (ss @ [s]) ds then (if prefix (ss @ [s]) cs then None else view n cs)
     else if prefix (ds @ [d]) cs then view src (drop (Suc (length ds)) cs)
     else if prefix (ss @ [s]) cs then None else view n cs)"
proof (cases "prefix (ss @ [s]) ds")
  case True
  then have none: "get_at (modify_at ss (del_child s) n) ds = None"
    using view_del_child [OF s(1), of s ds] by (auto simp: view_def)
  then show ?thesis
    using True view_absent [OF none]
    by (auto simp: view_modify [of ds] view_del_child [OF s(1)] prefix_def)
next
  case False
  have "\<exists>dp'. get_at (modify_at ss (del_child s) n) ds = Some dp' \<and> n_children dp' \<noteq> None"
  proof -
    consider rs where "ds = ss @ rs" | c cs where "ss = ds @ c # cs" | "\<not> prefix ss ds" "\<not> prefix ds ss"
      by (metis list.exhaust prefixE prefix_def append_Nil2)
    then show ?thesis
    proof cases
      case 1
      have "get_at (modify_at ss (del_child s) n) ds = get_at (del_child s sp) rs"
        using 1 s(1) by (simp add: get_modify_below)
      moreover have "get_at sp rs = Some dp" using 1 s(1) d(1) by (simp add: get_at_append)
      ultimately show ?thesis using 1 False d(2) node_parts(5) [of s sp] by (cases rs) (auto simp del: node_parts)
    next
      case 2
      then show ?thesis
        using d by (cases "child_of dp c") (auto simp: get_modify_above put_child_def)
    next
      case 3
      then show ?thesis using d by (simp add: get_modify_other)
    qed
  qed
  then obtain dp' where "get_at (modify_at ss (del_child s) n) ds = Some dp'" "n_children dp' \<noteq> None" by blast
  from view_put_child [OF this] show ?thesis using False by (simp add: view_del_child [OF s(1)])
qed

text \<open>The identifiers after a move, from what the move does to the view.\<close>

lemma ids_ok_moved:
  assumes ok: "ids_ok t" and alloc: "tr_alloc t' = tr_alloc t" and host: "\<And>k. inode_at t' (HostN k) = inode_at t (HostN k)"
    and out: "\<And>cs. \<not> prefix new cs \<Longrightarrow> inode_at t' (Mem cs) = (if prefix old cs then None else inode_at t (Mem cs))"
    and moved: "\<And>rs. inode_at t' (Mem (new @ rs)) = inode_at t (Mem (old @ rs))"
  shows "ids_ok t'"
proof (rule ids_ok_move [OF ok])
  fix r i assume r: "inode_at t' r = Some i"
  show "\<exists>j. inode_at t (moved_to old new r) = Some j \<and> in_ID j = in_ID i"
  proof (cases r)
    case (Mem cs)
    show ?thesis
    proof (cases "prefix new cs")
      case True
      then obtain rs where "cs = new @ rs" by (rule prefixE)
      then have "inode_at t (moved_to old new r) = Some i" using r moved [of rs] Mem by (simp add: moved_to_def)
      then show ?thesis by blast
    next
      case False
      then have "inode_at t (moved_to old new r) = Some i"
        using r out [OF False] Mem by (simp add: moved_to_def split: if_splits)
      then show ?thesis by blast
    qed
  qed (use r host in \<open>simp add: moved_to_def\<close>)
next
  fix r s assume at: "inode_at t' r \<noteq> None" "inode_at t' s \<noteq> None" and eq: "moved_to old new r = moved_to old new s"
  have "\<not> prefix old cs \<or> prefix new cs" if "inode_at t' (Mem cs) \<noteq> None" for cs
    using that out [of cs] by (cases "prefix new cs") (auto simp del: inode_at.simps split: if_splits)
  with at moved_to_inj [OF eq] show "r = s" by blast
qed (use alloc in auto)

lemma tree_ok_move:
  assumes ok: "tree_ok t" and s: "get_at (tr_root t) ss = Some sp" "child_of sp s = Some src"
    and d: "get_at (tr_root t) ds = Some dp" "n_children dp \<noteq> None" "child_of dp d = None" and v: "valid_name d"
  shows "tree_ok (on_node (Mem ds) (put_child d src) (on_node (Mem ss) (del_child s) t))" (is "tree_ok ?t")
proof -
  have src: "view src cs = view (tr_root t) (ss @ s # cs)" for cs
    using s by (simp add: view_append view_Cons)
  note mv = view_move [OF s d(1,2)]
  have ids: "ids_ok t" using ok by (simp add: tree_ok_def)
  have "ids_ok ?t"
  proof (cases "prefix (ss @ [s]) ds")
    case True
    have "inode_at ?t r = Some i \<Longrightarrow> inode_at t r = Some i" for r i
      using True by (cases r) (auto simp: mv split: if_splits)
    then show ?thesis using ids_ok_keep [OF ids, of ?t] by simp
  next
    case False
    then show ?thesis
      by (intro ids_ok_moved [OF ids, of ?t "ds @ [d]" "ss @ [s]"]) (simp_all add: mv src)
  qed
  moreover have "node_wf (modify_at ss (del_child s) (tr_root t))"
    using tree_ok_del [OF ok s(1), of s] by (simp add: tree_ok_def)
  then have "node_wf (modify_at ds (put_child d src) (modify_at ss (del_child s) (tr_root t)))"
  proof (rule node_wf_modify)
    fix m assume "get_at (modify_at ss (del_child s) (tr_root t)) ds = Some m"
    with \<open>node_wf (modify_at ss (del_child s) (tr_root t))\<close> have "node_wf m" by (rule node_wf_get)
    then show "node_wf (put_child d src m)" using node_wf_child [OF node_wf_at [OF ok s(1)] s(2)] v by (rule node_wf_put)
  qed
  ultimately show ?thesis using ok by (simp add: tree_ok_def root_dir_modify)
qed

section \<open>Lookups\<close>

text \<open>A lookup may only add and refresh synthesized host nodes.\<close>

definition peek :: "tree \<Rightarrow> tree \<Rightarrow> bool" where
  "peek t t' \<longleftrightarrow> t' = t\<lparr>tr_hostNodes := tr_hostNodes t', tr_alloc := tr_alloc t'\<rparr>"

lemma peek_refl [simp]: "peek t t"
  by (simp add: peek_def)

lemma peek_trans: "peek t t' \<Longrightarrow> peek t' t'' \<Longrightarrow> peek t t''"
  unfolding peek_def by (cases t; cases t'; cases t'') simp

lemma peek_sel:
  assumes "peek t t'"
  shows "tr_root t' = tr_root t" "tr_store t' = tr_store t" "tr_hostRoot t' = tr_hostRoot t"
    "tr_whiteouts t' = tr_whiteouts t" "tr_chunkSize t' = tr_chunkSize t" "tr_subs t' = tr_subs t"
  using assms unfolding peek_def by (cases t; cases t'; simp)+

definition cursor_ok :: "tree \<Rightarrow> string list \<Rightarrow> noderef \<times> tnode \<Rightarrow> bool" where
  "cursor_ok t cs cur \<longleftrightarrow>
     (case cur of
        (Mem ds, n) \<Rightarrow> ds = cs \<and> get_at (tr_root t) cs = Some n
      | (HostN k, n) \<Rightarrow> \<exists>i. n = TNode i None \<and> map_of (tr_hostNodes t) k = Some i)"

lemma cursor_ok_simps [simp]:
  "cursor_ok t cs (Mem ds, n) \<longleftrightarrow> ds = cs \<and> get_at (tr_root t) cs = Some n"
  "cursor_ok t cs (HostN k, n) \<longleftrightarrow> (\<exists>i. n = TNode i None \<and> map_of (tr_hostNodes t) k = Some i)"
  by (simp_all add: cursor_ok_def)

lemma cursor_child: "cursor_ok t cs (r, n) \<Longrightarrow> child_of n c = Some m \<Longrightarrow> r = Mem cs \<and> get_at (tr_root t) cs = Some n"
  by (cases r) auto

lemma tree_ok_host_put:
  assumes ok: "tree_ok t" and i: "inode_wf i"
    and t': "tr_root t' = tr_root t" "tr_hostNodes t' = alist_put k i (tr_hostNodes t)"
    and new: "(\<exists>j. map_of (tr_hostNodes t) k = Some j \<and> in_ID j = in_ID i \<and> tr_alloc t' = tr_alloc t) \<or>
      in_ID i = Suc (tr_alloc t) \<and> tr_alloc t' = Suc (tr_alloc t)"
  shows "tree_ok t'"
proof -
  have at: "inode_at t' r = (if r = HostN k then Some i else inode_at t r)" for r
    by (cases r) (auto simp: t')
  have ids: "ids_ok t" using ok by (simp add: tree_ok_def)
  have "ids_ok t'"
    using new
  proof
    assume "\<exists>j. map_of (tr_hostNodes t) k = Some j \<and> in_ID j = in_ID i \<and> tr_alloc t' = tr_alloc t"
    then obtain j where "inode_at t (HostN k) = Some j" "in_ID j = in_ID i" "tr_alloc t' = tr_alloc t" by auto
    then show ?thesis by (intro ids_ok_keep [OF ids]) (auto simp: at simp del: inode_at.simps split: if_splits)
  next
    assume a: "in_ID i = Suc (tr_alloc t) \<and> tr_alloc t' = Suc (tr_alloc t)"
    show ?thesis
      by (rule ids_ok_move [OF ids, of t' "{HostN k}" "\<lambda>r. r"])
        (use a in \<open>auto simp: at simp del: inode_at.simps split: if_splits\<close>)
  qed
  then show ?thesis using ok i by (auto simp: tree_ok_def t' split: if_splits)
qed

definition synth_ok :: "string \<Rightarrow> tree \<Rightarrow> (tree_error + noderef \<times> tnode) \<times> tree \<Rightarrow> bool" where
  "synth_ok p t rt \<longleftrightarrow> (case rt of (res, t') \<Rightarrow> tree_ok t' \<and> peek t t' \<and> res \<noteq> Inl PanicNilMap \<and>
    (\<forall>r n. res = Inr (r, n) \<longrightarrow> r = HostN p \<and> (\<exists>i. n = TNode i None \<and> map_of (tr_hostNodes t') p = Some i)))"

lemma synth_ok_Inl: "tree_ok t \<Longrightarrow> e \<noteq> PanicNilMap \<Longrightarrow> synth_ok p t (Inl e, t)"
  by (simp add: synth_ok_def)

lemma from_os_no_panic [simp]: "from_os err \<noteq> PanicNilMap"
  by (simp add: from_os_def split: os_error.split)

lemma synth_ok_update:
  assumes ok: "tree_ok t" and i: "map_of (tr_hostNodes t) p = Some i"
  shows "synth_ok p t (Inr (HostN p, TNode (updateHostInode os info hp i) None),
    t\<lparr>tr_hostNodes := alist_put p (updateHostInode os info hp i) (tr_hostNodes t)\<rparr>)" (is "synth_ok p t (_, ?t)")
proof -
  have "inode_wf i" using ok i by (auto simp: tree_ok_def)
  then have "tree_ok ?t"
    by (intro tree_ok_host_put [OF ok updateHostInode_wf, of i ?t p os info hp]) (use i in \<open>auto simp: inode_wf_def\<close>)
  then show ?thesis by (simp add: synth_ok_def peek_def)
qed

lemma synth_ok_new:
  assumes ok: "tree_ok t"
  shows "synth_ok p t (Inr (HostN p, TNode (updateHostInode os info hp (zero_inode (tr_alloc t + 1))) None),
    t\<lparr>tr_alloc := tr_alloc t + 1, tr_hostNodes := alist_put p (updateHostInode os info hp (zero_inode (tr_alloc t + 1))) (tr_hostNodes t)\<rparr>)"
    (is "synth_ok p t (_, ?t)")
proof -
  have "tree_ok ?t"
    by (intro tree_ok_host_put [OF ok updateHostInode_wf, of "zero_inode (tr_alloc t + 1)" ?t p os info hp])
      (auto simp: zero_inode_def)
  then show ?thesis by (simp add: synth_ok_def peek_def)
qed

lemma synthesize_ok:
  assumes ok: "tree_ok t"
  shows "synth_ok p t (synthesizeHostNodeLocked os p t)"
proof (cases "tr_hostRoot t = [] \<or> hostPath t p = []")
  case True
  then show ?thesis
    unfolding synthesizeHostNodeLocked_def Let_def
    by (cases "tr_hostRoot t = []") (simp_all add: synth_ok_Inl ok)
next
  case False
  show ?thesis
  proof (cases "os_Lstat os (hostPath t p)")
    case (Inl err)
    then show ?thesis using False by (simp add: synthesizeHostNodeLocked_def Let_def synth_ok_Inl ok)
  next
    case (Inr info)
    show ?thesis
    proof (cases "map_of (tr_hostNodes t) p")
      case None
      then show ?thesis
        using synth_ok_new [OF ok, of p os info "hostPath t p"] False Inr
        by (simp add: synthesizeHostNodeLocked_def Let_def nextID_def)
    next
      case (Some i)
      then show ?thesis
        using synth_ok_update [OF ok Some, of os info "hostPath t p"] False Inr ok
        by (simp add: synthesizeHostNodeLocked_def Let_def) (simp add: synth_ok_def)
    qed
  qed
qed

lemma lookup_loop_ok:
  "tree_ok t \<Longrightarrow> cursor_ok t done cur \<Longrightarrow> lookup_loop os done parts cur t = (res, t') \<Longrightarrow>
    tree_ok t' \<and> peek t t' \<and> res \<noteq> Inl PanicNilMap \<and> (\<forall>cur'. res = Inr cur' \<longrightarrow> cursor_ok t' (done @ parts) cur')"
proof (induction os "done" parts cur t arbitrary: res t' rule: lookup_loop.induct)
  case (2 os "done" part parts r n t)
  show ?case
  proof (cases "IsDir (n_inode n)")
    case True
    show ?thesis
    proof (cases "child_of n part")
      case (Some m)
      have "cursor_ok t (done @ [part]) (Mem (done @ [part]), m)"
        using cursor_child [OF 2(4) Some] Some by (simp add: get_at_snoc)
      then show ?thesis using 2(2) [OF _ Some, of res t'] 2(3,5) True Some by simp
    next
      case None
      let ?pre = "''/'' @ join_slash (done @ [part])"
      obtain sr t1 where s: "synthesizeHostNodeLocked os ?pre t = (sr, t1)" by fastforce
      have so: "synth_ok ?pre t (sr, t1)" using synthesize_ok [OF 2(3), of ?pre os] s by simp
      show ?thesis
      proof (cases "isWhiteoutLocked t ?pre \<or> tr_hostRoot t = []")
        case True
        then show ?thesis using 2(3,5) None \<open>IsDir (n_inode n)\<close> by (auto simp: Let_def split: if_splits)
      next
        case False
        show ?thesis
        proof (cases sr)
          case (Inl e)
          then show ?thesis using 2(5) None \<open>IsDir (n_inode n)\<close> False s so by (auto simp: Let_def synth_ok_def)
        next
          case (Inr synth)
          have l: "lookup_loop os (done @ [part]) parts synth t1 = (res, t')"
            using 2(5) None \<open>IsDir (n_inode n)\<close> False s Inr by (simp add: Let_def)
          have c: "cursor_ok t1 (done @ [part]) synth" "tree_ok t1" "peek t t1" using so Inr by (cases synth; auto simp: synth_ok_def)+
          from 2(1) [OF _ None refl _ _ s [symmetric] Inr, of res t'] l c \<open>IsDir (n_inode n)\<close> False
          show ?thesis by (auto intro: peek_trans)
        qed
      qed
    qed
  qed (use 2(3,5) in auto)
qed auto

lemma lookup_ok:
  assumes ok: "tree_ok t" and l: "lookupLocked os p t = (res, t')"
  shows "tree_ok t' \<and> peek t t' \<and> res \<noteq> Inl PanicNilMap \<and>
    (\<forall>cur. res = Inr cur \<longrightarrow> (\<exists>cs. cleanPath p = Inr (render cs) \<and> path_ok cs \<and> cursor_ok t' cs cur))"
proof (cases rule: cleanPath_cases [of p])
  case (clean cs)
  then show ?thesis
    using lookup_loop_ok [OF ok, of "[]" "(Mem [], tr_root t)" os cs res t'] l ok
    by (cases "cs = []")
      (auto simp: lookupLocked_def splitNonEmpty_render path_ok_valid render_eq_root split: if_splits)
qed (use l ok in \<open>auto simp: lookupLocked_def\<close>)

section \<open>Creating\<close>

lemma clearWhiteout_sel [simp]:
  "tr_root (clearWhiteoutLocked p t) = tr_root t" "tr_alloc (clearWhiteoutLocked p t) = tr_alloc t"
  "tr_hostNodes (clearWhiteoutLocked p t) = tr_hostNodes t" "tr_store (clearWhiteoutLocked p t) = tr_store t"
  "tr_hostRoot (clearWhiteoutLocked p t) = tr_hostRoot t" "tr_subs (clearWhiteoutLocked p t) = tr_subs t"
  "tr_chunkSize (clearWhiteoutLocked p t) = tr_chunkSize t"
  by (simp_all add: clearWhiteoutLocked_def split: sum.split)

lemma notify_sel [simp]:
  "tr_root (notify ev t) = tr_root t" "tr_alloc (notify ev t) = tr_alloc t" "tr_hostNodes (notify ev t) = tr_hostNodes t"
  "tr_store (notify ev t) = tr_store t" "tr_hostRoot (notify ev t) = tr_hostRoot t"
  "tr_whiteouts (notify ev t) = tr_whiteouts t" "tr_chunkSize (notify ev t) = tr_chunkSize t"
  by (simp_all add: notify_def)

lemma dir_children: "tree_ok t \<Longrightarrow> get_at (tr_root t) cs = Some n \<Longrightarrow> IsDir (n_inode n) \<longleftrightarrow> n_children n \<noteq> None"
  using node_ok_at by (fastforce simp: node_ok_def)

lemma assign_new:
  assumes "tree_ok t" "get_at (tr_root t) cs = Some n" "IsDir (n_inode n)" "valid_name c"
    and "node_wf (TNode i kids)" "kids = None \<or> kids = Some []" "in_ID i = Suc (tr_alloc t)"
    and "tr_root t1 = tr_root t" "tr_alloc t1 = Suc (tr_alloc t)" "tr_hostNodes t1 = tr_hostNodes t"
  shows "assign_child (Mem cs) n c (TNode i kids) t1 = (Inr (), on_node (Mem cs) (put_child c (TNode i kids)) t1)"
    "tree_ok (on_node (Mem cs) (put_child c (TNode i kids)) t1)"
    "get_at (tr_root (on_node (Mem cs) (put_child c (TNode i kids)) t1)) (cs @ [c]) = Some (TNode i kids)"
proof -
  have kids: "n_children n \<noteq> None" using dir_children assms(1-3) by blast
  then show "assign_child (Mem cs) n c (TNode i kids) t1 = (Inr (), on_node (Mem cs) (put_child c (TNode i kids)) t1)"
    by (auto simp: assign_child_def)
  show "tree_ok (on_node (Mem cs) (put_child c (TNode i kids)) t1)"
    by (rule tree_ok_new_child [OF assms(1,2) kids assms(4-10)])
  show "get_at (tr_root (on_node (Mem cs) (put_child c (TNode i kids)) t1)) (cs @ [c]) = Some (TNode i kids)"
    using assms(2,8) kids by (simp add: get_modify_below)
qed

lemma hostDirAt_cases:
  obtains (none) "hostDirAtLocked os p t = (None, t)"
  | (dir) mode mtime where "hostDirAtLocked os p t =
      (Some (TNode (dir_inode (Suc (tr_alloc t)) mode mtime) (Some [])), t\<lparr>tr_alloc := Suc (tr_alloc t)\<rparr>)"
proof (cases "hostPath t p = []")
  case False
  show thesis
  proof (cases "os_Stat os (hostPath t p)")
    case (Inr info)
    then show thesis using False none dir by (cases "info_IsDir info") (auto simp: hostDirAtLocked_def nextID_def)
  qed (use False none in \<open>simp add: hostDirAtLocked_def\<close>)
qed (use none in \<open>simp add: hostDirAtLocked_def\<close>)

lemma dir_inode_simps [simp]: "IsDir (dir_inode i mode now)" "in_ID (dir_inode i mode now) = i"
  by (simp_all add: dir_inode_def IsDir_def)

lemma dir_node_wf [simp]: "node_wf (TNode (dir_inode i mode now) (Some []))"
  by (rule node_wf_leaf) simp_all

text \<open>What materializing and creating directories establish.\<close>

definition made :: "string list \<Rightarrow> (tree_error + string list \<times> tnode) \<times> tree \<Rightarrow> bool" where
  "made cs rt \<longleftrightarrow> (case rt of (res, t') \<Rightarrow> tree_ok t' \<and> res \<noteq> Inl PanicNilMap \<and>
     (\<forall>ds m. res = Inr (ds, m) \<longrightarrow> ds = cs \<and> get_at (tr_root t') cs = Some m \<and> IsDir (n_inode m)))"

lemma made_Inl: "tree_ok t \<Longrightarrow> e \<noteq> PanicNilMap \<Longrightarrow> made cs (Inl e, t)"
  by (simp add: made_def)

lemma materialize_loop_ok:
  "tree_ok t \<Longrightarrow> get_at (tr_root t) done = Some n \<Longrightarrow> list_all valid_name parts \<Longrightarrow>
    made (done @ parts) (materialize_loop os done parts n t)"
proof (induction os "done" parts n t rule: materialize_loop.induct)
  case (1 os "done" n t)
  then show ?case by (simp add: made_def)
next
  case (2 os "done" part parts n t)
  show ?case
  proof (cases "IsDir (n_inode n)")
    case dir: True
    show ?thesis
    proof (cases "child_of n part")
      case (Some m)
      then show ?thesis using 2(2) [OF _ Some] 2(3-5) dir by (simp add: get_at_snoc)
    next
      case None
      let ?pre = "''/'' @ join_slash (done @ [part])"
      show ?thesis
      proof (cases "isWhiteoutLocked t ?pre \<or> tr_hostRoot t = []")
        case True
        then show ?thesis using None dir 2(3) by (auto simp: Let_def made_Inl)
      next
        case False
        show ?thesis
        proof (cases rule: hostDirAt_cases [of os ?pre t])
          case none
          then show ?thesis using None dir 2(3) False by (simp add: Let_def made_Inl)
        next
          case (dir mode mtime)
          let ?i = "dir_inode (Suc (tr_alloc t)) mode mtime" and ?t1 = "t\<lparr>tr_alloc := Suc (tr_alloc t)\<rparr>"
          have v: "valid_name part" using 2(5) by simp
          note a = assign_new [OF 2(3,4) \<open>IsDir (n_inode n)\<close> v dir_node_wf, of "Suc (tr_alloc t)" mode mtime ?t1, simplified]
          show ?thesis
            using 2(1) [OF _ None refl _ _ dir [symmetric] refl a(1) [symmetric] refl] a 2(5) False None dir \<open>IsDir (n_inode n)\<close>
            by (simp add: Let_def)
        qed
      qed
    qed
  qed (use 2(3) in \<open>simp add: made_Inl\<close>)
qed

lemma materialize_ok:
  assumes "tree_ok t" "path_ok cs"
  shows "made cs (materializeDirLocked os (render cs) t)"
proof (cases "cs = []")
  case True
  then show ?thesis
    using assms cleanPath_render [of "[]"] by (simp add: materializeDirLocked_def made_def tree_ok_def)
next
  case False
  then show ?thesis
    using assms materialize_loop_ok [of t "[]" "tr_root t" cs os]
    by (simp add: materializeDirLocked_def cleanPath_render splitNonEmpty_render path_ok_valid render_eq_root)
qed

definition safe_step :: "(tree_error + 'a) \<times> tree \<Rightarrow> bool" where
  "safe_step rt \<longleftrightarrow> tree_ok (snd rt) \<and> fst rt \<noteq> Inl PanicNilMap"

lemma safe_step_simps [simp]:
  "safe_step (Inl e, t) \<longleftrightarrow> tree_ok t \<and> e \<noteq> PanicNilMap" "safe_step (Inr x, t) \<longleftrightarrow> tree_ok t"
  by (simp_all add: safe_step_def)

lemma made_Inr: "made cs (Inr (ds, m), t) \<longleftrightarrow> tree_ok t \<and> ds = cs \<and> get_at (tr_root t) cs = Some m \<and> IsDir (n_inode m)"
  by (auto simp: made_def)

lemma made_error: "made cs (Inl e, t) \<longleftrightarrow> tree_ok t \<and> e \<noteq> PanicNilMap"
  by (auto simp: made_def)

lemma child_after_modTime:
  "get_at (tr_root (set_modTime (Mem cs) now t)) (cs @ [c]) = get_at (tr_root t) (cs @ [c])"
  unfolding set_modTime_def on_node_sel get_modify_below by (simp add: get_at_snoc split: option.split)

text \<open>The new directory, by the loop of \<^verbatim>\<open>MkdirAll\<close>.\<close>

definition fresh_dir :: "vfs_env \<Rightarrow> file_mode \<Rightarrow> string list \<Rightarrow> string \<Rightarrow> tree \<Rightarrow> tree" where
  "fresh_dir env mode cs part t =
     (let pre = ''/'' @ join_slash (cs @ [part]); t1 = (clearWhiteoutLocked pre t)\<lparr>tr_alloc := Suc (tr_alloc t)\<rparr>
      in notify (change_event pre OpMkdir (ve_now env)) (set_modTime (Mem cs) (ve_now env)
           (on_node (Mem cs) (put_child part (TNode (dir_inode (Suc (tr_alloc t)) mode (ve_now env)) (Some []))) t1)))"

lemma fresh_dir_ok:
  assumes "tree_ok t" "get_at (tr_root t) cs = Some n" "IsDir (n_inode n)" "valid_name part"
  shows "tree_ok (fresh_dir env mode cs part t)"
    "get_at (tr_root (fresh_dir env mode cs part t)) (cs @ [part]) =
      Some (TNode (dir_inode (Suc (tr_alloc t)) mode (ve_now env)) (Some []))"
proof -
  note a = assign_new [OF assms dir_node_wf, of "Suc (tr_alloc t)" mode "ve_now env"
      "(clearWhiteoutLocked (''/'' @ join_slash (cs @ [part])) t)\<lparr>tr_alloc := Suc (tr_alloc t)\<rparr>", simplified]
  show "tree_ok (fresh_dir env mode cs part t)"
    using a(2) by (simp add: fresh_dir_def Let_def tree_ok_set_modTime)
  show "get_at (tr_root (fresh_dir env mode cs part t)) (cs @ [part]) =
      Some (TNode (dir_inode (Suc (tr_alloc t)) mode (ve_now env)) (Some []))"
    using a(3) by (simp add: fresh_dir_def Let_def child_after_modTime)
qed

lemma mkdirall_Some:
  "child_of n part = Some m \<Longrightarrow> mkdirall_loop env mode done (part # parts) n t =
     (if IsDir (n_inode m) then mkdirall_loop env mode (done @ [part]) parts m t else (Inl ErrNotDir, t))"
  by simp

lemma mkdirall_None:
  assumes "child_of n part = None" "n_children n \<noteq> None"
  shows "mkdirall_loop env mode done (part # parts) n t =
    (let pre = ''/'' @ join_slash (done @ [part]); newDir = TNode (dir_inode (Suc (tr_alloc t)) mode (ve_now env)) (Some []);
         fresh = mkdirall_loop env mode (done @ [part]) parts newDir (fresh_dir env mode done part t)
     in if tr_hostRoot t \<noteq> [] \<and> \<not> isWhiteoutLocked t pre then
          (case hostDirAtLocked (ve_os env) pre t of
             (Some hostDir, t1) \<Rightarrow> mkdirall_loop env mode (done @ [part]) parts hostDir (on_node (Mem done) (put_child part hostDir) t1)
           | (None, t1) \<Rightarrow> if hostHasNonDirLocked (ve_os env) pre t1 then (Inl ErrNotDir, t1) else fresh)
        else fresh)"
  using assms
  by (cases rule: hostDirAt_cases [of "ve_os env" "''/'' @ join_slash (done @ [part])" t])
    (auto simp: Let_def nextID_def assign_child_def fresh_dir_def)

lemma mkdirall_loop_ok:
  "tree_ok t \<Longrightarrow> get_at (tr_root t) done = Some n \<Longrightarrow> IsDir (n_inode n) \<Longrightarrow> list_all valid_name parts \<Longrightarrow>
    safe_step (mkdirall_loop env mode done parts n t)"
proof (induction parts arbitrary: "done" n t)
  case (Cons part parts)
  have v: "valid_name part" "list_all valid_name parts" using Cons.prems by simp_all
  show ?case
  proof (cases "child_of n part")
    case (Some m)
    then show ?thesis using Cons.prems Cons.IH [of t "done @ [part]" m] by (simp add: get_at_snoc)
  next
    case None
    have kids: "n_children n \<noteq> None" using dir_children Cons.prems(1-3) by blast
    let ?pre = "''/'' @ join_slash (done @ [part])"
    note f = fresh_dir_ok [OF Cons.prems(1-3) v(1), of env mode]
    have fresh: "safe_step (mkdirall_loop env mode (done @ [part]) parts
        (TNode (dir_inode (Suc (tr_alloc t)) mode (ve_now env)) (Some [])) (fresh_dir env mode done part t))"
      by (rule Cons.IH [OF f]) (use v in simp_all)
    show ?thesis
    proof (cases rule: hostDirAt_cases [of "ve_os env" ?pre t])
      case none
      then show ?thesis using fresh Cons.prems(1) unfolding mkdirall_None [OF None kids] by (simp add: Let_def)
    next
      case (dir mode' mtime)
      note a = assign_new [OF Cons.prems(1-3) v(1) dir_node_wf, of "Suc (tr_alloc t)" mode' mtime "t\<lparr>tr_alloc := Suc (tr_alloc t)\<rparr>", simplified]
      then show ?thesis
        using fresh dir Cons.IH [OF a(2), of "done @ [part]" "TNode (dir_inode (Suc (tr_alloc t)) mode' mtime) (Some [])"] v unfolding mkdirall_None [OF None kids] by (simp add: Let_def)
    qed
  qed
qed simp

lemma MkdirAll_ok: "tree_ok t \<Longrightarrow> safe_step (MkdirAll env p mode t)"
  by (cases rule: cleanPath_cases [of p])
    (auto simp: MkdirAll_def splitNonEmpty_render path_ok_valid tree_ok_def intro!: mkdirall_loop_ok)

end
