(* ===== verification/Vfs_Safe.thy ===== *)
theory Vfs_Safe imports
  Vfs_Wf
begin

text \<open>
  Type safety of the tree: every operation keeps a well-formed tree well formed and no operation but
  \<^verbatim>\<open>Rename\<close> panics. \<open>tree_op\<close> gathers the operations, \<open>run_op\<close> runs one and \<open>run_ops\<close> a sequence, each
  with a host and a clock of its own.
\<close>

section \<open>Each operation\<close>

lemma path_ok_snoc: "path_ok (cs @ [n]) \<Longrightarrow> path_ok cs \<and> valid_name n"
  using path_ok_butlast [of "cs @ [n]"] path_ok_valid [of "cs @ [n]"] by simp

lemma new_leaf_ok:
  assumes "made cs (Inr (cs', parent), t)" "valid_name name"
    and "node_wf (TNode i kids)" "kids = None \<or> kids = Some []" "in_ID i = Suc (tr_alloc t)"
    and "tr_root t1 = tr_root t" "tr_alloc t1 = Suc (tr_alloc t)" "tr_hostNodes t1 = tr_hostNodes t"
  shows "safe_step
    (case assign_child (Mem cs') parent name (TNode i kids) t1 of
       (Inl err, t) \<Rightarrow> (Inl err, t)
     | (Inr _, t) \<Rightarrow> (Inr (), notify ev (set_modTime (Mem cs') now t)))"
  using assign_new [OF _ _ _ assms(2-8), of cs parent] assms(1) by (simp add: made_Inr tree_ok_set_modTime)

lemma link_node_wf: "node_wf (TNode (link_inode i now target) None)"
  by (rule node_wf_leaf) (simp_all add: link_inode_def IsDir_def inode_wf_def bit_simps bit_Mode)

lemma file_node_wf: "body_wf b \<Longrightarrow> node_wf (TNode (file_inode i mode now b) None)"
  by (rule node_wf_leaf) (simp_all add: file_inode_def IsDir_def inode_wf_def bit_simps)

lemma new_inode_ID [simp]: "in_ID (link_inode i now target) = i" "in_ID (file_inode i mode now b) = i"
  by (simp_all add: link_inode_def file_inode_def)

text \<open>The common shape of \<^verbatim>\<open>Mkdir\<close> and \<^verbatim>\<open>Symlink\<close>: materialize the parent, refuse an existing entry, assign a new leaf.\<close>

lemma create_leaf_ok:
  assumes ok: "tree_ok t" and p: "path_ok (cs @ [name])"
    and leaf: "\<And>i. node_wf (TNode (mk i) kids)" "\<And>i. in_ID (mk i) = i" "kids = None \<or> kids = Some []"
  shows "safe_step
    (case materializeDirLocked os (render cs) t of
       (Inl err, t) \<Rightarrow> (Inl err, t)
     | (Inr (cs', parent), t) \<Rightarrow>
         if child_of parent name \<noteq> None then (Inl ErrExist, t)
         else case assign_child (Mem cs') parent name (TNode (mk (tr_alloc t + 1)) kids)
                ((clearWhiteoutLocked clean t)\<lparr>tr_alloc := tr_alloc t + 1\<rparr>) of
             (Inl err, t) \<Rightarrow> (Inl err, t)
           | (Inr _, t) \<Rightarrow> (Inr (), notify ev (set_modTime (Mem cs') now t)))"
proof -
  obtain res t1 where m: "materializeDirLocked os (render cs) t = (res, t1)" by fastforce
  have made: "made cs (res, t1)" using materialize_ok [OF ok, of cs os] path_ok_snoc [OF p] m by simp
  show ?thesis
  proof (cases res)
    case (Inl e)
    then show ?thesis using made m by (simp add: made_error)
  next
    case (Inr x)
    obtain cs' parent where x: "x = (cs', parent)" by fastforce
    have "safe_step
      (case assign_child (Mem cs') parent name (TNode (mk (tr_alloc t1 + 1)) kids) ((clearWhiteoutLocked clean t1)\<lparr>tr_alloc := tr_alloc t1 + 1\<rparr>) of
         (Inl err, t) \<Rightarrow> (Inl err, t)
       | (Inr _, t) \<Rightarrow> (Inr (), notify ev (set_modTime (Mem cs') now t)))"
      by (rule new_leaf_ok [of cs cs' parent t1]) (use made Inr x path_ok_snoc [OF p] leaf in auto)
    moreover have "tree_ok t1" using made Inr x by (simp add: made_Inr)
    ultimately show ?thesis using m Inr x by simp
  qed
qed

lemma Mkdir_ok:
  assumes ok: "tree_ok t"
  shows "safe_step (Mkdir env p mode t)"
proof (cases rule: splitPath_cases [of p])
  case bad
  then show ?thesis by (cases rule: cleanPath_cases [of p]) (simp_all add: Mkdir_def ok)
next
  case (parts cs name)
  show ?thesis
    unfolding Mkdir_def parts(1,3) Let_def nextID_def sum.case prod.case clearWhiteout_sel
    by (rule create_leaf_ok [OF ok parts(2)]) simp_all
qed

lemma Symlink_ok:
  assumes ok: "tree_ok t"
  shows "safe_step (Symlink env target p t)"
proof (cases rule: splitPath_cases [of p])
  case bad
  then show ?thesis by (cases rule: cleanPath_cases [of p]) (simp_all add: Symlink_def ok)
next
  case (parts cs name)
  show ?thesis
    unfolding Symlink_def parts(1,3) Let_def nextID_def sum.case prod.case clearWhiteout_sel
    by (rule create_leaf_ok [OF ok parts(2)]) (simp_all add: link_node_wf)
qed

text \<open>Bodies made from content tile the file, whatever the store does.\<close>

lemma chunk_loop_contig:
  assumes n: "0 < n"
  shows "contig 0 exs (int (min off (length content))) \<Longrightarrow> chunk_loop put content n off exs st = (Inr exs', st') \<Longrightarrow>
    contig 0 exs' (int (length content))"
proof (induction "length content - off" arbitrary: off exs st rule: less_induct)
  case less
  show ?case
  proof (cases "off < length content")
    case False
    then show ?thesis using less.prems n by (auto simp: chunk_loop.simps)
  next
    case True
    let ?stop = "min (off + n) (length content)"
    obtain h st1 where p: "put (take (?stop - off) (drop off content)) st = (Inr h, st1)"
      and l: "chunk_loop put content n (off + n) (exs @ [blob_extent (int off) (int (?stop - off)) h]) st1 = (Inr exs', st')"
      using less.prems(2) n True
      by (subst (asm) chunk_loop.simps) (auto simp: Let_def split: prod.splits sum.splits)
    have "contig 0 (exs @ [blob_extent (int off) (int (?stop - off)) h]) (int (min (off + n) (length content)))"
      using less.prems(1) True n by (auto simp: contig_append blob_extent_def x_end_def)
    from less.hyps [OF _ this l] True n show ?thesis by simp
  qed
qed

lemma makeFileBody_ok:
  assumes "makeFileBodyLocked env content t = (res, t')"
  shows "\<exists>st. t' = t\<lparr>tr_store := st\<rparr>" "res = Inr b \<Longrightarrow> body_wf b"
proof -
  show "\<exists>st. t' = t\<lparr>tr_store := st\<rparr>"
    using assms by (auto simp: makeFileBodyLocked_def split: if_splits prod.splits sum.splits option.splits intro: exI [of _ "tr_store t"])
  assume b: "res = Inr b"
  have blob: "body_wf (NewBlobFileBody h (int (length content)))" for h
    by (simp add: NewBlobFileBody_def NewEmptyFileBody_def body_wf_def blob_extent_def x_end_def)
  show "body_wf b"
  proof (cases "content = [] \<or> tr_chunkSize t \<le> 0")
    case True
    then show ?thesis
      using assms b blob
      by (auto simp: makeFileBodyLocked_def NewEmptyFileBody_def body_wf_def split: if_splits prod.splits sum.splits)
  next
    case False
    then obtain exs st where "chunk_loop (put_hash (ve_codec env) (ve_nanos env)) content (nat (tr_chunkSize t)) 0 [] (tr_store t) = (Inr exs, st)"
      "b = \<lparr>fb_size = int (length content), fb_extents = exs\<rparr>"
      using assms b by (auto simp: makeFileBodyLocked_def NewChunkedFileBody_def Let_def split: prod.splits sum.splits option.splits)
    then show ?thesis using chunk_loop_contig [of "nat (tr_chunkSize t)" "[]" 0 content] False by (auto simp: body_wf_def)
  qed
qed

lemma write_locked_ok:
  assumes ok: "tree_ok t" and p: "path_ok (cs @ [name])"
  shows "safe_step (write_locked env clean (render cs) name content mode t)"
proof -
  obtain res t1 where m: "materializeDirLocked (ve_os env) (render cs) t = (res, t1)" by fastforce
  have made: "made cs (res, t1)" using materialize_ok [OF ok, of cs "ve_os env"] path_ok_snoc [OF p] m by simp
  obtain br t2 where b: "makeFileBodyLocked env content t1 = (br, t2)" by fastforce
  obtain st where t2: "t2 = t1\<lparr>tr_store := st\<rparr>" using makeFileBody_ok(1) [OF b] ..
  show ?thesis
  proof (cases res)
    case (Inl e)
    then show ?thesis using made m by (simp add: write_locked_def made_error)
  next
    case (Inr x)
    obtain cs' parent where x: "x = (cs', parent)" by fastforce
    have t1: "tree_ok t1" "cs' = cs" "get_at (tr_root t1) cs = Some parent" using made Inr x by (simp_all add: made_Inr)
    show ?thesis
    proof (cases br)
      case (Inl e)
      then show ?thesis using m b t1 t2 Inr x by (simp add: write_locked_def)
    next
      case body: (Inr body)
      have wf: "body_wf body" using makeFileBody_ok(2) [OF b body] .
      let ?t3 = "clearWhiteoutLocked clean t2" and ?now = "ve_now env"
      have t3: "tree_ok ?t3" using t1(1) t2 by (simp add: clearWhiteoutLocked_def split: sum.split)
      show ?thesis
      proof (cases "child_of parent name")
        case None
        have "safe_step
          (case assign_child (Mem cs') parent name (TNode (file_inode (tr_alloc ?t3 + 1) mode ?now body) None) (?t3\<lparr>tr_alloc := tr_alloc ?t3 + 1\<rparr>) of
             (Inl err, t) \<Rightarrow> (Inl err, t)
           | (Inr _, t) \<Rightarrow> (Inr (), notify (change_event clean OpWrite ?now) (set_modTime (Mem cs') ?now t)))"
          by (rule new_leaf_ok [of cs cs' parent t1])
            (use made Inr x t2 path_ok_snoc [OF p] wf in \<open>auto simp: file_node_wf\<close>)
        then show ?thesis using m b Inr body x None by (simp add: write_locked_def nextID_def Let_def)
      next
        case (Some existing)
        have "tree_ok (on_node (Mem (cs @ [name])) (on_inode (\<lambda>i. i\<lparr>in_Body := Some body, in_ModTime := ?now\<rparr>)) ?t3)"
          if "IsFile (n_inode existing)"
        proof -
          let ?f = "\<lambda>i. if in_Kind i = EntryFile then i\<lparr>in_Body := Some body, in_ModTime := ?now\<rparr> else i"
          have at: "get_at (tr_root ?t3) (cs @ [name]) = Some existing"
            using t1(3) Some t2 by (simp add: get_at_snoc)
          have "modify_at (cs @ [name]) (on_inode (\<lambda>i. i\<lparr>in_Body := Some body, in_ModTime := ?now\<rparr>)) (tr_root ?t3) =
              modify_at (cs @ [name]) (on_inode ?f) (tr_root ?t3)"
            by (rule modify_at_cong) (use at that in \<open>auto simp: on_inode_def IsFile_def\<close>)
          moreover have "tree_ok (on_node (Mem (cs @ [name])) (on_inode ?f) ?t3)"
            by (rule tree_ok_on_inode [OF t3]) (use wf in \<open>auto simp: inode_wf_def\<close>)
          ultimately show ?thesis by (simp add: on_node_def)
        qed
        then show ?thesis using m b Inr body x Some t1 t3 by (simp add: write_locked_def Let_def)
      qed
    qed
  qed
qed

lemma Write_ok:
  assumes ok: "tree_ok t"
  shows "safe_step (Write env p content mode t)"
proof (cases rule: splitPath_cases [of p])
  case bad
  then show ?thesis by (cases rule: cleanPath_cases [of p]) (simp_all add: Write_def ok)
next
  case (parts cs name)
  then show ?thesis
    using MkdirAll_ok [OF ok, of env "render cs" "0x1ED"] write_locked_ok [OF _ parts(2)]
    by (auto simp: Write_def split: prod.split sum.split)
qed

text \<open>Removing.\<close>

lemma map_of_filter_keys: "map_of (filter (\<lambda>(k, _). P k) m) k = (if P k then map_of m k else None)"
  by (induction m) auto

lemma tree_ok_addWhiteout:
  assumes ok: "tree_ok t"
  shows "tree_ok (addWhiteoutLocked p t)"
proof (cases "cleanPath p")
  case (Inr c)
  let ?t = "addWhiteoutLocked p t"
  have t: "tr_root ?t = tr_root t" "tr_alloc ?t = tr_alloc t"
    "tr_hostNodes ?t = filter (\<lambda>(k, _). \<not> (k = c \<or> HasPrefix k (c @ ''/''))) (tr_hostNodes t)"
    using Inr by (simp_all add: addWhiteoutLocked_def)
  have keep: "map_of (tr_hostNodes ?t) k = Some i \<Longrightarrow> map_of (tr_hostNodes t) k = Some i" for k i
    unfolding t(3) map_of_filter_keys by (simp split: if_splits)
  have at: "\<exists>j. inode_at t r = Some j \<and> in_ID j = in_ID i" if "inode_at ?t r = Some i" for r i
    using keep that by (cases r) (auto simp: t(1))
  have "ids_ok ?t"
    by (rule ids_ok_keep [of t]) (use ok at t(2) in \<open>simp_all add: tree_ok_def del: inode_at.simps\<close>)
  then show ?thesis using ok keep by (simp add: tree_ok_def t(1)) blast
qed (simp add: addWhiteoutLocked_def ok)

lemma addWhiteout_sel [simp]:
  "tr_root (addWhiteoutLocked p t) = tr_root t" "tr_alloc (addWhiteoutLocked p t) = tr_alloc t"
  "tr_store (addWhiteoutLocked p t) = tr_store t" "tr_hostRoot (addWhiteoutLocked p t) = tr_hostRoot t"
  "tr_chunkSize (addWhiteoutLocked p t) = tr_chunkSize t" "tr_subs (addWhiteoutLocked p t) = tr_subs t"
  by (simp_all add: addWhiteoutLocked_def split: sum.split)

text \<open>The parent of a path, as \<^verbatim>\<open>Remove\<close>, \<^verbatim>\<open>RemoveAll\<close> and \<^verbatim>\<open>Rename\<close> look it up.\<close>

lemma parent_lookup:
  assumes ok: "tree_ok t" and p: "path_ok cs" and l: "lookupLocked os (render cs) t = (res, t1)"
  shows "tree_ok t1" "peek t t1" "res \<noteq> Inl PanicNilMap" "res = Inr (r, n) \<Longrightarrow> cursor_ok t1 cs (r, n)"
  using lookup_ok [OF ok l] cleanPath_render [OF p] path_ok_valid [OF p] by (auto simp: path_ok_valid render_inject)

lemma removed_ok:
  assumes "tree_ok t" "cursor_ok t cs (r, n)" "child_of n c = Some m"
  shows "tree_ok (on_node r (del_child c) (t\<lparr>tr_store := st\<rparr>))"
proof -
  have "r = Mem cs" "get_at (tr_root t) cs = Some n" using cursor_child [OF assms(2,3)] by simp_all
  then show ?thesis using tree_ok_del [of "t\<lparr>tr_store := st\<rparr>" cs n c] assms(1) by simp
qed

lemma Remove_ok:
  assumes ok: "tree_ok t"
  shows "safe_step (Remove env p t)"
proof (cases rule: splitPath_cases [of p])
  case bad
  then show ?thesis by (cases rule: cleanPath_cases [of p]) (simp_all add: Remove_def ok)
next
  case (parts cs name)
  obtain res t1 where l: "lookupLocked (ve_os env) (render cs) t = (res, t1)" by fastforce
  note pl = parent_lookup [OF ok _ l] and po = path_ok_snoc [OF parts(2)]
  have root: "render (cs @ [name]) \<noteq> ''/''" using render_eq_root [OF path_ok_valid [OF parts(2)]] by simp
  show ?thesis
  proof (cases res)
    case (Inl e)
    then show ?thesis using pl(1,3) po l parts root by (simp add: Remove_def)
  next
    case (Inr x)
    obtain r n where x: "x = (r, n)" by fastforce
    have t1: "tree_ok t1" and cur: "cursor_ok t1 cs (r, n)" using pl(1,4) po Inr x by auto
    show ?thesis
    proof (cases "child_of n name")
      case (Some target)
      have "tree_ok (set_modTime r now (on_node r (del_child name) (t1\<lparr>tr_store := st\<rparr>)))" for now st
        by (intro tree_ok_set_modTime removed_ok [OF t1 cur Some])
      then show ?thesis
        using t1 l parts root Inr x Some by (simp add: Remove_def Let_def tree_ok_addWhiteout)
    next
      case None
      have "tree_ok (set_modTime r now (addWhiteoutLocked q t1))" for now q
        using t1 by (intro tree_ok_set_modTime tree_ok_addWhiteout)
      then show ?thesis
        using t1 l parts root Inr x None by (simp add: Remove_def Let_def split: sum.split)
    qed
  qed
qed

lemma RemoveAll_ok:
  assumes ok: "tree_ok t"
  shows "safe_step (RemoveAll env p t)"
proof (cases rule: splitPath_cases [of p])
  case bad
  then show ?thesis by (cases rule: cleanPath_cases [of p]) (simp_all add: RemoveAll_def ok)
next
  case (parts cs name)
  obtain res t1 where l: "lookupLocked (ve_os env) (render cs) t = (res, t1)" by fastforce
  note pl = parent_lookup [OF ok _ l] and po = path_ok_snoc [OF parts(2)]
  have root: "render (cs @ [name]) \<noteq> ''/''" using render_eq_root [OF path_ok_valid [OF parts(2)]] by simp
  show ?thesis
  proof (cases res)
    case (Inl e)
    then show ?thesis using pl(1,3) po l parts root by (simp add: RemoveAll_def)
  next
    case (Inr x)
    obtain r n where x: "x = (r, n)" by fastforce
    have t1: "tree_ok t1" and cur: "cursor_ok t1 cs (r, n)" using pl(1,4) po Inr x by auto
    have wh: "tree_ok u \<Longrightarrow> tree_ok (set_modTime r now (addWhiteoutLocked q u))" for now q u
      by (intro tree_ok_set_modTime tree_ok_addWhiteout)
    show ?thesis
    proof (cases "child_of n name")
      case (Some target)
      have "tree_ok (set_modTime r now (on_node r (del_child name) (t1\<lparr>tr_store := st\<rparr>)))" for now st
        by (intro tree_ok_set_modTime removed_ok [OF t1 cur Some])
      then show ?thesis
        using l parts root Inr x Some wh by (simp add: RemoveAll_def Let_def split: prod.split)
    next
      case None
      then show ?thesis using t1 l parts root Inr x wh by (simp add: RemoveAll_def Let_def split: prod.split)
    qed
  qed
qed

text \<open>Renaming: the destination of a move in memory is a directory of the tree; a host node has no children map.\<close>

lemma Rename_ok:
  assumes ok: "tree_ok t"
  shows "tree_ok (snd (Rename env oldPath newPath t))"
proof (cases rule: splitPath_cases [of oldPath])
  case (parts ss s)
  note old = this
  show ?thesis
  proof (cases rule: splitPath_cases [of newPath])
    case (parts ds d)
    obtain res1 t1 where l1: "lookupLocked (ve_os env) (render ss) t = (res1, t1)" by fastforce
    note pl1 = parent_lookup [OF ok conjunct1 [OF path_ok_snoc [OF old(2)]] l1]
    show ?thesis
    proof (cases res1)
      case (Inl e)
      then show ?thesis using pl1 old parts l1 by (simp add: Rename_def)
    next
      case (Inr x)
      obtain sr sp where x: "x = (sr, sp)" by fastforce
      show ?thesis
      proof (cases "child_of sp s")
        case None
        then show ?thesis using pl1 old parts l1 Inr x by (simp add: Rename_def)
      next
        case (Some src)
        obtain res2 t2 where l2: "lookupLocked (ve_os env) (render ds) t1 = (res2, t2)" by fastforce
        note pl2 = parent_lookup [OF pl1(1) conjunct1 [OF path_ok_snoc [OF parts(2)]] l2]
        have src: "sr = Mem ss" "get_at (tr_root t2) ss = Some sp"
          using cursor_child [OF pl1(4) Some] Inr x peek_sel(1) [OF pl2(2)] by auto
        show ?thesis
        proof (cases res2)
          case (Inl e)
          then show ?thesis using pl2 old parts l1 l2 Inr x Some \<open>res1 = Inr x\<close> by (simp add: Rename_def)
        next
          case dst: (Inr y)
          obtain dr dp where y: "y = (dr, dp)" by fastforce
          have del: "tree_ok (on_node sr (del_child s) t2)" using tree_ok_del [OF pl2(1) src(2)] src(1) by simp
          have mv: "tree_ok (on_node dr (put_child d src) (on_node sr (del_child s) t2))"
            if "n_children dp = Some kids" "child_of dp d = None" for kids
          proof -
            have "dr = Mem ds" "get_at (tr_root t2) ds = Some dp"
              using pl2(4) [of dr dp] dst y that(1) by (cases dr; auto)+
            then show ?thesis
              using tree_ok_move [OF pl2(1) src(2) Some _ _ that(2)] that(1) path_ok_snoc [OF parts(2)] src(1) by simp
          qed
          show ?thesis
            using pl2(1) old parts l1 l2 \<open>res1 = Inr x\<close> x Some dst y del mv
            by (auto simp: Rename_def Let_def assign_child_def tree_ok_set_modTime split: option.split)
        qed
      qed
    qed
  qed (use ok old in \<open>simp add: Rename_def\<close>)
qed (use ok in \<open>simp add: Rename_def\<close>)

text \<open>The operations that only look up.\<close>

lemma lookup_then_ok:
  assumes ok: "tree_ok t" and f: "\<And>r n t1. tree_ok t1 \<Longrightarrow> safe_step (f r n t1)"
  shows "safe_step (case lookupLocked os p t of (Inl err, t) \<Rightarrow> (Inl err, t) | (Inr (r, n), t) \<Rightarrow> f r n t)"
proof -
  obtain res t1 where l: "lookupLocked os p t = (res, t1)" by fastforce
  show ?thesis using lookup_ok [OF ok l] f l by (cases res) (auto split: prod.split)
qed

lemma Chmod_ok: "tree_ok t \<Longrightarrow> safe_step (Chmod env p mode t)"
  unfolding Chmod_def Let_def
  by (rule lookup_then_ok) (auto intro!: tree_ok_set_modTime tree_ok_on_inode simp: Chmod_inode_wf)

lemma Chtime_ok: "tree_ok t \<Longrightarrow> safe_step (Chtime env p mtime t)"
  unfolding Chtime_def by (rule lookup_then_ok) (auto intro: tree_ok_set_modTime)

lemma Read_ok: "tree_ok t \<Longrightarrow> safe_step (Read env p t)"
  unfolding Read_def Let_def by (rule lookup_then_ok) (auto split: option.split prod.split)

lemma tree_Stat_ok: "tree_ok t \<Longrightarrow> safe_step (tree_Stat env p t)"
  unfolding tree_Stat_def by (rule lookup_then_ok) (simp_all add: safe_step_def)

lemma Open_ok: "tree_ok t \<Longrightarrow> safe_step (Open env p t)"
  unfolding Open_def by (rule lookup_then_ok) (simp_all add: safe_step_def)

lemma readdir_loop_ok: "tree_ok t \<Longrightarrow> tree_ok (snd (readdir_loop os clean names t))"
proof (induction names arbitrary: t)
  case (Cons name names)
  obtain res t1 where l: "lookupLocked os (joinPath clean name) t = (res, t1)" by fastforce
  have "tree_ok t1" using lookup_ok [OF Cons.prems l] by simp
  then show ?case using Cons.IH [of t1] l by (cases res) (auto split: prod.split)
qed simp

lemma ReadDir_ok: "tree_ok t \<Longrightarrow> safe_step (ReadDir env p t)"
  unfolding ReadDir_def Let_def
  by (rule lookup_then_ok) (simp_all add: safe_step_def readdir_loop_ok split_beta)

section \<open>Runs\<close>

datatype tree_op =
  OMkdir string file_mode | OMkdirAll string file_mode | OWrite string bytes file_mode | OSymlink string string
| ORemove string | ORemoveAll string | ORename string string | OChmod string file_mode | OChtime string gotime
| ORead string | OStat string | OReadDir string | OOpen string | OSubscribe nat string int | OUnsubscribe nat

definition err_of :: "(tree_error + 'a) \<times> tree \<Rightarrow> tree_error option \<times> tree" where
  "err_of rt = (case rt of (Inl e, t) \<Rightarrow> (Some e, t) | (Inr _, t) \<Rightarrow> (None, t))"

definition run_op :: "vfs_env \<Rightarrow> tree_op \<Rightarrow> tree \<Rightarrow> tree_error option \<times> tree" where
  "run_op env op t =
     (case op of
        OMkdir p mode \<Rightarrow> err_of (Mkdir env p mode t)
      | OMkdirAll p mode \<Rightarrow> err_of (MkdirAll env p mode t)
      | OWrite p content mode \<Rightarrow> err_of (Write env p content mode t)
      | OSymlink target p \<Rightarrow> err_of (Symlink env target p t)
      | ORemove p \<Rightarrow> err_of (Remove env p t)
      | ORemoveAll p \<Rightarrow> err_of (RemoveAll env p t)
      | ORename p q \<Rightarrow> err_of (Rename env p q t)
      | OChmod p mode \<Rightarrow> err_of (Chmod env p mode t)
      | OChtime p mtime \<Rightarrow> err_of (Chtime env p mtime t)
      | ORead p \<Rightarrow> err_of (Read env p t)
      | OStat p \<Rightarrow> err_of (tree_Stat env p t)
      | OReadDir p \<Rightarrow> err_of (ReadDir env p t)
      | OOpen p \<Rightarrow> err_of (Open env p t)
      | OSubscribe i p buffer \<Rightarrow> (None, t\<lparr>tr_subs := Subscribe i p buffer (tr_subs t)\<rparr>)
      | OUnsubscribe i \<Rightarrow> (None, t\<lparr>tr_subs := unsub i (tr_subs t)\<rparr>))"

definition run_ops :: "(vfs_env \<times> tree_op) list \<Rightarrow> tree \<Rightarrow> tree" where
  "run_ops steps t = fold (\<lambda>(env, op) t. snd (run_op env op t)) steps t"

definition is_rename :: "tree_op \<Rightarrow> bool" where
  "is_rename op \<longleftrightarrow> (case op of ORename p q \<Rightarrow> True | _ \<Rightarrow> False)"

lemmas op_safe = Mkdir_ok MkdirAll_ok Write_ok Symlink_ok Remove_ok RemoveAll_ok Chmod_ok Chtime_ok Read_ok
  tree_Stat_ok ReadDir_ok Open_ok

lemma err_of_parts: "tree_ok (snd (err_of rt)) \<longleftrightarrow> tree_ok (snd rt)" "fst (err_of rt) = Some e \<longleftrightarrow> fst rt = Inl e"
  by (cases rt; cases "fst rt"; auto simp: err_of_def)+

lemma safe_step_parts: "safe_step rt \<Longrightarrow> tree_ok (snd rt)" "safe_step rt \<Longrightarrow> fst rt \<noteq> Inl PanicNilMap"
  by (simp_all add: safe_step_def)

lemmas op_tree_ok = op_safe [THEN safe_step_parts(1)] and op_no_panic = op_safe [THEN safe_step_parts(2)]

lemma run_op_ok:
  assumes "tree_ok t"
  shows "tree_ok (snd (run_op env op t))" "\<not> is_rename op \<Longrightarrow> fst (run_op env op t) \<noteq> Some PanicNilMap"
proof -
  show "tree_ok (snd (run_op env op t))"
    using assms by (cases op) (simp_all add: run_op_def err_of_parts op_tree_ok Rename_ok)
  show "fst (run_op env op t) \<noteq> Some PanicNilMap" if "\<not> is_rename op"
    using assms that by (cases op) (simp_all add: run_op_def err_of_parts op_no_panic is_rename_def)
qed

lemma run_ops_ok: "tree_ok t \<Longrightarrow> tree_ok (run_ops steps t)"
  by (induction steps arbitrary: t) (auto simp: run_ops_def run_op_ok)

lemma NewTree_ok: "tree_ok (NewTree memoryLimit chunkSize hostOverlay now)" (is "tree_ok ?t")
proof -
  have at: "inode_at ?t r = Some i \<Longrightarrow> r = Mem [] \<and> i = dir_inode 1 0x1ED now" for r i
    by (cases r) (auto simp: NewTree_def view_leaf split: if_splits)
  have "ids_ok ?t" unfolding ids_ok_def by (auto dest!: at) (simp add: NewTree_def)
  then show ?thesis by (simp add: tree_ok_def NewTree_def)
qed

section \<open>Properties\<close>

text \<open>C34: Type safety of the tree. After any sequence of operations on a new tree, each against whatever the
  host shows at that time, every inode is of exactly one kind and its mode bits, link count, body and
  link target are those of its kind; exactly the directories have children, under distinct valid
  names; no two inodes have the same identifier; and no operation other than a rename assigns into a nil
  map.\<close>

theorem tree_type_safe:
  "tree_ok (run_ops steps (NewTree memoryLimit chunkSize hostOverlay now)) \<and>
   (\<not> is_rename op \<longrightarrow> fst (run_op env op (run_ops steps (NewTree memoryLimit chunkSize hostOverlay now))) \<noteq> Some PanicNilMap)"
  using run_ops_ok [OF NewTree_ok] run_op_ok(2) by blast

text \<open>A host with one directory \<^verbatim>\<open>/h/d\<close> that holds one file \<^verbatim>\<open>/h/d/f\<close> of five bytes.\<close>

definition sample_info :: "string \<Rightarrow> os_error + host_info" where
  "sample_info p =
     (if p = ''/h'' \<or> p = ''/h/d'' then Inr \<lparr>hi_mode = ModeDir OR 0x1ED, hi_modTime = 1, hi_size = 0\<rparr>
      else if p = ''/h/d/f'' then Inr \<lparr>hi_mode = 0x1A4, hi_modTime = 2, hi_size = 5\<rparr>
      else Inl OSNotExist)"

definition sample_os :: host_os where
  "sample_os =
     \<lparr>os_Lstat = sample_info, os_Stat = sample_info, os_Readlink = (\<lambda>_. None),
      os_ReadDir = (\<lambda>p. if p = ''/h'' then Some [''d''] else if p = ''/h/d'' then Some [''f''] else None)\<rparr>"

definition sample_env :: "gotime \<Rightarrow> vfs_env" where
  "sample_env now = \<lparr>ve_os = sample_os, ve_codec = sample_codec, ve_reader = no_reader, ve_now = now, ve_nanos = now\<rparr>"

definition sample_steps :: "(vfs_env \<times> tree_op) list" where
  "sample_steps =
     [(sample_env 10, OWrite ''/d/g'' ''abc'' 0x1A4), (sample_env 11, OStat ''/d/f''),
      (sample_env 12, ORemove ''/d/f''), (sample_env 13, OMkdir ''/e'' 0x1ED)]"

definition sample_tree :: tree where
  "sample_tree = run_ops sample_steps (NewTree 0 2 ''/h'' 0)"

theorem tree_type_safe_witness:
  "tree_ok sample_tree \<and> fst (run_op (sample_env 14) (OMkdir ''/e/x'' 0x1ED) sample_tree) = None \<and>
   fst (run_op (sample_env 14) (ORead ''/d/f'') sample_tree) \<noteq> Some PanicNilMap"
proof -
  have "\<not> is_rename (ORead ''/d/f'')" by (simp add: is_rename_def)
  moreover have "fst (run_op (sample_env 14) (OMkdir ''/e/x'' 0x1ED) sample_tree) = None" by code_simp
  ultimately show ?thesis
    using tree_type_safe [of sample_steps 0 2 "''/h''" 0 "ORead ''/d/f''" "sample_env 14"] by (simp add: sample_tree_def)
qed

end
