(* ===== verification/Vfs_Refs.thy ===== *)
theory Vfs_Refs imports
  Vfs_Safe
begin

text \<open>
  The tree and the chunk store together: the store holds at least as many references to a chunk as the
  files of the tree have extents in it, so releasing what one file holds never takes a chunk from
  another. Consequently the content of every file stays readable.
\<close>

section \<open>References held by a tree\<close>

definition body_refs :: "hash \<Rightarrow> file_body \<Rightarrow> nat" where
  "body_refs h b = length (filter (\<lambda>x. x_kind x = ExtentBlob \<and> x_hash x = h) (fb_extents b))"

definition inode_refs :: "hash \<Rightarrow> Inode \<Rightarrow> nat" where
  "inode_refs h i = (case in_Body i of None \<Rightarrow> 0 | Some b \<Rightarrow> body_refs h b)"

fun node_refs :: "hash \<Rightarrow> tnode \<Rightarrow> nat" where
  "node_refs h (TNode i kids) =
     inode_refs h i + (case kids of None \<Rightarrow> 0 | Some ks \<Rightarrow> sum_list (map (\<lambda>k. node_refs h (snd k)) ks))"

definition kids_refs :: "hash \<Rightarrow> tnode \<Rightarrow> nat" where
  "kids_refs h n = (case n_children n of None \<Rightarrow> 0 | Some ks \<Rightarrow> sum_list (map (\<lambda>k. node_refs h (snd k)) ks))"

lemma node_refs_eq: "node_refs h n = inode_refs h (n_inode n) + kids_refs h n"
  by (cases n) (simp add: kids_refs_def)

lemma sum_alist_put_new:
  "k \<notin> fst ` set m \<Longrightarrow> sum_list (map (\<lambda>p. f (snd p)) (alist_put k v m)) = sum_list (map (\<lambda>p. f (snd p)) m) + (f v :: nat)"
  by (simp add: alist_put_def)

lemma sum_alist_del:
  "distinct (map fst m) \<Longrightarrow> map_of m k = Some v \<Longrightarrow>
    sum_list (map (\<lambda>p. f (snd p)) (alist_del k m)) + (f v :: nat) = sum_list (map (\<lambda>p. f (snd p)) m)"
proof (induction m)
  case (Cons p m)
  show ?case
  proof (cases "fst p = k")
    case True
    then have "\<forall>q \<in> set m. fst q \<noteq> k" using Cons.prems(1) by (cases p) (auto simp: image_iff)
    then have "alist_del k m = m" by (auto simp: alist_del_def filter_id_conv)
    then show ?thesis using True Cons.prems by (cases p) (auto simp: alist_del_def)
  next
    case False
    then show ?thesis using Cons by (cases p) (auto simp: alist_del_def)
  qed
qed simp

lemma sum_alist_put_present:
  "distinct (map fst m) \<Longrightarrow> map_of m k = Some v \<Longrightarrow>
    sum_list (map (\<lambda>p. f (snd p)) (alist_put k w m)) + (f v :: nat) = sum_list (map (\<lambda>p. f (snd p)) m) + f w"
proof (induction m)
  case (Cons p m)
  show ?case
  proof (cases "fst p = k")
    case True
    then have "\<forall>q \<in> set m. fst q \<noteq> k" using Cons.prems(1) by (cases p) (auto simp: image_iff)
    then have "map (\<lambda>(k', v'). if k' = k then (k', w) else (k', v')) m = m"
      by (intro map_idI) (auto split: prod.split)
    then show ?thesis using True Cons.prems by (cases p) (simp add: alist_put_def)
  next
    case False
    then have "k \<in> fst ` set m" using Cons.prems by (cases p) (force dest: map_of_SomeD)
    then show ?thesis using Cons False by (cases p) (auto simp: alist_put_def)
  qed
qed simp

lemma child_mem:
  assumes "node_ok n" "child_of n c = Some m"
  obtains kids where "n_children n = Some kids" "distinct (map fst kids)" "map_of kids c = Some m"
  using assms by (auto simp: child_of_def node_ok_def split: option.splits)

lemma refs_put_new:
  "n_children n \<noteq> None \<Longrightarrow> child_of n c = None \<Longrightarrow> node_refs h (put_child c m n) = node_refs h n + node_refs h m"
  by (cases n) (auto simp: put_child_def child_of_def map_of_eq_None_iff sum_alist_put_new split: option.splits)

lemma refs_put_present:
  assumes "node_ok n" "child_of n c = Some m"
  shows "node_refs h (put_child c m' n) + node_refs h m = node_refs h n + node_refs h m'"
proof -
  obtain kids where "n_children n = Some kids" "distinct (map fst kids)" "map_of kids c = Some m"
    using assms by (rule child_mem)
  then show ?thesis using sum_alist_put_present [of kids c m "node_refs h" m'] by (cases n) (auto simp: put_child_def)
qed

lemma refs_del:
  assumes "node_ok n" "child_of n c = Some m"
  shows "node_refs h (del_child c n) + node_refs h m = node_refs h n"
proof -
  obtain kids where "n_children n = Some kids" "distinct (map fst kids)" "map_of kids c = Some m"
    using assms by (rule child_mem)
  then show ?thesis using sum_alist_del [of kids c m "node_refs h"] by (cases n) (auto simp: del_child_def)
qed

lemma refs_on_inode: "node_refs h (on_inode f n) + inode_refs h (n_inode n) = node_refs h n + inode_refs h (f (n_inode n))"
  by (cases n) (simp add: on_inode_def)

lemma refs_child_le: "node_ok n \<Longrightarrow> child_of n c = Some m \<Longrightarrow> node_refs h m \<le> node_refs h n"
  using refs_del [of n c m h] by simp

lemma refs_get_le: "node_wf n \<Longrightarrow> get_at n cs = Some m \<Longrightarrow> node_refs h m \<le> node_refs h n"
proof (induction cs arbitrary: n)
  case (Cons c cs)
  then obtain k where "child_of n c = Some k" "get_at k cs = Some m" by (auto split: option.splits)
  then show ?case
    using Cons.IH [of k] refs_child_le [of n c k h] Cons.prems node_wf_child node_wf_root by fastforce
qed simp

lemma refs_modify:
  "node_wf n \<Longrightarrow> get_at n ps = Some m \<Longrightarrow> node_refs h (modify_at ps f n) + node_refs h m = node_refs h n + node_refs h (f m)"
proof (induction ps arbitrary: n)
  case (Cons c cs)
  then obtain k where k: "child_of n c = Some k" "get_at k cs = Some m" by (auto split: option.splits)
  have "node_refs h (modify_at cs f k) + node_refs h m = node_refs h k + node_refs h (f m)"
    using Cons.IH [OF node_wf_child [OF Cons.prems(1) k(1)] k(2)] .
  moreover have "node_refs h (put_child c (modify_at cs f k) n) + node_refs h k = node_refs h n + node_refs h (modify_at cs f k)"
    by (rule refs_put_present [OF node_wf_root [OF Cons.prems(1)] k(1)])
  ultimately show ?case using k by simp
qed simp

section \<open>The store behind them\<close>

lemma stored_iff_refs:
  assumes "chunk_inv cd s"
  shows "stored cd s h \<noteq> None \<longleftrightarrow> 0 < RefCount s h"
proof (cases "chunk_of s h")
  case (Some e)
  from chunk_invD(2) [OF assms Some] obtain raw where "entry_raw cd e = Some raw" "1 \<le> ce_refs e"
    by (auto simp: entry_ok_def)
  then show ?thesis using Some by (simp add: stored_def RefCount_def)
qed (simp add: stored_def RefCount_def)

lemma RefCount_nonneg: "chunk_inv cd s \<Longrightarrow> 0 \<le> RefCount s h"
  using chunk_invD(2) [of cd s h] by (cases "chunk_of s h") (auto simp: RefCount_def entry_ok_def)

text \<open>What a release leaves: the chunks that are still referenced.\<close>

definition released :: "codec \<Rightarrow> chunk_store \<Rightarrow> (hash \<Rightarrow> int) \<Rightarrow> chunk_store \<Rightarrow> bool" where
  "released cd s d s' \<longleftrightarrow>
     chunk_inv cd s' \<and> (\<forall>h. d h \<le> RefCount s h \<longrightarrow> RefCount s' h = RefCount s h - d h) \<and>
     (\<forall>h. 0 < RefCount s' h \<longrightarrow> stored cd s' h = stored cd s h)"

lemma released_refl: "chunk_inv cd s \<Longrightarrow> released cd s (\<lambda>_. 0) s"
  by (simp add: released_def)

lemma released_trans:
  assumes "released cd s d s'" "released cd s' d' s''" "\<And>h. 0 \<le> d h" "\<And>h. 0 \<le> d' h"
    and "\<And>h. 0 < RefCount s'' h \<Longrightarrow> 0 < RefCount s' h"
  shows "released cd s (\<lambda>h. d h + d' h) s''"
  using assms unfolding released_def by (smt (verit))

lemma Release_released:
  assumes inv: "chunk_inv cd s"
  shows "released cd s (\<lambda>k. if k = h then 1 else 0) (snd (Release h s))"
    and "RefCount (snd (Release h s)) k \<le> RefCount s k"
proof -
  have "released cd s (\<lambda>k. if k = h then 1 else 0) (snd (Release h s)) \<and> RefCount (snd (Release h s)) k \<le> RefCount s k"
  proof (cases "chunk_of s h")
    case None
    then have "RefCount s h = 0" "Release h s = (Inl ErrChunkNotFound, s)" by (simp_all add: RefCount_def Release_def)
    then show ?thesis using inv by (simp add: released_def)
  next
    case (Some e)
    from Release_spec [OF inv Some] obtain s' where s': "Release h s = (Inr (), s')" "chunk_inv cd s'"
      "stored cd s' = (if RefCount s h = 1 then (stored cd s)(h := None) else stored cd s)"
      "RefCount s' = (RefCount s)(h := RefCount s h - 1)" by blast
    then show ?thesis by (auto simp: released_def)
  qed
  then show "released cd s (\<lambda>k. if k = h then 1 else 0) (snd (Release h s))" "RefCount (snd (Release h s)) k \<le> RefCount s k"
    by simp_all
qed

text \<open>Both facts together compose.\<close>

definition shrinks :: "codec \<Rightarrow> chunk_store \<Rightarrow> (hash \<Rightarrow> nat) \<Rightarrow> chunk_store \<Rightarrow> bool" where
  "shrinks cd s d s' \<longleftrightarrow> released cd s (\<lambda>h. int (d h)) s' \<and> (\<forall>h. RefCount s' h \<le> RefCount s h)"

lemma shrinks_refl: "chunk_inv cd s \<Longrightarrow> shrinks cd s (\<lambda>_. 0) s"
  by (simp add: shrinks_def released_refl)

lemma shrinks_inv: "shrinks cd s d s' \<Longrightarrow> chunk_inv cd s'"
  by (simp add: shrinks_def released_def)

lemma shrinks_trans:
  assumes "shrinks cd s d s'" "shrinks cd s' d' s''"
  shows "shrinks cd s (\<lambda>h. d h + d' h) s''"
proof -
  have "released cd s (\<lambda>h. int (d h) + int (d' h)) s''"
    by (rule released_trans [of cd s "\<lambda>h. int (d h)" s']) (use assms in \<open>auto simp: shrinks_def intro: less_le_trans\<close>)
  then show ?thesis using assms by (auto simp: shrinks_def intro: order_trans)
qed

lemma releaseInode_shrinks:
  assumes "chunk_inv cd s"
  shows "shrinks cd s (\<lambda>h. inode_refs h i) (releaseInodeLocked i s)"
proof -
  have "shrinks cd s (\<lambda>h. length (filter (\<lambda>x. x_kind x = ExtentBlob \<and> x_hash x = h) exs))
      (fold (\<lambda>ex st. if x_kind ex = ExtentBlob then snd (Release (x_hash ex) st) else st) exs s)" for exs
    using assms
  proof (induction exs arbitrary: s)
    case (Cons x exs)
    let ?s = "if x_kind x = ExtentBlob then snd (Release (x_hash x) s) else s"
    have x: "shrinks cd s (\<lambda>h. if x_kind x = ExtentBlob \<and> x_hash x = h then 1 else 0) ?s"
      using Release_released [OF Cons.prems, of "x_hash x"] shrinks_refl [OF Cons.prems]
      by (auto simp: shrinks_def released_def)
    have eq: "(\<lambda>h. (if x_kind x = ExtentBlob \<and> x_hash x = h then 1 else 0) + length (filter (\<lambda>x. x_kind x = ExtentBlob \<and> x_hash x = h) exs)) =
        (\<lambda>h. length (filter (\<lambda>x. x_kind x = ExtentBlob \<and> x_hash x = h) (x # exs)))"
      by auto
    from shrinks_trans [OF x Cons.IH [OF shrinks_inv [OF x]]] show ?case unfolding eq by simp
  qed (simp add: shrinks_refl)
  then show ?thesis
    using shrinks_refl [OF assms] by (cases "in_Body i") (simp_all add: releaseInodeLocked_def inode_refs_def body_refs_def)
qed

lemma releaseSubtree_shrinks:
  "chunk_inv cd s \<Longrightarrow> shrinks cd s (\<lambda>h. node_refs h n) (releaseSubtreeLocked n s)"
proof (induction n arbitrary: s)
  case (TNode i kids)
  let ?s = "releaseInodeLocked i s"
  note i = releaseInode_shrinks [OF TNode.prems, of i]
  have ks: "shrinks cd st (\<lambda>h. sum_list (map (\<lambda>k. node_refs h (snd k)) ks)) (fold (\<lambda>k. releaseSubtreeLocked (snd k)) ks st)"
    if "chunk_inv cd st" "\<And>k s. k \<in> set ks \<Longrightarrow> chunk_inv cd s \<Longrightarrow> shrinks cd s (\<lambda>h. node_refs h (snd k)) (releaseSubtreeLocked (snd k) s)" for ks st
    using that
  proof (induction ks arbitrary: st)
    case (Cons k ks)
    have k: "shrinks cd st (\<lambda>h. node_refs h (snd k)) (releaseSubtreeLocked (snd k) st)" using Cons.prems by simp
    from shrinks_trans [OF k Cons.IH [OF shrinks_inv [OF k]]] Cons.prems show ?case by simp
  qed (simp add: shrinks_refl)
  show ?case
  proof (cases kids)
    case (Some kl)
    have "shrinks cd ?s (\<lambda>h. sum_list (map (\<lambda>k. node_refs h (snd k)) kl)) (fold (\<lambda>k. releaseSubtreeLocked (snd k)) kl ?s)"
      by (rule ks [OF shrinks_inv [OF i]]) (use TNode.IH Some in \<open>auto simp: snds.simps\<close>)
    from shrinks_trans [OF i this] Some show ?thesis by simp
  qed (use i in simp)
qed

text \<open>What a put adds.\<close>

definition grows :: "codec \<Rightarrow> chunk_store \<Rightarrow> (hash \<Rightarrow> nat) \<Rightarrow> chunk_store \<Rightarrow> bool" where
  "grows cd s d s' \<longleftrightarrow>
     chunk_inv cd s' \<and> (\<forall>h. RefCount s h + int (d h) \<le> RefCount s' h) \<and>
     (\<forall>h. stored cd s h \<noteq> None \<longrightarrow> stored cd s' h = stored cd s h)"

lemma grows_refl: "chunk_inv cd s \<Longrightarrow> grows cd s (\<lambda>_. 0) s"
  by (simp add: grows_def)

lemma grows_trans:
  assumes "grows cd s d s'" "grows cd s' d' s''"
  shows "grows cd s (\<lambda>h. d h + d' h) s''"
proof -
  have "RefCount s h + int (d h + d' h) \<le> RefCount s'' h" for h
  proof -
    have "RefCount s h + int (d h) \<le> RefCount s' h" "RefCount s' h + int (d' h) \<le> RefCount s'' h"
      using assms by (simp_all add: grows_def)
    then show ?thesis by simp
  qed
  then show ?thesis using assms by (simp add: grows_def)
qed

lemma put_hash_grows:
  assumes "codec_ok cd" "chunk_inv cd s" "put_hash cd now c s = (r, s')"
  shows "grows cd s (\<lambda>k. if r = Inr k then 1 else 0) s'" "r = Inl err \<Longrightarrow> err = ErrMemoryPressure"
proof -
  show "grows cd s (\<lambda>k. if r = Inr k then 1 else 0) s'"
    using assms(1,2)
  proof (cases rule: Put_cases [where content = c and now = now])
    case (hit e s'')
    moreover have "RefCount s (SumHash cd c) = ce_refs e" using hit(1) by (simp add: RefCount_def)
    ultimately show ?thesis using assms(3) by (auto simp: put_hash_def grows_def)
  next
    case (new s'')
    moreover have "RefCount s (SumHash cd c) = 0" "stored cd s (SumHash cd c) = None"
      using new(1) by (simp_all add: RefCount_def stored_def)
    ultimately show ?thesis using assms(3) by (auto simp: put_hash_def grows_def)
  next
    case (rejected s'')
    then show ?thesis using assms(3) by (auto simp: put_hash_def grows_def only_shrinks_def)
  qed
  show "r = Inl err \<Longrightarrow> err = ErrMemoryPressure" using put_hash_error assms(3) by blast
qed

definition exts_refs :: "hash \<Rightarrow> extent list \<Rightarrow> nat" where
  "exts_refs h exs = length (filter (\<lambda>x. x_kind x = ExtentBlob \<and> x_hash x = h) exs)"

lemma exts_refs_snoc: "exts_refs h (exs @ [blob_extent a n k]) = exts_refs h exs + (if k = h then 1 else 0)"
  by (simp add: exts_refs_def blob_extent_def)

lemma chunk_loop_grows:
  assumes n: "0 < n" and cd: "codec_ok cd"
  shows "chunk_inv cd st \<Longrightarrow> chunk_loop (put_hash cd now) content n off exs st = (r, st') \<Longrightarrow>
    (\<exists>d. grows cd st d st' \<and> (\<forall>exs'. r = Inr exs' \<longrightarrow> (\<forall>h. exts_refs h exs' = exts_refs h exs + d h))) \<and>
    (\<forall>e. r = Inl e \<longrightarrow> e = ErrMemoryPressure)"
proof (induction "length content - off" arbitrary: off exs st rule: less_induct)
  case less
  show ?case
  proof (cases "off < length content")
    case False
    then have "r = Inr exs" "st' = st" using less.prems n by (auto simp: chunk_loop.simps)
    then show ?thesis using grows_refl [OF less.prems(1)] by auto
  next
    case True
    let ?stop = "min (off + n) (length content)"
    obtain pr st1 where p: "put_hash cd now (take (?stop - off) (drop off content)) st = (pr, st1)" by fastforce
    note g = put_hash_grows [OF cd less.prems(1) p]
    show ?thesis
    proof (cases pr)
      case (Inl e)
      then have "r = Inl e" "st' = st1" using less.prems(2) n True p by (auto simp: chunk_loop.simps Let_def)
      then show ?thesis using g Inl by auto
    next
      case (Inr h)
      have l: "chunk_loop (put_hash cd now) content n (off + n) (exs @ [blob_extent (int off) (int (?stop - off)) h]) st1 = (r, st')"
        using less.prems(2) n True p Inr by (subst (asm) chunk_loop.simps) (simp add: Let_def)
      have "chunk_inv cd st1" using g by (simp add: grows_def)
      moreover have "length content - (off + n) < length content - off" using True n by simp
      ultimately obtain d where d: "grows cd st1 d st'"
        "\<And>exs' k. r = Inr exs' \<Longrightarrow> exts_refs k exs' = exts_refs k (exs @ [blob_extent (int off) (int (?stop - off)) h]) + d k"
        "\<forall>e. r = Inl e \<longrightarrow> e = ErrMemoryPressure" using less.hyps l by metis
      have "grows cd st (\<lambda>k. (if pr = Inr k then 1 else 0) + d k) st'" by (rule grows_trans [OF g(1) d(1)])
      then show ?thesis using d(2,3) Inr by (intro conjI exI) (auto simp: exts_refs_snoc)
    qed
  qed
qed

text \<open>Storing the content of a file.\<close>

definition safe_content :: "codec \<Rightarrow> bytes \<Rightarrow> bool" where
  "safe_content cd content \<longleftrightarrow> (\<forall>i j. collision_free cd (take i (drop j content)))"

lemma makeFileBody_grows:
  assumes cd: "codec_ok (ve_codec env)" and inv: "chunk_inv (ve_codec env) (tr_store t)"
    and m: "makeFileBodyLocked env content t = (r, t')"
  shows "\<exists>d. grows (ve_codec env) (tr_store t) d (tr_store t') \<and> (\<forall>b. r = Inr b \<longrightarrow> (\<forall>h. body_refs h b = d h))"
    and "r = Inl e \<Longrightarrow> e = ErrMemoryPressure"
proof -
  let ?put = "put_hash (ve_codec env) (ve_nanos env)"
  have "(\<exists>d. grows (ve_codec env) (tr_store t) d (tr_store t') \<and> (\<forall>b. r = Inr b \<longrightarrow> (\<forall>h. body_refs h b = d h))) \<and>
      (\<forall>e. r = Inl e \<longrightarrow> e = ErrMemoryPressure)"
  proof (cases "content = []")
    case True
    then show ?thesis using m grows_refl [OF inv] by (auto simp: makeFileBodyLocked_def NewEmptyFileBody_def body_refs_def)
  next
    case False
    show ?thesis
    proof (cases "tr_chunkSize t \<le> 0")
      case True
      obtain pr st where p: "?put content (tr_store t) = (pr, st)" by fastforce
      note g = put_hash_grows [OF cd inv p]
      show ?thesis
      proof (cases pr)
        case (Inr h)
        then have "r = Inr (NewBlobFileBody h (int (length content)))" "t' = t\<lparr>tr_store := st\<rparr>"
          using m False True p by (simp_all add: makeFileBodyLocked_def)
        moreover have "body_refs k (NewBlobFileBody h (int (length content))) = (if pr = Inr k then 1 else 0)" for k
          using False Inr by (simp add: NewBlobFileBody_def body_refs_def blob_extent_def)
        ultimately show ?thesis using g(1) by auto
      next
        case (Inl err)
        then show ?thesis using m False True p g by (auto simp: makeFileBodyLocked_def)
      qed
    next
      case chunked: False
      obtain lr st where l: "chunk_loop ?put content (nat (tr_chunkSize t)) 0 [] (tr_store t) = (lr, st)" by fastforce
      have n: "0 < nat (tr_chunkSize t)" using chunked by simp
      from chunk_loop_grows [OF n cd inv l] obtain d where d: "grows (ve_codec env) (tr_store t) d st"
        "\<forall>exs'. lr = Inr exs' \<longrightarrow> (\<forall>h. exts_refs h exs' = d h)" "\<forall>e. lr = Inl e \<longrightarrow> e = ErrMemoryPressure"
        by (auto simp: exts_refs_def)
      have "r = map_sum (\<lambda>e. e) (\<lambda>exs. \<lparr>fb_size = int (length content), fb_extents = exs\<rparr>) lr" "t' = t\<lparr>tr_store := st\<rparr>"
        using m False chunked l by (auto simp: makeFileBodyLocked_def NewChunkedFileBody_def Let_def split: sum.splits)
      then show ?thesis using d by (cases lr) (auto simp: body_refs_def exts_refs_def)
    qed
  qed
  then show "\<exists>d. grows (ve_codec env) (tr_store t) d (tr_store t') \<and> (\<forall>b. r = Inr b \<longrightarrow> (\<forall>h. body_refs h b = d h))"
    "r = Inl e \<Longrightarrow> e = ErrMemoryPressure" by blast+
qed

lemma makeFileBody_data:
  assumes cd: "codec_ok (ve_codec env)" and inv: "chunk_inv (ve_codec env) (tr_store t)" and safe: "safe_content (ve_codec env) content"
    and m: "makeFileBodyLocked env content t = (Inr b, t')"
  shows "body_data (stored (ve_codec env) (tr_store t')) host b = Some content"
proof -
  consider (empty) "content = []" | (whole) "content \<noteq> []" "tr_chunkSize t \<le> 0" | (chunked) "content \<noteq> []" "0 < tr_chunkSize t" by linarith
  then show ?thesis
  proof cases
    case empty
    then show ?thesis using m by (auto simp: makeFileBodyLocked_def NewEmptyFileBody_def body_data_def)
  next
    case whole
    then obtain h st where p: "put_hash (ve_codec env) (ve_nanos env) content (tr_store t) = (Inr h, st)"
      "b = NewBlobFileBody h (int (length content))" "t' = t\<lparr>tr_store := st\<rparr>"
      using m by (auto simp: makeFileBodyLocked_def split: prod.splits sum.splits)
    have "collision_free (ve_codec env) (take (length content) (drop 0 content))" using safe unfolding safe_content_def by blast
    then have "stored (ve_codec env) st h = Some content" using put_hash_ok [OF cd inv _ p(1)] by simp
    then show ?thesis using whole p blob_data by (simp add: NewBlobFileBody_def body_data_def)
  next
    case chunked
    then obtain st where "NewChunkedFileBody (put_hash (ve_codec env) (ve_nanos env)) content (Some (tr_store t)) (tr_chunkSize t) = (Inr b, Some st)"
      "t' = t\<lparr>tr_store := st\<rparr>"
      using m by (auto simp: makeFileBodyLocked_def NewChunkedFileBody_def Let_def split: prod.splits sum.splits option.splits)
    then show ?thesis
      using chunks.NewChunkedFileBody_ok [of "ve_codec env" "tr_store t" content "ve_nanos env" "tr_chunkSize t" b st host] cd inv safe
      by (simp add: safe_content_def)
  qed
qed

end
