(* ===== verification/Vfs_Spec.thy ===== *)
theory Vfs_Spec imports
  Vfs_Refs
begin

text \<open>
  A tree without an overlay refines a map from paths to entries. The abstract operations are the
  textbook ones, with one exception: renaming a directory into its own subtree loses it.
\<close>

section \<open>The abstract file system\<close>

datatype fs_entry = FDir file_mode | FFile file_mode bytes | FLink file_mode string

type_synonym fs = "string list \<Rightarrow> fs_entry option"

definition dir_at :: "fs \<Rightarrow> string list \<Rightarrow> bool" where
  "dir_at fs cs \<longleftrightarrow> (case fs cs of Some (FDir _) \<Rightarrow> True | _ \<Rightarrow> False)"

text \<open>Why a path cannot be resolved: its first ancestor that is not a directory, or the first part that is missing.\<close>

fun spec_walk :: "fs \<Rightarrow> string list \<Rightarrow> string list \<Rightarrow> tree_error option" where
  "spec_walk fs done [] = None"
| "spec_walk fs done (c # cs) =
     (if \<not> dir_at fs done then Some ErrNotDir
      else if fs (done @ [c]) = None then Some ErrNotExist
      else spec_walk fs (done @ [c]) cs)"

definition spec_dir :: "fs \<Rightarrow> string list \<Rightarrow> tree_error option" where
  "spec_dir fs cs = (case spec_walk fs [] cs of Some e \<Rightarrow> Some e | None \<Rightarrow> if dir_at fs cs then None else Some ErrNotDir)"

definition spec_create :: "string list \<Rightarrow> fs_entry \<Rightarrow> fs \<Rightarrow> tree_error option \<times> fs" where
  "spec_create p entry fs =
     (case spec_dir fs (butlast p) of
        Some e \<Rightarrow> (Some e, fs)
      | None \<Rightarrow> if fs p \<noteq> None then (Some ErrExist, fs) else (None, fs(p \<mapsto> entry)))"

definition new_dir :: "file_mode \<Rightarrow> fs_entry" where
  "new_dir mode = FDir (ModeDir OR mode AND ModePerm)"

fun spec_mkdirs :: "file_mode \<Rightarrow> string list \<Rightarrow> string list \<Rightarrow> fs \<Rightarrow> tree_error option \<times> fs" where
  "spec_mkdirs mode done [] fs = (None, fs)"
| "spec_mkdirs mode done (c # cs) fs =
     (case fs (done @ [c]) of
        None \<Rightarrow> spec_mkdirs mode (done @ [c]) cs (fs(done @ [c] \<mapsto> new_dir mode))
      | Some (FDir _) \<Rightarrow> spec_mkdirs mode (done @ [c]) cs fs
      | Some _ \<Rightarrow> (Some ErrNotDir, fs))"

definition spec_write :: "bool \<Rightarrow> string list \<Rightarrow> bytes \<Rightarrow> file_mode \<Rightarrow> fs \<Rightarrow> tree_error option \<times> fs" where
  "spec_write fits p content mode fs =
     (case spec_mkdirs 0x1ED [] (butlast p) fs of
        (Some e, fs) \<Rightarrow> (Some e, fs)
      | (None, fs) \<Rightarrow>
          if \<not> fits then (Some (ErrBody ErrMemoryPressure), fs)
          else case fs p of
              None \<Rightarrow> (None, fs(p \<mapsto> FFile (mode AND ModePerm) content))
            | Some (FFile m _) \<Rightarrow> (None, fs(p \<mapsto> FFile m content))
            | Some _ \<Rightarrow> (Some ErrIsDir, fs))"

definition without :: "string list \<Rightarrow> fs \<Rightarrow> fs" where
  "without p fs = (\<lambda>cs. if prefix p cs then None else fs cs)"

definition spec_remove :: "string list \<Rightarrow> fs \<Rightarrow> tree_error option \<times> fs" where
  "spec_remove p fs =
     (case spec_walk fs [] (butlast p) of
        Some e \<Rightarrow> (Some e, fs)
      | None \<Rightarrow>
          if fs p = None then (Some ErrNotExist, fs)
          else if \<exists>c. fs (p @ [c]) \<noteq> None then (Some ErrNotEmpty, fs)
          else (None, without p fs))"

definition spec_remove_all :: "string list \<Rightarrow> fs \<Rightarrow> tree_error option \<times> fs" where
  "spec_remove_all p fs =
     (case spec_walk fs [] (butlast p) of
        Some e \<Rightarrow> (if e = ErrNotExist then None else Some e, fs)
      | None \<Rightarrow> (None, without p fs))"

definition spec_rename :: "string list \<Rightarrow> string list \<Rightarrow> fs \<Rightarrow> tree_error option \<times> fs" where
  "spec_rename p q fs =
     (case spec_walk fs [] (butlast p) of
        Some e \<Rightarrow> (Some e, fs)
      | None \<Rightarrow>
          if fs p = None then (Some ErrNotExist, fs)
          else case spec_dir fs (butlast q) of
              Some e \<Rightarrow> (Some e, fs)
            | None \<Rightarrow>
                if fs q \<noteq> None then (Some ErrExist, fs)
                else if prefix p q then (None, without p fs)
                else (None, \<lambda>cs. if prefix q cs then fs (p @ drop (length q) cs) else without p fs cs))"

fun set_mode :: "file_mode \<Rightarrow> fs_entry \<Rightarrow> fs_entry" where
  "set_mode mode (FDir m) = FDir (m AND NOT ModePerm OR mode AND ModePerm)"
| "set_mode mode (FFile m d) = FFile (m AND NOT ModePerm OR mode AND ModePerm) d"
| "set_mode mode (FLink m target) = FLink (m AND NOT ModePerm OR mode AND ModePerm) target"

definition spec_chmod :: "string list \<Rightarrow> file_mode \<Rightarrow> fs \<Rightarrow> tree_error option \<times> fs" where
  "spec_chmod p mode fs =
     (case spec_walk fs [] p of Some e \<Rightarrow> (Some e, fs) | None \<Rightarrow> (None, fs(p := map_option (set_mode mode) (fs p))))"

definition spec_read :: "string list \<Rightarrow> fs \<Rightarrow> tree_error + bytes" where
  "spec_read p fs =
     (case spec_walk fs [] p of
        Some e \<Rightarrow> Inl e
      | None \<Rightarrow> (case fs p of Some (FFile m d) \<Rightarrow> Inr d | _ \<Rightarrow> Inl ErrIsDir))"

section \<open>Abstraction\<close>

definition entry_of :: "(hash \<Rightarrow> bytes option) \<Rightarrow> Inode \<Rightarrow> fs_entry" where
  "entry_of sto i =
     (case in_Kind i of
        EntryDir \<Rightarrow> FDir (in_Mode i)
      | EntrySymlink \<Rightarrow> FLink (in_Mode i) (in_LinkTarget i)
      | EntryFile \<Rightarrow>
          FFile (in_Mode i)
            (case in_Body i of None \<Rightarrow> [] | Some b \<Rightarrow> (case body_data sto no_host b of None \<Rightarrow> [] | Some d \<Rightarrow> d)))"

definition abs_fs :: "codec \<Rightarrow> tree \<Rightarrow> fs" where
  "abs_fs cd t cs = map_option (entry_of (stored cd (tr_store t))) (view (tr_root t) cs)"

text \<open>The state: well formed, no overlay, and every file's content in the store with its references.\<close>

definition data_ok :: "codec \<Rightarrow> tnode \<Rightarrow> chunk_store \<Rightarrow> bool" where
  "data_ok cd n s \<longleftrightarrow>
     chunk_inv cd s \<and> (\<forall>h. int (node_refs h n) \<le> RefCount s h) \<and>
     (\<forall>cs i b. view n cs = Some i \<longrightarrow> in_Body i = Some b \<longrightarrow> body_data (stored cd s) no_host b \<noteq> None)"

definition mem_ok :: "codec \<Rightarrow> tree \<Rightarrow> bool" where
  "mem_ok cd t \<longleftrightarrow> tree_ok t \<and> tr_hostRoot t = [] \<and> tr_whiteouts t = [] \<and> data_ok cd (tr_root t) (tr_store t)"

lemma exts_data_keep:
  "exts_data sto host xs = Some d \<Longrightarrow>
   (\<And>x. x \<in> set xs \<Longrightarrow> x_kind x = ExtentBlob \<Longrightarrow> sto (x_hash x) \<noteq> None \<Longrightarrow> sto' (x_hash x) = sto (x_hash x)) \<Longrightarrow>
   exts_data sto' host xs = Some d"
proof (induction xs arbitrary: d)
  case (Cons x xs)
  have "extent_data sto' host x = extent_data sto host x"
    using Cons.prems by (cases "x_kind x") (auto simp: extent_data_def split: option.splits)
  then show ?case using Cons by (auto split: option.splits)
qed simp

lemma view_refs_pos:
  assumes "node_wf n" "view n cs = Some i" "in_Body i = Some b" "x \<in> set (fb_extents b)" "x_kind x = ExtentBlob"
  shows "0 < node_refs (x_hash x) n"
proof -
  obtain m where m: "get_at n cs = Some m" "n_inode m = i" using assms(2) by (auto simp: view_def)
  have "filter (\<lambda>y. x_kind y = ExtentBlob \<and> x_hash y = x_hash x) (fb_extents b) \<noteq> []"
    using assms(4,5) by (auto simp: filter_empty_conv)
  then have "0 < inode_refs (x_hash x) (n_inode m)" using m(2) assms(3) by (simp add: inode_refs_def body_refs_def)
  then show ?thesis using refs_get_le [OF assms(1) m(1), of "x_hash x"] node_refs_eq [of "x_hash x" m] by linarith
qed

text \<open>What keeps the data: the store may only lose chunks the tree does not reference.\<close>

definition keeps :: "codec \<Rightarrow> chunk_store \<Rightarrow> chunk_store \<Rightarrow> bool" where
  "keeps cd s s' \<longleftrightarrow> chunk_inv cd s' \<and> (\<forall>h. 0 < RefCount s' h \<longrightarrow> stored cd s h \<noteq> None \<longrightarrow> stored cd s' h = stored cd s h)"

lemma keeps_refl: "chunk_inv cd s \<Longrightarrow> keeps cd s s"
  by (simp add: keeps_def)

lemma keeps_grows: "grows cd s d s' \<Longrightarrow> keeps cd s s'"
  by (simp add: keeps_def grows_def)

lemma keeps_shrinks: "shrinks cd s d s' \<Longrightarrow> keeps cd s s'"
  by (simp add: keeps_def shrinks_def released_def)

lemma body_data_keeps:
  assumes "node_wf n" "view n cs = Some i" "in_Body i = Some b" "body_data (stored cd s) no_host b = Some d"
    and "\<And>h. int (node_refs h n) \<le> RefCount s' h" "keeps cd s s'"
  shows "body_data (stored cd s') no_host b = Some d"
  unfolding body_data_def
proof (rule exts_data_keep)
  show "exts_data (stored cd s) no_host (fb_extents b) = Some d" using assms(4) by (simp add: body_data_def)
  fix x assume x: "x \<in> set (fb_extents b)" "x_kind x = ExtentBlob" "stored cd s (x_hash x) \<noteq> None"
  have "0 < RefCount s' (x_hash x)"
    using view_refs_pos [OF assms(1-3) x(1,2)] assms(5) [of "x_hash x"] by linarith
  then show "stored cd s' (x_hash x) = stored cd s (x_hash x)" using x(3) assms(6) by (simp add: keeps_def)
qed

lemma data_step:
  assumes wf: "node_wf n'" and refs: "\<And>h. int (node_refs h n') \<le> RefCount s' h" and k: "keeps cd s s'"
    and body: "\<And>cs i b. view n' cs = Some i \<Longrightarrow> in_Body i = Some b \<Longrightarrow>
      body_data (stored cd s) no_host b \<noteq> None \<or> body_data (stored cd s') no_host b \<noteq> None"
  shows "data_ok cd n' s'"
  unfolding data_ok_def
proof (intro conjI allI impI)
  show "chunk_inv cd s'" using k by (simp add: keeps_def)
  fix cs i b assume "view n' cs = Some i" "in_Body i = Some b"
  then show "body_data (stored cd s') no_host b \<noteq> None"
    using body body_data_keeps [OF wf _ _ _ refs k] by blast
qed (rule refs)

lemma entry_step:
  assumes "node_wf n'" "\<And>h. int (node_refs h n') \<le> RefCount s' h" "keeps cd s s'" "view n' cs = Some i"
    and "\<And>b. in_Body i = Some b \<Longrightarrow> body_data (stored cd s) no_host b \<noteq> None"
  shows "entry_of (stored cd s') i = entry_of (stored cd s) i"
proof (cases "in_Body i")
  case (Some b)
  then obtain d where "body_data (stored cd s) no_host b = Some d" using assms(5) by blast
  with body_data_keeps [OF assms(1,4) Some this assms(2,3)] Some show ?thesis
    by (cases "in_Kind i") (simp_all add: entry_of_def)
qed (simp add: entry_of_def split: EntryKind.split)

section \<open>Lookups\<close>

lemma abs_none: "abs_fs cd t cs = None \<longleftrightarrow> get_at (tr_root t) cs = None"
  by (simp add: abs_fs_def view_def)

lemma abs_dir: "get_at (tr_root t) cs = Some n \<Longrightarrow> dir_at (abs_fs cd t) cs \<longleftrightarrow> IsDir (n_inode n)"
  by (auto simp: dir_at_def abs_fs_def view_def entry_of_def IsDir_def split: EntryKind.split)

lemma abs_snoc: "get_at (tr_root t) cs = Some n \<Longrightarrow> abs_fs cd t (cs @ [c]) = None \<longleftrightarrow> child_of n c = None"
  by (simp add: abs_none get_at_snoc)

lemma spec_walk_found:
  "spec_walk (abs_fs cd t) done cs = None \<Longrightarrow> get_at (tr_root t) done \<noteq> None \<Longrightarrow> get_at (tr_root t) (done @ cs) \<noteq> None"
proof (induction cs arbitrary: "done")
  case (Cons c cs)
  then show ?case using Cons.IH [of "done @ [c]"] by (auto simp: abs_none split: if_splits)
qed simp

lemma mem_lookup_loop:
  assumes m: "mem_ok cd t"
  shows "get_at (tr_root t) done = Some n \<Longrightarrow> lookup_loop os done parts (Mem done, n) t =
    (case spec_walk (abs_fs cd t) done parts of
       Some e \<Rightarrow> Inl e
     | None \<Rightarrow> Inr (Mem (done @ parts), the (get_at (tr_root t) (done @ parts))), t)"
proof (induction parts arbitrary: "done" n)
  case (Cons part parts)
  have w: "isWhiteoutLocked t p = False" "tr_hostRoot t = []" for p
    using m by (simp_all add: mem_ok_def isWhiteoutLocked_def)
  show ?case
  proof (cases "child_of n part")
    case None
    then show ?thesis using w abs_dir [OF Cons.prems, of cd] abs_snoc [OF Cons.prems, of cd part] by (simp add: Let_def)
  next
    case (Some m)
    then have "get_at (tr_root t) (done @ [part]) = Some m" using Cons.prems by (simp add: get_at_snoc)
    from Cons.IH [OF this] Some show ?thesis
      using abs_dir [OF Cons.prems, of cd] abs_snoc [OF Cons.prems, of cd part] by (auto split: option.split)
  qed
qed simp

lemma mem_lookup:
  assumes m: "mem_ok cd t" and p: "cleanPath p = Inr (render cs)" "path_ok cs"
  shows "lookupLocked os p t =
    (case spec_walk (abs_fs cd t) [] cs of Some e \<Rightarrow> Inl e | None \<Rightarrow> Inr (Mem cs, the (get_at (tr_root t) cs)), t)"
  using mem_lookup_loop [OF m, of "[]" "tr_root t" os cs, unfolded append_Nil] p
  by (cases "cs = []") (simp_all add: lookupLocked_def splitNonEmpty_render path_ok_valid render_eq_root)

lemma mem_materialize_loop:
  assumes m: "mem_ok cd t"
  shows "get_at (tr_root t) done = Some n \<Longrightarrow> materialize_loop os done parts n t =
    (case spec_walk (abs_fs cd t) done parts of
       Some e \<Rightarrow> Inl e
     | None \<Rightarrow> if dir_at (abs_fs cd t) (done @ parts) then Inr (done @ parts, the (get_at (tr_root t) (done @ parts))) else Inl ErrNotDir, t)"
proof (induction parts arbitrary: "done" n)
  case (Cons part parts)
  have w: "isWhiteoutLocked t p = False" "tr_hostRoot t = []" for p
    using m by (simp_all add: mem_ok_def isWhiteoutLocked_def)
  show ?case
  proof (cases "child_of n part")
    case None
    then show ?thesis using w abs_dir [OF Cons.prems, of cd] abs_snoc [OF Cons.prems, of cd part] by (simp add: Let_def)
  next
    case (Some m)
    then have "get_at (tr_root t) (done @ [part]) = Some m" using Cons.prems by (simp add: get_at_snoc)
    from Cons.IH [OF this] Some show ?thesis
      using abs_dir [OF Cons.prems, of cd] abs_snoc [OF Cons.prems, of cd part] by (auto split: option.split)
  qed
qed (simp add: abs_dir)

lemma mem_materialize:
  assumes m: "mem_ok cd t" and p: "path_ok cs"
  shows "materializeDirLocked os (render cs) t =
    (case spec_dir (abs_fs cd t) cs of Some e \<Rightarrow> Inl e | None \<Rightarrow> Inr (cs, the (get_at (tr_root t) cs)), t)"
proof (cases "cs = []")
  case True
  have "dir_at (abs_fs cd t) []" using m abs_dir [of t "[]" "tr_root t" cd] by (simp add: mem_ok_def tree_ok_def)
  then show ?thesis using True cleanPath_render [OF p] by (simp add: materializeDirLocked_def spec_dir_def)
next
  case False
  then show ?thesis
    using mem_materialize_loop [OF m, of "[]" "tr_root t" os cs] p
    by (simp add: materializeDirLocked_def cleanPath_render splitNonEmpty_render path_ok_valid render_eq_root spec_dir_def
        split: option.split)
qed

lemma spec_dir_found:
  assumes "spec_dir (abs_fs cd t) cs = None"
  obtains n where "get_at (tr_root t) cs = Some n" "IsDir (n_inode n)"
proof -
  have w: "spec_walk (abs_fs cd t) [] cs = None" and d: "dir_at (abs_fs cd t) cs"
    using assms by (auto simp: spec_dir_def split: option.splits if_splits)
  from spec_walk_found [OF w] obtain n where n: "get_at (tr_root t) cs = Some n" by auto
  then show thesis using that d abs_dir by blast
qed

section \<open>Changes\<close>

lemma entry_of_ModTime [simp]: "entry_of sto (i\<lparr>in_ModTime := m\<rparr>) = entry_of sto i"
  by (cases "in_Kind i") (simp_all add: entry_of_def)

lemma inode_refs_ModTime [simp]: "inode_refs h (i\<lparr>in_ModTime := m\<rparr>) = inode_refs h i"
  by (simp add: inode_refs_def)

text \<open>One change of the tree and the store: every inode that is left has its data in the old store.\<close>

lemma mem_change:
  assumes m: "mem_ok cd t" and t': "tree_ok t'" "tr_hostRoot t' = []" "tr_whiteouts t' = []"
    and refs: "\<And>h. int (node_refs h (tr_root t')) \<le> RefCount (tr_store t') h" and k: "keeps cd (tr_store t) (tr_store t')"
    and data: "\<And>cs i b. view (tr_root t') cs = Some i \<Longrightarrow> in_Body i = Some b \<Longrightarrow> body_data (stored cd (tr_store t)) no_host b \<noteq> None"
  shows "mem_ok cd t'" "abs_fs cd t' cs = map_option (entry_of (stored cd (tr_store t))) (view (tr_root t') cs)"
proof -
  have wf: "node_wf (tr_root t')" using t'(1) by (simp add: tree_ok_def)
  have "data_ok cd (tr_root t') (tr_store t')" by (rule data_step [OF wf refs k]) (use data in blast)
  then show "mem_ok cd t'" using t' by (simp add: mem_ok_def)
  show "abs_fs cd t' cs = map_option (entry_of (stored cd (tr_store t))) (view (tr_root t') cs)"
    using entry_step [OF wf refs k _ data] by (cases "view (tr_root t') cs") (auto simp: abs_fs_def)
qed

lemma mem_okD:
  assumes "mem_ok cd t"
  shows "tree_ok t" "tr_hostRoot t = []" "tr_whiteouts t = []" "chunk_inv cd (tr_store t)" "node_wf (tr_root t)"
    "int (node_refs h (tr_root t)) \<le> RefCount (tr_store t) h"
    "view (tr_root t) cs = Some i \<Longrightarrow> in_Body i = Some b \<Longrightarrow> body_data (stored cd (tr_store t)) no_host b \<noteq> None"
  using assms unfolding mem_ok_def data_ok_def tree_ok_def by blast+

definition created :: "ChangeEvent \<Rightarrow> gotime \<Rightarrow> string list \<Rightarrow> string \<Rightarrow> tnode \<Rightarrow> tree \<Rightarrow> tree" where
  "created ev now cs c leaf t = notify ev (set_modTime (Mem cs) now (on_node (Mem cs) (put_child c leaf) t))"

lemma created_sel [simp]:
  "tr_hostRoot (created ev now cs c leaf t) = tr_hostRoot t" "tr_whiteouts (created ev now cs c leaf t) = tr_whiteouts t"
  "tr_store (created ev now cs c leaf t) = tr_store t" "tr_chunkSize (created ev now cs c leaf t) = tr_chunkSize t"
  by (simp_all add: created_def set_modTime_def)

lemma refs_modify_same:
  "node_wf n \<Longrightarrow> (\<And>m. node_refs h (f m) = node_refs h m) \<Longrightarrow> node_refs h (modify_at cs f n) = node_refs h n"
proof (induction cs arbitrary: n)
  case (Cons c cs)
  show ?case
  proof (cases "child_of n c")
    case (Some k)
    then have "node_refs h (modify_at cs f k) = node_refs h k" using Cons node_wf_child by blast
    then show ?thesis
      using refs_put_present [OF node_wf_root [OF Cons.prems(1)] Some, of h "modify_at cs f k"] Some by simp
  qed simp
qed simp

lemma set_modTime_refs:
  "node_wf n \<Longrightarrow> node_refs h (modify_at cs (on_inode (in_ModTime_update (\<lambda>_. now))) n) = node_refs h n"
proof (rule refs_modify_same)
  show "node_refs h (on_inode (in_ModTime_update (\<lambda>_. now)) m) = node_refs h m" for m
    using refs_on_inode [of h "in_ModTime_update (\<lambda>_. now)" m] by simp
qed

lemma mem_created:
  assumes m: "mem_ok cd t" and p: "get_at (tr_root t) cs = Some n" "IsDir (n_inode n)" "child_of n c = None"
    and leaf: "leaf = TNode i kids" "kids = None \<or> kids = Some []" and wf: "node_wf leaf" "valid_name c"
    and refs: "\<And>h. int (node_refs h (tr_root t) + inode_refs h i) \<le> RefCount (tr_store t) h"
    and data: "\<And>b. in_Body i = Some b \<Longrightarrow> body_data (stored cd (tr_store t)) no_host b \<noteq> None"
    and t1: "tr_root t1 = tr_root t" "tr_store t1 = tr_store t" "tr_hostRoot t1 = []" "tr_whiteouts t1 = []"
    and ok: "tree_ok (created ev now cs c leaf t1)"
  shows "mem_ok cd (created ev now cs c leaf t1)"
    "abs_fs cd (created ev now cs c leaf t1) = (abs_fs cd t)(cs @ [c] \<mapsto> entry_of (stored cd (tr_store t)) i)"
proof -
  let ?t' = "created ev now cs c leaf t1"
  have kids: "n_children n \<noteq> None" using dir_children [OF mem_okD(1) [OF m] p(1)] p(2) by simp
  have root: "tr_root ?t' = modify_at cs (on_inode (in_ModTime_update (\<lambda>_. now))) (modify_at cs (put_child c leaf) (tr_root t))"
    by (simp add: created_def set_modTime_def t1)
  have v: "view (tr_root ?t') ds =
      (if ds = cs then map_option (in_ModTime_update (\<lambda>_. now)) (view (tr_root t) ds)
       else if ds = cs @ [c] then Some i else view (tr_root t) ds)" for ds
  proof -
    have "view (tr_root t) (cs @ c # es) = None" for es
      using p(1,3) by (simp add: view_append view_Cons)
    moreover have "view leaf es = (if es = [] then Some i else None)" "n_inode leaf = i" for es using leaf view_leaf by auto
    ultimately show ?thesis
      unfolding root view_inode_at view_put_child [OF p(1) kids] by (auto simp: prefix_def)
  qed
  have wf: "node_wf (modify_at cs (put_child c leaf) (tr_root t))"
    using mem_okD(5) [OF m] node_wf_at [OF mem_okD(1) [OF m]] wf by (intro node_wf_modify node_wf_put) auto
  have "node_refs h (tr_root ?t') = node_refs h (tr_root t) + inode_refs h i" for h
  proof -
    have "node_refs h (put_child c leaf n) = node_refs h n + inode_refs h i"
      using refs_put_new [OF kids p(3), of h leaf] leaf by auto
    then show ?thesis
      using refs_modify [OF mem_okD(5) [OF m] p(1), of h "put_child c leaf"] unfolding root set_modTime_refs [OF wf] by simp
  qed
  then have r: "int (node_refs h (tr_root ?t')) \<le> RefCount (tr_store ?t') h" for h using refs [of h] t1 by simp
  have d: "body_data (stored cd (tr_store t)) no_host b \<noteq> None" if "view (tr_root ?t') ds = Some j" "in_Body j = Some b" for ds j b
    using that data mem_okD(7) [OF m] unfolding v by (auto split: if_splits)
  have k: "keeps cd (tr_store t) (tr_store ?t')" using keeps_refl [OF mem_okD(4) [OF m]] t1 by simp
  note ch = mem_change [OF m ok _ _ r k d]
  show "mem_ok cd ?t'" by (rule ch(1)) (use t1 in simp_all)
  have "abs_fs cd ?t' ds = map_option (entry_of (stored cd (tr_store t))) (view (tr_root ?t') ds)" for ds
    by (rule ch(2)) (use t1 in simp_all)
  then show "abs_fs cd ?t' = (abs_fs cd t)(cs @ [c] \<mapsto> entry_of (stored cd (tr_store t)) i)"
    unfolding v by (auto simp: abs_fs_def fun_eq_iff option.map_comp comp_def)
qed

section \<open>Each operation refines its specification\<close>

text \<open>The outcome of an operation of the tree, seen abstractly.\<close>

definition refines :: "codec \<Rightarrow> (tree_error + 'a) \<times> tree \<Rightarrow> tree_error option \<times> fs \<Rightarrow> bool" where
  "refines cd rt es \<longleftrightarrow> mem_ok cd (snd rt) \<and> (case fst rt of Inl e \<Rightarrow> Some e | Inr _ \<Rightarrow> None) = fst es \<and> abs_fs cd (snd rt) = snd es"

lemma refines_same [simp]: "refines cd (Inl e, t) (e', fs) \<longleftrightarrow> mem_ok cd t \<and> e' = Some e \<and> abs_fs cd t = fs"
  "refines cd (Inr x, t) (e', fs) \<longleftrightarrow> mem_ok cd t \<and> e' = None \<and> abs_fs cd t = fs"
  by (auto simp: refines_def)

lemma clearWhiteout_mem: "mem_ok cd t \<Longrightarrow> clearWhiteoutLocked p t = t"
  by (cases t) (simp add: mem_ok_def clearWhiteoutLocked_def split: sum.split)

lemma entry_new [simp]:
  "entry_of sto (dir_inode i mode now) = new_dir mode" "entry_of sto (link_inode i now target) = FLink (ModeSymlink OR 0x1FF) target"
  "inode_refs h (dir_inode i mode now) = 0" "inode_refs h (link_inode i now target) = 0"
  "in_Body (dir_inode i mode now) = None" "in_Body (link_inode i now target) = None"
  by (simp_all add: entry_of_def dir_inode_def link_inode_def new_dir_def inode_refs_def)

lemma created_ok:
  assumes m: "mem_ok cd t" and p: "get_at (tr_root t) cs = Some n" "IsDir (n_inode n)" and c: "valid_name c"
    and leaf: "leaf = TNode i kids" "kids = None \<or> kids = Some []" "node_wf leaf" "in_ID i = Suc (tr_alloc t)"
  shows "assign_child (Mem cs) n c leaf (t\<lparr>tr_alloc := Suc (tr_alloc t)\<rparr>) =
      (Inr (), on_node (Mem cs) (put_child c leaf) (t\<lparr>tr_alloc := Suc (tr_alloc t)\<rparr>))"
    "tree_ok (created ev now cs c leaf (t\<lparr>tr_alloc := Suc (tr_alloc t)\<rparr>))"
  using assign_new [OF mem_okD(1) [OF m] p c, of i kids "t\<lparr>tr_alloc := Suc (tr_alloc t)\<rparr>"] leaf
  by (auto simp: created_def tree_ok_set_modTime)

text \<open>A new directory or link.\<close>

lemma create_refines:
  assumes m: "mem_ok cd t" and p: "path_ok (cs @ [name])"
    and leaf: "\<And>i. node_wf (TNode (mk i) kids)" "\<And>i. in_ID (mk i) = i" "kids = None \<or> kids = Some []"
      "\<And>h i. inode_refs h (mk i) = 0" "\<And>i. in_Body (mk i) = None" "\<And>sto i. entry_of sto (mk i) = entry"
  shows "refines cd
    (case materializeDirLocked os (render cs) t of
       (Inl err, t) \<Rightarrow> (Inl err, t)
     | (Inr (cs', parent), t) \<Rightarrow>
         if child_of parent name \<noteq> None then (Inl ErrExist, t)
         else case assign_child (Mem cs') parent name (TNode (mk (tr_alloc t + 1)) kids)
                ((clearWhiteoutLocked clean t)\<lparr>tr_alloc := tr_alloc t + 1\<rparr>) of
             (Inl err, t) \<Rightarrow> (Inl err, t)
           | (Inr _, t) \<Rightarrow> (Inr (), notify ev (set_modTime (Mem cs') now t)))
    (spec_create (cs @ [name]) entry (abs_fs cd t))"
proof (cases "spec_dir (abs_fs cd t) cs")
  case (Some e)
  then show ?thesis using mem_materialize [OF m, of cs os] path_ok_snoc [OF p] m by (simp add: spec_create_def)
next
  case None
  then obtain n where n: "get_at (tr_root t) cs = Some n" "IsDir (n_inode n)" by (rule spec_dir_found)
  have mat: "materializeDirLocked os (render cs) t = (Inr (cs, n), t)"
    using mem_materialize [OF m, of cs os] path_ok_snoc [OF p] None n by simp
  have fs: "abs_fs cd t (cs @ [name]) = None \<longleftrightarrow> child_of n name = None" by (rule abs_snoc [OF n(1)])
  show ?thesis
  proof (cases "child_of n name")
    case free: None
    let ?leaf = "TNode (mk (Suc (tr_alloc t))) kids" and ?t1 = "t\<lparr>tr_alloc := Suc (tr_alloc t)\<rparr>"
    have v: "valid_name name" using path_ok_snoc [OF p] by simp
    note ok1 = created_ok(1) [OF m n v refl leaf(3) leaf(1) leaf(2)] and ok2 = created_ok(2) [OF m n v refl leaf(3) leaf(1) leaf(2), of ev now]
    have "mem_ok cd (created ev now cs name ?leaf ?t1)"
      "abs_fs cd (created ev now cs name ?leaf ?t1) = (abs_fs cd t)(cs @ [name] \<mapsto> entry_of (stored cd (tr_store t)) (mk (Suc (tr_alloc t))))"
      by (rule mem_created [OF m n free refl leaf(3) leaf(1) v _ _ _ _ _ _ ok2]; use leaf mem_okD [OF m] in simp)+
    then show ?thesis
      using mat free fs None ok1 leaf(6) by (simp add: spec_create_def clearWhiteout_mem [OF m] created_def)
  qed (use mat fs None m in \<open>simp add: spec_create_def\<close>)
qed

text \<open>A path given to an operation: not a path, the root, or an entry below it.\<close>

definition path_names :: "string \<Rightarrow> string list option" where
  "path_names p = (case cleanPath p of Inl _ \<Rightarrow> None | Inr c \<Rightarrow> Some (splitNonEmpty c))"

definition below_root :: "string \<Rightarrow> (string list \<Rightarrow> fs \<Rightarrow> tree_error option \<times> fs) \<Rightarrow> fs \<Rightarrow> tree_error option \<times> fs" where
  "below_root p f fs =
     (case path_names p of
        None \<Rightarrow> (Some ErrInvalidPath, fs)
      | Some cs \<Rightarrow> if cs = [] then (Some ErrInvalidPath, fs) else f cs fs)"

lemma op_path_cases:
  obtains (invalid) "cleanPath p = Inl ErrInvalidPath" "splitPath p = Inl ErrInvalidPath" "path_names p = None"
  | (root) "cleanPath p = Inr ''/''" "splitPath p = Inl ErrInvalidPath" "path_names p = Some []"
  | (parts) cs n where "cleanPath p = Inr (render (cs @ [n]))" "path_ok (cs @ [n])" "splitPath p = Inr (render cs, n)"
      "path_names p = Some (cs @ [n])" "render (cs @ [n]) \<noteq> ''/''"
proof (cases rule: cleanPath_cases [of p])
  case invalid
  then show thesis using that(1) by (simp add: splitPath_def path_names_def)
next
  case (clean ds)
  show thesis
  proof (cases ds rule: rev_cases)
    case Nil
    then show thesis using that(2) clean by (simp add: splitPath_def path_names_def splitNonEmpty_def)
  next
    case (snoc cs n)
    have "splitPath p = splitPath (render ds)"
      using clean(1) cleanPath_render [OF clean(2)] by (simp add: splitPath_def)
    moreover have "path_names p = Some ds"
      using clean splitNonEmpty_render [OF path_ok_valid [OF clean(2)]] by (simp add: path_names_def)
    ultimately show thesis
      using that(3) [of cs n] clean snoc splitPath_render [of cs n] render_eq_root [OF path_ok_valid [OF clean(2)]] by simp
  qed
qed

lemma Mkdir_refines:
  assumes m: "mem_ok cd t"
  shows "refines cd (Mkdir env p mode t) (below_root p (\<lambda>cs. spec_create cs (new_dir mode)) (abs_fs cd t))"
proof (cases rule: op_path_cases [of p])
  case (parts cs name)
  have b: "below_root p f fs = f (cs @ [name]) fs" for f fs using parts(4) by (simp add: below_root_def)
  show ?thesis
    unfolding Mkdir_def b parts(1,3) Let_def nextID_def sum.case prod.case clearWhiteout_sel
    by (rule create_refines [OF m parts(2)]) simp_all
qed (use m in \<open>simp_all add: Mkdir_def below_root_def\<close>)

lemma Symlink_refines:
  assumes m: "mem_ok cd t"
  shows "refines cd (Symlink env target p t) (below_root p (\<lambda>cs. spec_create cs (FLink (ModeSymlink OR 0x1FF) target)) (abs_fs cd t))"
proof (cases rule: op_path_cases [of p])
  case (parts cs name)
  have b: "below_root p f fs = f (cs @ [name]) fs" for f fs using parts(4) by (simp add: below_root_def)
  show ?thesis
    unfolding Symlink_def b parts(1,3) Let_def nextID_def sum.case prod.case clearWhiteout_sel
    by (rule create_refines [OF m parts(2)]) (simp_all add: link_node_wf)
qed (use m in \<open>simp_all add: Symlink_def below_root_def\<close>)

text \<open>Missing parents.\<close>

lemma fresh_dir_created:
  "fresh_dir env mode cs c t = created (change_event (''/'' @ join_slash (cs @ [c])) OpMkdir (ve_now env)) (ve_now env) cs c
     (TNode (dir_inode (Suc (tr_alloc t)) mode (ve_now env)) (Some [])) ((clearWhiteoutLocked (''/'' @ join_slash (cs @ [c])) t)\<lparr>tr_alloc := Suc (tr_alloc t)\<rparr>)"
  by (simp add: fresh_dir_def created_def Let_def)

lemma mem_fresh_dir:
  assumes m: "mem_ok cd t" and n: "get_at (tr_root t) cs = Some n" "IsDir (n_inode n)" "child_of n c = None" and v: "valid_name c"
  shows "mem_ok cd (fresh_dir env mode cs c t)" "abs_fs cd (fresh_dir env mode cs c t) = (abs_fs cd t)(cs @ [c] \<mapsto> new_dir mode)"
    "tr_store (fresh_dir env mode cs c t) = tr_store t" "tr_chunkSize (fresh_dir env mode cs c t) = tr_chunkSize t"
proof -
  have ok: "tree_ok (fresh_dir env mode cs c t)" by (rule fresh_dir_ok(1) [OF mem_okD(1) [OF m] n(1,2) v])
  note f = fresh_dir_created [of env mode cs c t, unfolded clearWhiteout_mem [OF m]]
  have "mem_ok cd (fresh_dir env mode cs c t) \<and>
      abs_fs cd (fresh_dir env mode cs c t) = (abs_fs cd t)(cs @ [c] \<mapsto> entry_of (stored cd (tr_store t)) (dir_inode (Suc (tr_alloc t)) mode (ve_now env)))"
    unfolding f
    by (intro conjI; rule mem_created [OF m n refl _ dir_node_wf v _ _ _ _ _ _ ok [unfolded f]]; use mem_okD [OF m] in simp)
  then show "mem_ok cd (fresh_dir env mode cs c t)" "abs_fs cd (fresh_dir env mode cs c t) = (abs_fs cd t)(cs @ [c] \<mapsto> new_dir mode)"
    by simp_all
  show "tr_store (fresh_dir env mode cs c t) = tr_store t" "tr_chunkSize (fresh_dir env mode cs c t) = tr_chunkSize t"
    unfolding f by simp_all
qed

lemma mkdirall_refines:
  "mem_ok cd t \<Longrightarrow> get_at (tr_root t) done = Some n \<Longrightarrow> IsDir (n_inode n) \<Longrightarrow> list_all valid_name parts \<Longrightarrow>
    refines cd (mkdirall_loop env mode done parts n t) (spec_mkdirs mode done parts (abs_fs cd t)) \<and>
    tr_store (snd (mkdirall_loop env mode done parts n t)) = tr_store t \<and>
    tr_chunkSize (snd (mkdirall_loop env mode done parts n t)) = tr_chunkSize t"
proof (induction parts arbitrary: "done" n t)
  case (Cons part parts)
  have v: "valid_name part" "list_all valid_name parts" using Cons.prems by simp_all
  note m = Cons.prems(1) and n = Cons.prems(2,3)
  show ?case
  proof (cases "child_of n part")
    case (Some k)
    then have k: "get_at (tr_root t) (done @ [part]) = Some k" using n(1) by (simp add: get_at_snoc)
    then have e: "abs_fs cd t (done @ [part]) = Some (entry_of (stored cd (tr_store t)) (n_inode k))"
      by (simp add: abs_fs_def view_def)
    show ?thesis
    proof (cases "IsDir (n_inode k)")
      case True
      then have "entry_of (stored cd (tr_store t)) (n_inode k) = FDir (in_Mode (n_inode k))"
        by (simp add: entry_of_def IsDir_def)
      then show ?thesis using Cons.IH [OF m k True v(2)] Some True e by simp
    next
      case False
      then have "\<exists>x y. entry_of (stored cd (tr_store t)) (n_inode k) = FFile x y \<or> entry_of (stored cd (tr_store t)) (n_inode k) = FLink x y"
        by (cases "in_Kind (n_inode k)") (auto simp: entry_of_def IsDir_def)
      then show ?thesis using Some False e m by auto
    qed
  next
    case None
    have kids: "n_children n \<noteq> None" using dir_children [OF mem_okD(1) [OF m] n(1)] n(2) by blast
    note f = mem_fresh_dir [OF m n None v(1), of env mode] and g = fresh_dir_ok(2) [OF mem_okD(1) [OF m] n v(1), of env mode]
    have "abs_fs cd t (done @ [part]) = None" using abs_snoc [OF n(1)] None by blast
    then show ?thesis
      using Cons.IH [OF f(1) g _ v(2), unfolded f(2-4)] mem_okD(2) [OF m] unfolding mkdirall_None [OF None kids]
      by (simp add: Let_def fun_upd_def)
  qed
qed simp

lemma MkdirAll_refines:
  assumes m: "mem_ok cd t" and p: "path_names p = Some cs"
  shows "refines cd (MkdirAll env p mode t) (spec_mkdirs mode [] cs (abs_fs cd t)) \<and>
    tr_store (snd (MkdirAll env p mode t)) = tr_store t \<and> tr_chunkSize (snd (MkdirAll env p mode t)) = tr_chunkSize t"
proof -
  obtain c where c: "cleanPath p = Inr c" "cs = splitNonEmpty c" using p by (auto simp: path_names_def split: sum.splits)
  from c obtain ds where "c = render ds" "path_ok ds" by (cases rule: cleanPath_cases [of p]) auto
  then have "cs = ds" using c splitNonEmpty_render path_ok_valid by simp
  then show ?thesis
    using mkdirall_refines [OF m, of "[]" "tr_root t" cs env mode] mem_okD(1) [OF m] c \<open>c = render ds\<close> \<open>path_ok ds\<close> m
    by (cases "cs = []") (simp_all add: MkdirAll_def tree_ok_def path_ok_valid render_eq_root)
qed

end
