(* ===== verification/Vfs_Refine.thy ===== *)
theory Vfs_Refine imports
  Vfs_Spec
begin

text \<open>
  Writing, removing, renaming and reading refine the abstract file system, and with them every
  operation of a tree without an overlay.
\<close>

section \<open>Writing\<close>

definition fits :: "vfs_env \<Rightarrow> bytes \<Rightarrow> tree \<Rightarrow> bool" where
  "fits env content t \<longleftrightarrow> (case fst (makeFileBodyLocked env content t) of Inl _ \<Rightarrow> False | Inr _ \<Rightarrow> True)"

lemma fits_cong: "tr_store t' = tr_store t \<Longrightarrow> tr_chunkSize t' = tr_chunkSize t \<Longrightarrow> fits env content t' = fits env content t"
  by (auto simp: fits_def makeFileBodyLocked_def split: prod.split sum.split option.split)

text \<open>Storing the content leaves the tree as it was and makes room for the new body's references.\<close>

lemma mem_stored:
  assumes m: "mem_ok (ve_codec env) t" and cd: "codec_ok (ve_codec env)" and b: "makeFileBodyLocked env content t = (r, t')"
  shows "mem_ok (ve_codec env) t'" "abs_fs (ve_codec env) t' = abs_fs (ve_codec env) t" "tr_root t' = tr_root t"
    "r = Inr body \<Longrightarrow> int (node_refs h (tr_root t') + body_refs h body) \<le> RefCount (tr_store t') h"
proof -
  obtain st where t': "t' = t\<lparr>tr_store := st\<rparr>" using makeFileBody_ok(1) [OF b] ..
  from makeFileBody_grows(1) [OF cd mem_okD(4) [OF m] b] obtain d where
    g: "grows (ve_codec env) (tr_store t) d st" and d: "\<And>b h. r = Inr b \<Longrightarrow> body_refs h b = d h" using t' by auto
  have le: "int (node_refs h (tr_root t) + d h) \<le> RefCount st h" for h
    using mem_okD(6) [OF m, of h] g by (simp add: grows_def) (smt (verit))
  have r: "int (node_refs h (tr_root t')) \<le> RefCount (tr_store t') h" for h using le [of h] t' by simp
  have ok: "tree_ok t'" "tr_hostRoot t' = []" "tr_whiteouts t' = []" using mem_okD(1-3) [OF m] t' by simp_all
  have k: "keeps (ve_codec env) (tr_store t) (tr_store t')" using keeps_grows [OF g] t' by simp
  note ch = mem_change [OF m ok r k]
  show "mem_ok (ve_codec env) t'" by (rule ch(1)) (use mem_okD(7) [OF m] t' in simp)
  have "abs_fs (ve_codec env) t' cs = abs_fs (ve_codec env) t cs" for cs
    using ch(2) [of cs] mem_okD(7) [OF m] t' by (simp add: abs_fs_def)
  then show "abs_fs (ve_codec env) t' = abs_fs (ve_codec env) t" by (simp add: fun_eq_iff)
  show "tr_root t' = tr_root t" using t' by simp
  show "int (node_refs h (tr_root t') + body_refs h body) \<le> RefCount (tr_store t') h" if "r = Inr body"
    using le [of h] d [OF that] t' by simp
qed

lemma mem_overwrite:
  assumes m: "mem_ok cd t" and at: "get_at (tr_root t) cs = Some n" "IsFile (n_inode n)"
    and refs: "\<And>h. int (node_refs h (tr_root t) + body_refs h body) \<le> RefCount (tr_store t) h"
    and data: "body_data (stored cd (tr_store t)) no_host body = Some content"
    and ok: "tree_ok (on_node (Mem cs) (on_inode (\<lambda>i. i\<lparr>in_Body := Some body, in_ModTime := now\<rparr>)) t)" (is "tree_ok ?t'")
  shows "mem_ok cd ?t'" "abs_fs cd ?t' = (abs_fs cd t)(cs \<mapsto> FFile (in_Mode (n_inode n)) content)"
proof -
  let ?f = "\<lambda>i. i\<lparr>in_Body := Some body, in_ModTime := now\<rparr>"
  have v: "view (tr_root ?t') ds = (if ds = cs then Some (?f (n_inode n)) else view (tr_root t) ds)" for ds
    using at(1) by (simp add: view_inode_at view_here)
  have "node_refs h (tr_root ?t') + inode_refs h (n_inode n) = node_refs h (tr_root t) + body_refs h body" for h
  proof -
    have "node_refs h (on_inode ?f n) + inode_refs h (n_inode n) = node_refs h n + body_refs h body"
      using refs_on_inode [of h ?f n] by (simp add: inode_refs_def)
    then show ?thesis using refs_modify [OF mem_okD(5) [OF m] at(1), of h "on_inode ?f"] by simp
  qed
  then have r: "int (node_refs h (tr_root ?t')) \<le> RefCount (tr_store ?t') h" for h
    using refs [of h] by (metis (no_types, lifting) le_add1 of_nat_mono on_node_sel(2) order_trans)
  have d: "body_data (stored cd (tr_store t)) no_host b \<noteq> None" if "view (tr_root ?t') ds = Some j" "in_Body j = Some b" for ds j b
    using that data mem_okD(7) [OF m] unfolding v by (auto split: if_splits)
  have k: "keeps cd (tr_store t) (tr_store ?t')" using keeps_refl [OF mem_okD(4) [OF m]] by simp
  note ch = mem_change [OF m ok _ _ r k d]
  show "mem_ok cd ?t'" by (rule ch(1)) (use mem_okD(2,3) [OF m] in simp_all)
  have "abs_fs cd ?t' ds = map_option (entry_of (stored cd (tr_store t))) (view (tr_root ?t') ds)" for ds
    by (rule ch(2)) (use mem_okD(2,3) [OF m] in simp_all)
  moreover have "entry_of (stored cd (tr_store t)) (?f (n_inode n)) = FFile (in_Mode (n_inode n)) content"
    using at(2) data by (simp add: entry_of_def IsFile_def)
  ultimately show "abs_fs cd ?t' = (abs_fs cd t)(cs \<mapsto> FFile (in_Mode (n_inode n)) content)"
    unfolding v by (auto simp: abs_fs_def fun_eq_iff)
qed

lemma notify_mem [simp]: "mem_ok cd (notify ev t) = mem_ok cd t" "abs_fs cd (notify ev t) = abs_fs cd t"
  by (simp_all add: mem_ok_def abs_fs_def fun_eq_iff)

lemma write_locked_refines:
  assumes m: "mem_ok (ve_codec env) t" and cd: "codec_ok (ve_codec env)" and safe: "safe_content (ve_codec env) content"
    and p: "path_ok (cs @ [name])" and dir: "spec_dir (abs_fs (ve_codec env) t) cs = None"
  shows "refines (ve_codec env) (write_locked env clean (render cs) name content mode t)
    (if \<not> fits env content t then (Some (ErrBody ErrMemoryPressure), abs_fs (ve_codec env) t)
     else case abs_fs (ve_codec env) t (cs @ [name]) of
         None \<Rightarrow> (None, (abs_fs (ve_codec env) t)(cs @ [name] \<mapsto> FFile (mode AND ModePerm) content))
       | Some (FFile mo _) \<Rightarrow> (None, (abs_fs (ve_codec env) t)(cs @ [name] \<mapsto> FFile mo content))
       | Some _ \<Rightarrow> (Some ErrIsDir, abs_fs (ve_codec env) t))"
proof -
  let ?cd = "ve_codec env" and ?now = "ve_now env"
  obtain n where n: "get_at (tr_root t) cs = Some n" "IsDir (n_inode n)" using dir by (rule spec_dir_found)
  have mat: "materializeDirLocked (ve_os env) (render cs) t = (Inr (cs, n), t)"
    using mem_materialize [OF m, of cs "ve_os env"] path_ok_snoc [OF p] dir n by simp
  obtain r t2 where b: "makeFileBodyLocked env content t = (r, t2)" by fastforce
  note st = mem_stored [OF m cd b]
  note cw = clearWhiteout_mem [OF st(1)]
  have wok: "tree_ok (snd (write_locked env clean (render cs) name content mode t))"
    using write_locked_ok [OF mem_okD(1) [OF m] p] by (simp add: safe_step_def)
  show ?thesis
  proof (cases r)
    case (Inl e)
    then show ?thesis
      using makeFileBody_grows(2) [OF cd mem_okD(4) [OF m] b] mat b st by (simp add: write_locked_def fits_def)
  next
    case (Inr body)
    have f: "fits env content t" using b Inr by (simp add: fits_def)
    have data: "body_data (stored ?cd (tr_store t2)) no_host body = Some content"
      using makeFileBody_data [OF cd mem_okD(4) [OF m] safe] b Inr by blast
    note refs = st(4) [OF Inr]
    show ?thesis
    proof (cases "child_of n name")
      case None
      let ?i = "file_inode (Suc (tr_alloc t2)) mode ?now body" and ?t3 = "t2\<lparr>tr_alloc := Suc (tr_alloc t2)\<rparr>"
      let ?ev = "change_event clean OpWrite ?now"
      have n2: "get_at (tr_root t2) cs = Some n" using n(1) st(3) by simp
      have fs: "abs_fs ?cd t (cs @ [name]) = None" using abs_snoc [OF n(1)] None by blast
      have wf: "node_wf (TNode ?i None)" using file_node_wf makeFileBody_ok(2) [OF b Inr] by simp
      have v: "valid_name name" using path_ok_snoc [OF p] by simp
      note ok1 = created_ok(1) [OF st(1) n2 n(2) v refl disjI1 [OF refl] wf new_inode_ID(2)]
        and ok2 = created_ok(2) [OF st(1) n2 n(2) v refl disjI1 [OF refl] wf new_inode_ID(2), of ?ev ?now]
      have e: "entry_of (stored ?cd (tr_store t2)) ?i = FFile (mode AND ModePerm) content" "inode_refs h ?i = body_refs h body"
        "in_Body ?i = Some body" for h
        using data by (simp_all add: entry_of_def file_inode_def inode_refs_def)
      have "mem_ok ?cd (created ?ev ?now cs name (TNode ?i None) ?t3) \<and>
        abs_fs ?cd (created ?ev ?now cs name (TNode ?i None) ?t3) = (abs_fs ?cd t2)(cs @ [name] \<mapsto> entry_of (stored ?cd (tr_store t2)) ?i)"
        by (intro conjI; rule mem_created [OF st(1) n2 n(2) None refl _ wf v _ _ _ _ _ _ ok2]; use e refs data mem_okD [OF st(1)] in simp)
      then show ?thesis
        using mat b Inr None fs f ok1 cw e(1) st(2) by (simp add: write_locked_def Let_def nextID_def created_def)
    next
      case (Some k)
      have k: "get_at (tr_root t2) (cs @ [name]) = Some k" using n(1) Some st(3) by (simp add: get_at_snoc)
      have fs: "abs_fs ?cd t (cs @ [name]) = Some (entry_of (stored ?cd (tr_store t2)) (n_inode k))"
        using k st(2) by (metis abs_fs_def option.simps(9) view_here)
      show ?thesis
      proof (cases "IsFile (n_inode k)")
        case True
        let ?t3 = "on_node (Mem (cs @ [name])) (on_inode (\<lambda>i. i\<lparr>in_Body := Some body, in_ModTime := ?now\<rparr>)) t2"
        have w: "write_locked env clean (render cs) name content mode t = (Inr (), notify (change_event clean OpWrite ?now) ?t3)"
          using mat b Inr Some True cw by (simp add: write_locked_def Let_def)
        have ok: "tree_ok ?t3" using wok w by simp
        obtain x where "entry_of (stored ?cd (tr_store t2)) (n_inode k) = FFile (in_Mode (n_inode k)) x"
          using True by (simp add: entry_of_def IsFile_def)
        then show ?thesis using mem_overwrite [OF st(1) k True refs data ok] w f fs st(2) by simp
      next
        case False
        then have "\<exists>x y. entry_of (stored ?cd (tr_store t2)) (n_inode k) = FDir x \<or> entry_of (stored ?cd (tr_store t2)) (n_inode k) = FLink x y"
          by (cases "in_Kind (n_inode k)") (auto simp: entry_of_def IsFile_def)
        then show ?thesis using mat b Inr Some False cw f fs st by (auto simp: write_locked_def Let_def)
      qed
    qed
  qed
qed

lemma spec_mkdirs_dir:
  "spec_mkdirs mode done cs fs = (None, fs') \<Longrightarrow> dir_at fs done \<Longrightarrow>
   spec_walk fs' done cs = None \<and> dir_at fs' (done @ cs) \<and> (\<forall>ds. dir_at fs ds \<longrightarrow> dir_at fs' ds)"
proof (induction cs arbitrary: "done" fs)
  case (Cons c cs)
  have step: ?case if s: "spec_mkdirs mode (done @ [c]) cs fs2 = (None, fs')" and d: "dir_at fs2 (done @ [c])"
    and keep: "\<And>ds. dir_at fs ds \<Longrightarrow> dir_at fs2 ds" for fs2
  proof -
    from Cons.IH [OF s d] have ih: "spec_walk fs' (done @ [c]) cs = None" "dir_at fs' (done @ c # cs)" "\<And>ds. dir_at fs2 ds \<Longrightarrow> dir_at fs' ds"
      by auto
    moreover have "fs' (done @ [c]) \<noteq> None" using ih(3) [OF d] by (auto simp: dir_at_def split: option.splits)
    ultimately show ?thesis using keep Cons.prems(2) by simp
  qed
  show ?case
  proof (cases "fs (done @ [c])")
    case None
    let ?fs2 = "fs(done @ [c] \<mapsto> new_dir mode)"
    have "dir_at ?fs2 (done @ [c])" "dir_at fs ds \<Longrightarrow> dir_at ?fs2 ds" for ds by (simp_all add: dir_at_def new_dir_def)
    then show ?thesis using step [of ?fs2] Cons.prems(1) None by simp
  next
    case (Some e)
    then have e: "dir_at fs (done @ [c])" "spec_mkdirs mode (done @ [c]) cs fs = (None, fs')"
      using Cons.prems(1) by (cases e; simp add: dir_at_def)+
    show ?thesis by (rule step [OF e(2,1)])
  qed
qed simp

lemma spec_dir_made:
  "spec_mkdirs mode [] cs fs = (None, fs') \<Longrightarrow> dir_at fs [] \<Longrightarrow> spec_dir fs' cs = None"
  using spec_mkdirs_dir [of mode "[]" cs fs fs'] by (simp add: spec_dir_def)

lemma root_dir: "mem_ok cd t \<Longrightarrow> dir_at (abs_fs cd t) []"
  using abs_dir [of t "[]" "tr_root t" cd] by (simp add: mem_ok_def tree_ok_def)

lemma path_names_render: "path_ok cs \<Longrightarrow> path_names (render cs) = Some cs"
  by (simp add: path_names_def cleanPath_render splitNonEmpty_render path_ok_valid)

lemma Write_refines:
  assumes m: "mem_ok (ve_codec env) t" and cd: "codec_ok (ve_codec env)" and safe: "safe_content (ve_codec env) content"
  shows "refines (ve_codec env) (Write env p content mode t)
    (below_root p (\<lambda>cs. spec_write (fits env content t) cs content mode) (abs_fs (ve_codec env) t))"
proof (cases rule: op_path_cases [of p])
  case (parts cs name)
  let ?cd = "ve_codec env"
  have b: "below_root p f fs = f (cs @ [name]) fs" for f fs using parts(4) by (simp add: below_root_def)
  obtain r t1 where mk: "MkdirAll env (render cs) 0x1ED t = (r, t1)" by fastforce
  obtain e fs1 where sp: "spec_mkdirs 0x1ED [] cs (abs_fs ?cd t) = (e, fs1)" by fastforce
  have "path_names (render cs) = Some cs" using path_ok_snoc [OF parts(2)] by (simp add: path_names_render)
  from MkdirAll_refines [OF m this, of env "0x1ED"] have r: "refines ?cd (r, t1) (e, fs1)" "fits env content t1 = fits env content t"
    using mk sp fits_cong [of t1 t] by simp_all
  show ?thesis
  proof (cases r)
    case (Inl err)
    then show ?thesis using r mk sp parts by (simp add: Write_def b spec_write_def)
  next
    case (Inr u)
    then have t1: "mem_ok ?cd t1" "e = None" "fs1 = abs_fs ?cd t1" using r by simp_all
    have "spec_dir (abs_fs ?cd t1) cs = None" using spec_dir_made [OF sp [unfolded t1(2,3)] root_dir [OF m]] .
    from write_locked_refines [OF t1(1) cd safe parts(2) this] show ?thesis
      using Inr mk sp parts r(2) t1 by (simp add: Write_def b spec_write_def)
  qed
qed (use m in \<open>simp_all add: Write_def below_root_def\<close>)

section \<open>Removing\<close>

lemma mem_removed:
  fixes now :: gotime
  assumes m: "mem_ok cd t" and n: "get_at (tr_root t) cs = Some n" and k: "child_of n c = Some target"
    and sh: "shrinks cd (tr_store t) (\<lambda>h. node_refs h target) st"
  defines "t' \<equiv> set_modTime (Mem cs) now (on_node (Mem cs) (del_child c) (t\<lparr>tr_store := st\<rparr>))"
  shows "mem_ok cd t'" "abs_fs cd t' = without (cs @ [c]) (abs_fs cd t)"
proof -
  have root: "tr_root t' = modify_at cs (on_inode (in_ModTime_update (\<lambda>_. now))) (modify_at cs (del_child c) (tr_root t))"
    and sel: "tr_store t' = st" "tr_hostRoot t' = []" "tr_whiteouts t' = []"
    using mem_okD(2,3) [OF m] by (simp_all add: t'_def set_modTime_def)
  have ok: "tree_ok t'"
    unfolding t'_def using tree_ok_del [of "t\<lparr>tr_store := st\<rparr>" cs n c] mem_okD(1) [OF m] n by (intro tree_ok_set_modTime) simp
  have v: "view (tr_root t') ds = (if ds = cs then map_option (in_ModTime_update (\<lambda>_. now)) (view (tr_root t) ds)
      else if prefix (cs @ [c]) ds then None else view (tr_root t) ds)" for ds
    unfolding root view_inode_at view_del_child [OF n] by auto
  have wf: "node_wf (modify_at cs (del_child c) (tr_root t))"
    using mem_okD(5) [OF m] node_wf_at [OF mem_okD(1) [OF m]] by (intro node_wf_modify node_wf_del) auto
  have refs: "node_refs h (tr_root t') + node_refs h target = node_refs h (tr_root t)" for h
  proof -
    have "node_ok n" using node_wf_root [OF node_wf_at [OF mem_okD(1) [OF m] n]] .
    then have "node_refs h (del_child c n) + node_refs h target = node_refs h n" using refs_del k by blast
    then show ?thesis
      using refs_modify [OF mem_okD(5) [OF m] n, of h "del_child c"] unfolding root set_modTime_refs [OF wf] by simp
  qed
  have r: "int (node_refs h (tr_root t')) \<le> RefCount (tr_store t') h" for h
    using refs [of h] mem_okD(6) [OF m, of h] sh unfolding sel shrinks_def released_def by (smt (verit) of_nat_0_le_iff of_nat_add)
  have d: "body_data (stored cd (tr_store t)) no_host b \<noteq> None" if "view (tr_root t') ds = Some j" "in_Body j = Some b" for ds j b
    using that mem_okD(7) [OF m] unfolding v by (auto split: if_splits)
  have kp: "keeps cd (tr_store t) (tr_store t')" using keeps_shrinks [OF sh] sel by simp
  show "mem_ok cd t'" by (rule mem_change(1) [OF m ok sel(2,3) r kp d])
  have "abs_fs cd t' ds = map_option (entry_of (stored cd (tr_store t))) (view (tr_root t') ds)" for ds
    by (rule mem_change(2) [OF m ok sel(2,3) r kp d])
  then have "abs_fs cd t' ds = without (cs @ [c]) (abs_fs cd t) ds" for ds
    unfolding v
    by (auto simp: abs_fs_def without_def option.map_comp comp_def prefix_def)
  then show "abs_fs cd t' = without (cs @ [c]) (abs_fs cd t)" by (simp add: fun_eq_iff)
qed

lemma child_exists: "n_children n \<noteq> None \<and> n_children n \<noteq> Some [] \<longleftrightarrow> (\<exists>c. child_of n c \<noteq> None)"
  by (cases n; cases "n_children n"; cases "the (n_children n)") (auto simp: child_of_def)

lemma abs_children:
  "get_at (tr_root t) p = Some n \<Longrightarrow> (\<exists>c. abs_fs cd t (p @ [c]) \<noteq> None) \<longleftrightarrow> n_children n \<noteq> None \<and> n_children n \<noteq> Some []"
  unfolding child_exists by (simp add: abs_snoc)

text \<open>Looking up the parent, and the entry in it.\<close>

lemma parent_cases:
  assumes m: "mem_ok cd t" and p: "path_ok (cs @ [name])"
  obtains (stuck) e where "spec_walk (abs_fs cd t) [] cs = Some e" "lookupLocked os (render cs) t = (Inl e, t)"
  | (missing) n where "spec_walk (abs_fs cd t) [] cs = None" "lookupLocked os (render cs) t = (Inr (Mem cs, n), t)"
      "get_at (tr_root t) cs = Some n" "child_of n name = None" "abs_fs cd t (cs @ [name]) = None"
  | (found) n k where "spec_walk (abs_fs cd t) [] cs = None" "lookupLocked os (render cs) t = (Inr (Mem cs, n), t)"
      "get_at (tr_root t) cs = Some n" "child_of n name = Some k" "abs_fs cd t (cs @ [name]) \<noteq> None" "get_at (tr_root t) (cs @ [name]) = Some k"
proof (cases "spec_walk (abs_fs cd t) [] cs")
  case None
  have po: "path_ok cs" using path_ok_snoc [OF p] by simp
  obtain n where n: "get_at (tr_root t) cs = Some n" using spec_walk_found [OF None] by auto
  then have "lookupLocked os (render cs) t = (Inr (Mem cs, n), t)" using mem_lookup [OF m cleanPath_render [OF po] po] None by simp
  then show thesis using that(2,3) None n abs_snoc [OF n, of cd name] by (cases "child_of n name") (auto simp: get_at_snoc)
next
  case (Some e)
  have po: "path_ok cs" using path_ok_snoc [OF p] by simp
  then show thesis using that(1) mem_lookup [OF m cleanPath_render [OF po] po] Some by simp
qed

lemma Remove_refines:
  assumes m: "mem_ok cd t"
  shows "refines cd (Remove env p t) (below_root p spec_remove (abs_fs cd t))"
proof (cases rule: op_path_cases [of p])
  case (parts cs name)
  have b: "below_root p f fs = f (cs @ [name]) fs" for f fs using parts(4) by (simp add: below_root_def)
  have h: "tr_hostRoot t = []" using mem_okD(2) [OF m] .
  show ?thesis
  proof (rule parent_cases [OF m parts(2), where os = "ve_os env"], goal_cases stuck missing found)
    case (found n k)
    let ?full = "n_children k \<noteq> None \<and> n_children k \<noteq> Some []"
    have full: "(\<exists>c. abs_fs cd t ((cs @ [name]) @ [c]) \<noteq> None) \<longleftrightarrow> ?full" by (rule abs_children [OF found(6)])
    have dir: "IsDir (n_inode k) \<longleftrightarrow> n_children k \<noteq> None"
      using node_wf_root [OF node_wf_at [OF mem_okD(1) [OF m] found(6)]] by (simp add: node_ok_def)
    show ?thesis
    proof (cases ?full)
      case True
      then show ?thesis using full dir found parts m by (auto simp: Remove_def b spec_remove_def)
    next
      case False
      have "node_refs h k = inode_refs h (n_inode k)" for h using False by (cases k) auto
      then have sh: "shrinks cd (tr_store t) (\<lambda>h. node_refs h k) (releaseInodeLocked (n_inode k) (tr_store t))"
        using releaseInode_shrinks [OF mem_okD(4) [OF m]] by simp
      from mem_removed [OF m found(3,4) sh] show ?thesis
        using False full dir found parts h by (auto simp: Remove_def b spec_remove_def Let_def set_modTime_def)
    qed
  qed (use parts m h in \<open>simp_all add: Remove_def b spec_remove_def\<close>)
qed (use m in \<open>simp_all add: Remove_def below_root_def\<close>)

lemma without_absent:
  assumes "get_at (tr_root t) p = None"
  shows "without p (abs_fs cd t) = abs_fs cd t"
  using view_absent [OF assms] by (auto simp: without_def abs_fs_def prefix_def fun_eq_iff)

lemma RemoveAll_refines:
  assumes m: "mem_ok cd t"
  shows "refines cd (RemoveAll env p t) (below_root p spec_remove_all (abs_fs cd t))"
proof (cases rule: op_path_cases [of p])
  case (parts cs name)
  have b: "below_root p f fs = f (cs @ [name]) fs" for f fs using parts(4) by (simp add: below_root_def)
  have h: "tr_hostRoot t = []" using mem_okD(2) [OF m] .
  show ?thesis
  proof (rule parent_cases [OF m parts(2), where os = "ve_os env"], goal_cases stuck missing found)
    case (found n k)
    from mem_removed [OF m found(3,4) releaseSubtree_shrinks [OF mem_okD(4) [OF m]], of "ve_now env"] show ?thesis
      using found parts h by (simp add: RemoveAll_def b spec_remove_all_def Let_def set_modTime_def)
  next
    case (missing n)
    then show ?thesis
      using parts m h without_absent [of t "cs @ [name]" cd]
      by (simp add: RemoveAll_def b spec_remove_all_def Let_def abs_none)
  qed (use parts m h in \<open>simp_all add: RemoveAll_def b spec_remove_all_def\<close>)
qed (use m in \<open>simp_all add: RemoveAll_def below_root_def\<close>)

section \<open>Changing an inode in place\<close>

lemma mem_inode:
  assumes m: "mem_ok cd t" and f: "\<And>i. in_Body (f i) = in_Body i" "\<And>sto i. entry_of sto (f i) = g (entry_of sto i)"
    and ok: "tree_ok (on_node (Mem cs) (on_inode f) t)" (is "tree_ok ?t'")
  shows "mem_ok cd ?t'" "abs_fs cd ?t' = (abs_fs cd t)(cs := map_option g (abs_fs cd t cs))"
proof -
  have v: "view (tr_root ?t') ds = (if ds = cs then map_option f (view (tr_root t) ds) else view (tr_root t) ds)" for ds
    by (simp add: view_inode_at)
  have "node_refs h (on_inode f n) = node_refs h n" for h n
    using refs_on_inode [of h f n] f(1) by (simp add: inode_refs_def)
  then have r: "int (node_refs h (tr_root ?t')) \<le> RefCount (tr_store ?t') h" for h
    using refs_modify_same [OF mem_okD(5) [OF m], of h "on_inode f" cs] mem_okD(6) [OF m, of h] by simp
  have d: "body_data (stored cd (tr_store t)) no_host b \<noteq> None" if "view (tr_root ?t') ds = Some j" "in_Body j = Some b" for ds j b
    using that f(1) mem_okD(7) [OF m] unfolding v by (auto split: if_splits)
  have k: "keeps cd (tr_store t) (tr_store ?t')" using keeps_refl [OF mem_okD(4) [OF m]] by simp
  have sel: "tr_hostRoot ?t' = []" "tr_whiteouts ?t' = []" using mem_okD(2,3) [OF m] by simp_all
  show "mem_ok cd ?t'" by (rule mem_change(1) [OF m ok sel r k d])
  have "abs_fs cd ?t' ds = map_option (entry_of (stored cd (tr_store t))) (view (tr_root ?t') ds)" for ds
    by (rule mem_change(2) [OF m ok sel r k d])
  then show "abs_fs cd ?t' = (abs_fs cd t)(cs := map_option g (abs_fs cd t cs))"
    unfolding v by (auto simp: abs_fs_def fun_eq_iff option.map_comp comp_def f(2))
qed

lemma mem_set_modTime [simp]:
  assumes m: "mem_ok cd t"
  shows "mem_ok cd (set_modTime (Mem cs) now t)" "abs_fs cd (set_modTime (Mem cs) now t) = abs_fs cd t"
  using mem_inode [OF m, of "in_ModTime_update (\<lambda>_. now)" "\<lambda>e. e" cs]
    tree_ok_set_modTime [OF mem_okD(1) [OF m], of "Mem cs" now]
  by (simp_all add: set_modTime_def option.map_ident)

lemma entry_of_set_mode:
  "entry_of sto (i\<lparr>in_Mode := in_Mode i AND NOT ModePerm OR mode AND ModePerm\<rparr>) = set_mode mode (entry_of sto i)"
  by (cases "in_Kind i") (simp_all add: entry_of_def)

text \<open>An operation on a path that may be the root.\<close>

definition at_path :: "string \<Rightarrow> (string list \<Rightarrow> fs \<Rightarrow> tree_error option \<times> fs) \<Rightarrow> fs \<Rightarrow> tree_error option \<times> fs" where
  "at_path p f fs = (case path_names p of None \<Rightarrow> (Some ErrInvalidPath, fs) | Some cs \<Rightarrow> f cs fs)"

lemma lookup_cases:
  assumes m: "mem_ok cd t"
  shows "(path_names p = None \<and> lookupLocked os p t = (Inl ErrInvalidPath, t)) \<or>
    (\<exists>cs e. path_names p = Some cs \<and> spec_walk (abs_fs cd t) [] cs = Some e \<and> lookupLocked os p t = (Inl e, t)) \<or>
    (\<exists>cs n. path_names p = Some cs \<and> spec_walk (abs_fs cd t) [] cs = None \<and> get_at (tr_root t) cs = Some n \<and>
       lookupLocked os p t = (Inr (Mem cs, n), t))"
proof (cases rule: cleanPath_cases [of p])
  case (clean cs)
  have pn: "path_names p = Some cs" using clean splitNonEmpty_render path_ok_valid by (simp add: path_names_def)
  note l = mem_lookup [OF m clean, of os]
  show ?thesis
  proof (cases "spec_walk (abs_fs cd t) [] cs")
    case None
    then show ?thesis using pn l spec_walk_found [OF None] by auto
  qed (use pn l in auto)
qed (simp add: path_names_def lookupLocked_def)

lemma Chmod_refines:
  assumes m: "mem_ok cd t"
  shows "refines cd (Chmod env p mode t) (at_path p (\<lambda>cs. spec_chmod cs mode) (abs_fs cd t))"
  using lookup_cases [OF m, of p "ve_os env"]
proof (elim disjE exE conjE, goal_cases)
  case (3 cs n)
  let ?f = "\<lambda>i. i\<lparr>in_Mode := in_Mode i AND NOT ModePerm OR mode AND ModePerm\<rparr>"
  have ok: "tree_ok (on_node (Mem cs) (on_inode ?f) t)"
    using mem_okD(1) [OF m] by (intro tree_ok_on_inode) (simp_all add: Chmod_inode_wf)
  note i = mem_inode [OF m, of ?f, OF _ entry_of_set_mode ok]
  show ?case using 3 i by (simp add: Chmod_def Let_def at_path_def spec_chmod_def)
qed (use m in \<open>simp_all add: Chmod_def at_path_def spec_chmod_def\<close>)

definition spec_touch :: "string list \<Rightarrow> fs \<Rightarrow> tree_error option \<times> fs" where
  "spec_touch p fs = (spec_walk fs [] p, fs)"

lemma Chtime_refines:
  assumes m: "mem_ok cd t"
  shows "refines cd (Chtime env p mtime t) (at_path p spec_touch (abs_fs cd t))"
  using lookup_cases [OF m, of p "ve_os env"]
  by (elim disjE exE conjE) (use m in \<open>simp_all add: Chtime_def at_path_def spec_touch_def\<close>)

section \<open>Renaming\<close>

lemma refs_modify_absent:
  "node_wf n \<Longrightarrow> get_at n ps = None \<Longrightarrow> node_refs h (modify_at ps f n) = node_refs h n"
proof (induction ps arbitrary: n)
  case (Cons c cs)
  show ?case
  proof (cases "child_of n c")
    case (Some k)
    then have "node_refs h (modify_at cs f k) = node_refs h k" using Cons node_wf_child by simp
    then show ?thesis
      using refs_put_present [OF node_wf_root [OF Cons.prems(1)] Some, of h "modify_at cs f k"] Some by simp
  qed simp
qed simp

lemma moved_refs:
  assumes wf: "node_wf n" "node_wf (modify_at ss (del_child s) n)" and s: "get_at n ss = Some sp" "child_of sp s = Some src"
    and d: "get_at n ds = Some dp" "IsDir (n_inode dp)" "child_of dp d = None"
  shows "node_refs h (modify_at ds (put_child d src) (modify_at ss (del_child s) n)) \<le> node_refs h n"
proof -
  let ?n1 = "modify_at ss (del_child s) n"
  have "node_refs h (del_child s sp) + node_refs h src = node_refs h sp"
    using refs_del s(2) node_wf_get [OF wf(1) s(1)] node_wf_root by blast
  then have n1: "node_refs h ?n1 + node_refs h src = node_refs h n"
    using refs_modify [OF wf(1) s(1), of h "del_child s"] by simp
  show ?thesis
  proof (cases "get_at ?n1 ds")
    case None
    then show ?thesis using refs_modify_absent [OF wf(2) None] n1 by simp
  next
    case (Some dp')
    have "view ?n1 ds = view n ds" "view ?n1 (ds @ [d]) = None"
      using view_del_child [OF s(1)] view_here [OF Some] view_append [OF d(1), of "[d]"] d(3) by (simp_all add: view_Cons split: if_splits)
    then have "n_inode dp' = n_inode dp" "child_of dp' d = None"
      using view_here [OF Some] view_here [OF d(1)] view_append [OF Some, of "[d]"] by (simp_all add: view_Cons split: option.splits)
    moreover have "n_children dp' \<noteq> None"
      using node_wf_root [OF node_wf_get [OF wf(2) Some]] d(2) \<open>n_inode dp' = n_inode dp\<close> by (simp add: node_ok_def)
    ultimately have "node_refs h (put_child d src dp') = node_refs h dp' + node_refs h src" using refs_put_new by simp
    then show ?thesis using refs_modify [OF wf(2) Some, of h "put_child d src"] n1 by simp
  qed
qed

lemma mem_moved:
  assumes m: "mem_ok cd t" and s: "get_at (tr_root t) ss = Some sp" "child_of sp s = Some src"
    and d: "get_at (tr_root t) ds = Some dp" "IsDir (n_inode dp)" "child_of dp d = None" "valid_name d"
  defines "t' \<equiv> on_node (Mem ds) (put_child d src) (on_node (Mem ss) (del_child s) t)"
  shows "mem_ok cd t'"
    "abs_fs cd t' = (if prefix (ss @ [s]) (ds @ [d]) then without (ss @ [s]) (abs_fs cd t)
       else (\<lambda>cs. if prefix (ds @ [d]) cs then abs_fs cd t ((ss @ [s]) @ drop (length (ds @ [d])) cs) else without (ss @ [s]) (abs_fs cd t) cs))"
proof -
  have kids: "n_children dp \<noteq> None" using dir_children [OF mem_okD(1) [OF m] d(1)] d(2) by blast
  have ok: "tree_ok t'" unfolding t'_def by (rule tree_ok_move [OF mem_okD(1) [OF m] s d(1) kids d(3,4)])
  have sel: "tr_hostRoot t' = []" "tr_whiteouts t' = []" "tr_store t' = tr_store t"
    using mem_okD(2,3) [OF m] by (simp_all add: t'_def)
  have "prefix (ss @ [s]) (ds @ [d]) \<longleftrightarrow> prefix (ss @ [s]) ds"
    using s d(1,3) by (auto simp: prefix_snoc)
  then have v: "view (tr_root t') cs =
      (if prefix (ss @ [s]) (ds @ [d]) then (if prefix (ss @ [s]) cs then None else view (tr_root t) cs)
       else if prefix (ds @ [d]) cs then view (tr_root t) ((ss @ [s]) @ drop (length (ds @ [d])) cs)
       else if prefix (ss @ [s]) cs then None else view (tr_root t) cs)" for cs
    using view_move [OF s d(1) kids, of d cs] s by (simp add: t'_def view_append view_Cons)
  have "node_wf (modify_at ss (del_child s) (tr_root t))"
    using tree_ok_del [OF mem_okD(1) [OF m] s(1), of s] by (simp add: tree_ok_def)
  from moved_refs [OF mem_okD(5) [OF m] this s d(1-3)]
  have r: "int (node_refs h (tr_root t')) \<le> RefCount (tr_store t') h" for h
    using mem_okD(6) [OF m, of h] sel(3) by (simp add: t'_def) (meson of_nat_mono order_trans)
  have dat: "body_data (stored cd (tr_store t)) no_host b \<noteq> None" if "view (tr_root t') cs = Some j" "in_Body j = Some b" for cs j b
    using that mem_okD(7) [OF m] unfolding v by (auto split: if_splits)
  have k: "keeps cd (tr_store t) (tr_store t')" using keeps_refl [OF mem_okD(4) [OF m]] sel by simp
  show "mem_ok cd t'" by (rule mem_change(1) [OF m ok sel(1,2) r k dat])
  have "abs_fs cd t' cs = map_option (entry_of (stored cd (tr_store t))) (view (tr_root t') cs)" for cs
    by (rule mem_change(2) [OF m ok sel(1,2) r k dat])
  then show "abs_fs cd t' = (if prefix (ss @ [s]) (ds @ [d]) then without (ss @ [s]) (abs_fs cd t)
       else (\<lambda>cs. if prefix (ds @ [d]) cs then abs_fs cd t ((ss @ [s]) @ drop (length (ds @ [d])) cs) else without (ss @ [s]) (abs_fs cd t) cs))"
    unfolding v by (auto simp: abs_fs_def without_def fun_eq_iff)
qed

lemma rename_parts:
  assumes m: "mem_ok cd t" and p: "splitPath p = Inr (render ss, s)" "path_ok (ss @ [s])"
    and q: "splitPath q = Inr (render ds, d)" "path_ok (ds @ [d])"
  shows "refines cd (Rename env p q t) (spec_rename (ss @ [s]) (ds @ [d]) (abs_fs cd t))"
proof (rule parent_cases [OF m p(2), where os = "ve_os env"], goal_cases stuck missing found)
  case (found sp src)
  have po: "path_ok ds" "valid_name d" using path_ok_snoc [OF q(2)] by simp_all
  note l = mem_lookup [OF m cleanPath_render [OF po(1)] po(1), of "ve_os env"]
  show ?case
  proof (cases "spec_walk (abs_fs cd t) [] ds")
    case (Some e)
    then show ?thesis using found p q l m by (auto simp: Rename_def spec_rename_def spec_dir_def)
  next
    case None
    obtain dp where dp: "get_at (tr_root t) ds = Some dp" using spec_walk_found [OF None] by auto
    have dir: "dir_at (abs_fs cd t) ds \<longleftrightarrow> IsDir (n_inode dp)" by (rule abs_dir [OF dp])
    have q2: "abs_fs cd t (ds @ [d]) = None \<longleftrightarrow> child_of dp d = None" by (rule abs_snoc [OF dp])
    note r = found p q l None dp dir q2
    show ?thesis
    proof (cases "IsDir (n_inode dp) \<and> child_of dp d = None")
      case True
      have "n_children dp \<noteq> None" using dir_children [OF mem_okD(1) [OF m] dp] True by blast
      then obtain kids where kids: "n_children dp = Some kids" by blast
      note mv = mem_moved [OF m found(3,4) dp conjunct1 [OF True] conjunct2 [OF True] po(2)]
      have "Rename env p q t = (Inr (), notify ((change_event (clean_or_empty q) OpRename (ve_now env))\<lparr>ev_OldPath := clean_or_empty p\<rparr>)
          (set_modTime (Mem ds) (ve_now env) (set_modTime (Mem ss) (ve_now env)
             (on_node (Mem ds) (put_child d src) (on_node (Mem ss) (del_child s) t)))))"
        using r kids True by (simp add: Rename_def Let_def assign_child_def clean_or_empty_def)
      then show ?thesis using mv r True by (simp add: spec_rename_def spec_dir_def)
    qed (use r m in \<open>auto simp: Rename_def spec_rename_def spec_dir_def\<close>)
  qed
qed (use p q m in \<open>simp_all add: Rename_def spec_rename_def\<close>)

lemma Rename_refines:
  assumes m: "mem_ok cd t"
  shows "refines cd (Rename env p q t) (below_root p (\<lambda>ps. below_root q (spec_rename ps)) (abs_fs cd t))"
proof (cases rule: op_path_cases [of p])
  case (parts ss s)
  note p = this
  show ?thesis
  proof (cases rule: op_path_cases [of q])
    case (parts ds d)
    then show ?thesis using rename_parts [OF m p(3,2) parts(3,2)] p by (simp add: below_root_def)
  qed (use p m in \<open>simp_all add: Rename_def below_root_def\<close>)
qed (use m in \<open>simp_all add: Rename_def below_root_def\<close>)

section \<open>Reading\<close>

text \<open>A body whose bytes do not depend on the host has no host extents, so they are the same on every host.\<close>

lemma extent_data_any_host:
  assumes "extent_data sto no_host x = Some d" "0 < x_length x"
  shows "extent_data sto host x = Some d"
  using assms by (cases "x_kind x") (auto simp: extent_data_def no_host_def slice_bytes_def split: if_splits)

lemma exts_data_any_host:
  "contig s xs e \<Longrightarrow> exts_data sto no_host xs = Some d \<Longrightarrow> exts_data sto host xs = Some d"
proof (induction xs arbitrary: s d)
  case (Cons x xs)
  then show ?case using extent_data_any_host [of sto x _ host] by (fastforce simp: x_length_def split: option.splits)
qed simp

lemma body_data_any_host: "body_wf b \<Longrightarrow> body_data sto no_host b = Some d \<Longrightarrow> body_data sto host b = Some d"
  unfolding body_wf_def body_data_def by (rule exts_data_any_host)

text \<open>Reads go through the store's contract with the references of the tree as part of the invariant.\<close>

definition holds_refs :: "codec \<Rightarrow> (hash \<Rightarrow> nat) \<Rightarrow> chunk_store \<Rightarrow> bool" where
  "holds_refs cd rc s \<longleftrightarrow> codec_ok cd \<and> chunk_inv cd s \<and> (\<forall>h. int (rc h) \<le> RefCount s h)"

lemma holds_refs_put:
  assumes "holds_refs cd rc s" "put_hash cd now c s = (r, s')"
  shows "holds_refs cd rc s'"
proof -
  have g: "grows cd s (\<lambda>k. if r = Inr k then 1 else 0) s'"
    using put_hash_grows(1) [OF _ _ assms(2)] assms(1) by (simp add: holds_refs_def)
  have "int (rc h) \<le> RefCount s' h" for h
  proof -
    have "int (rc h) \<le> RefCount s h" "RefCount s h + int (if r = Inr h then 1 else 0) \<le> RefCount s' h"
      using assms(1) g by (simp_all add: holds_refs_def grows_def)
    then show ?thesis by (simp split: if_splits)
  qed
  then show ?thesis using assms(1) g by (simp add: holds_refs_def grows_def)
qed

interpretation held: chunk_provider "put_hash cd now" "Get cd now" "stored cd" "holds_refs cd rc" "collision_free cd"
  for cd now rc
proof (unfold_locales, goal_cases)
  case (1 s h)
  then show ?case using Get_spec [of cd s now h] by (simp add: holds_refs_def)
next
  case (2 s h)
  then show ?case using Get_spec [of cd s now h] by (simp add: holds_refs_def)
next
  case (3 s c h s')
  then show ?case using put_hash_ok [of cd s c now h s'] holds_refs_put [OF 3(1,3)] by (simp add: holds_refs_def)
next
  case (4 s c e s')
  then show ?case using put_hash_fail [of cd s now c e s'] holds_refs_put [OF 4(1,2)] by (simp add: holds_refs_def)
qed

lemma mem_store:
  assumes m: "mem_ok cd t" and st: "holds_refs cd (\<lambda>h. node_refs h (tr_root t)) st" "stored cd st = stored cd (tr_store t)"
  shows "mem_ok cd (t\<lparr>tr_store := st\<rparr>)" "abs_fs cd (t\<lparr>tr_store := st\<rparr>) = abs_fs cd t"
proof -
  have "tree_ok (t\<lparr>tr_store := st\<rparr>)" using mem_okD(1) [OF m] by simp
  then show "mem_ok cd (t\<lparr>tr_store := st\<rparr>)"
    using m st unfolding mem_ok_def data_ok_def holds_refs_def by simp
  show "abs_fs cd (t\<lparr>tr_store := st\<rparr>) = abs_fs cd t" by (rule ext) (simp add: abs_fs_def st(2))
qed

definition spec_Read :: "string \<Rightarrow> fs \<Rightarrow> tree_error + bytes" where
  "spec_Read p fs = (case path_names p of None \<Rightarrow> Inl ErrInvalidPath | Some cs \<Rightarrow> spec_read cs fs)"

lemma read_file:
  assumes m: "mem_ok (ve_codec env) t" and cd: "codec_ok (ve_codec env)" and rd: "reader_ok host (ve_reader env)"
    and b: "body_wf b" "body_data (stored (ve_codec env) (tr_store t)) no_host b = Some d" "body_Size (Some b) \<noteq> 0"
  shows "\<exists>st. ReadAt (Get (ve_codec env) (ve_nanos env)) (Some (ve_reader env)) (Some b) (body_Size (Some b)) 0 (Some (tr_store t)) =
      (d, None, Some st) \<and> filled (nat (body_Size (Some b))) d = d \<and>
    holds_refs (ve_codec env) (\<lambda>h. node_refs h (tr_root t)) st \<and> stored (ve_codec env) st = stored (ve_codec env) (tr_store t)"
proof -
  have len: "int (length d) = fb_size b" by (rule body_data_length [OF b(1,2)])
  have ok: "holds_refs (ve_codec env) (\<lambda>h. node_refs h (tr_root t)) (tr_store t)"
    using cd mem_okD(4,6) [OF m] by (simp add: holds_refs_def)
  have pos: "0 < fb_size b" using len b(3) by (simp add: body_Size_def)
  from held.ReadAt_ok [OF b(1) rd ok body_data_any_host [OF b(1,2)] order_refl pos, of "ve_nanos env"] show ?thesis
    using len by (auto simp: body_Size_def filled_def)
qed

lemma Read_refines:
  assumes m: "mem_ok (ve_codec env) t" and cd: "codec_ok (ve_codec env)" and rd: "reader_ok host (ve_reader env)"
  shows "fst (Read env p t) = spec_Read p (abs_fs (ve_codec env) t)" "mem_ok (ve_codec env) (snd (Read env p t))"
    "abs_fs (ve_codec env) (snd (Read env p t)) = abs_fs (ve_codec env) t"
proof -
  let ?cd = "ve_codec env"
  have "fst (Read env p t) = spec_Read p (abs_fs ?cd t) \<and> mem_ok ?cd (snd (Read env p t)) \<and> abs_fs ?cd (snd (Read env p t)) = abs_fs ?cd t"
    using lookup_cases [OF m, of p "ve_os env"]
  proof (elim disjE exE conjE, goal_cases)
    case (3 cs n)
    have e: "abs_fs ?cd t cs = Some (entry_of (stored ?cd (tr_store t)) (n_inode n))"
      using 3 by (simp add: abs_fs_def view_here)
    have wf: "inode_wf (n_inode n)" using node_wf_root [OF node_wf_at [OF mem_okD(1) [OF m] 3(3)]] by (simp add: node_ok_def)
    show ?case
    proof (cases "in_Kind (n_inode n)")
      case EntryFile
      then obtain b where b: "in_Body (n_inode n) = Some b" "body_wf b" using wf by (auto simp: inode_wf_def)
      then obtain d where d: "body_data (stored ?cd (tr_store t)) no_host b = Some d"
        using mem_okD(7) [OF m view_here [OF 3(3)] b(1)] by blast
      show ?thesis
      proof (cases "body_Size (Some b) = 0")
        case True
        then have "d = []" using body_data_length [OF b(2) d] by (simp add: body_Size_def)
        then show ?thesis using 3 EntryFile b d e True m by (simp add: Read_def IsFile_def spec_Read_def spec_read_def entry_of_def)
      next
        case False
        from read_file [OF m cd rd b(2) d False] obtain st where st: "ReadAt (Get ?cd (ve_nanos env)) (Some (ve_reader env)) (Some b)
            (body_Size (Some b)) 0 (Some (tr_store t)) = (d, None, Some st)" "filled (nat (body_Size (Some b))) d = d"
          "holds_refs ?cd (\<lambda>h. node_refs h (tr_root t)) st" "stored ?cd st = stored ?cd (tr_store t)" by blast
        then show ?thesis
          using 3 EntryFile b d e False mem_store [OF m st(3,4)]
          by (simp add: Read_def IsFile_def spec_Read_def spec_read_def entry_of_def Let_def)
      qed
    qed (use 3 e m in \<open>simp_all add: Read_def IsFile_def spec_Read_def spec_read_def entry_of_def\<close>)
  qed (use m in \<open>simp_all add: Read_def spec_Read_def spec_read_def\<close>)
  then show "fst (Read env p t) = spec_Read p (abs_fs ?cd t)" "mem_ok ?cd (snd (Read env p t))"
    "abs_fs ?cd (snd (Read env p t)) = abs_fs ?cd t" by simp_all
qed

section \<open>Runs\<close>

definition spec_op :: "bool \<Rightarrow> tree_op \<Rightarrow> fs \<Rightarrow> tree_error option \<times> fs" where
  "spec_op fit op fs =
     (case op of
        OMkdir p mode \<Rightarrow> below_root p (\<lambda>cs. spec_create cs (new_dir mode)) fs
      | OMkdirAll p mode \<Rightarrow> at_path p (spec_mkdirs mode []) fs
      | OWrite p content mode \<Rightarrow> below_root p (\<lambda>cs. spec_write fit cs content mode) fs
      | OSymlink target p \<Rightarrow> below_root p (\<lambda>cs. spec_create cs (FLink (ModeSymlink OR 0x1FF) target)) fs
      | ORemove p \<Rightarrow> below_root p spec_remove fs
      | ORemoveAll p \<Rightarrow> below_root p spec_remove_all fs
      | ORename p q \<Rightarrow> below_root p (\<lambda>ps. below_root q (spec_rename ps)) fs
      | OChmod p mode \<Rightarrow> at_path p (\<lambda>cs. spec_chmod cs mode) fs
      | OReadDir p \<Rightarrow> at_path p (\<lambda>cs fs. (spec_dir fs cs, fs)) fs
      | ORead p \<Rightarrow> (case spec_Read p fs of Inl e \<Rightarrow> Some e | Inr _ \<Rightarrow> None, fs)
      | OChtime p _ \<Rightarrow> at_path p spec_touch fs
      | OStat p \<Rightarrow> at_path p spec_touch fs
      | OOpen p \<Rightarrow> at_path p spec_touch fs
      | OSubscribe _ _ _ \<Rightarrow> (None, fs)
      | OUnsubscribe _ \<Rightarrow> (None, fs))"

text \<open>Whether the content an operation writes fits into the store.\<close>

definition op_fits :: "vfs_env \<Rightarrow> tree_op \<Rightarrow> tree \<Rightarrow> bool" where
  "op_fits env op t = (case op of OWrite p content mode \<Rightarrow> fits env content t | _ \<Rightarrow> True)"

text \<open>
  What a step relies on: one codec throughout, no two contents with the same hash, and a reader of host
  files that returns what some host holds.
\<close>

definition step_ok :: "codec \<Rightarrow> vfs_env \<times> tree_op \<Rightarrow> bool" where
  "step_ok cd step =
     (case step of (env, op) \<Rightarrow>
        ve_codec env = cd \<and> (\<exists>host. reader_ok host (ve_reader env)) \<and>
        (case op of OWrite p content mode \<Rightarrow> safe_content cd content | _ \<Rightarrow> True))"

lemma refines_err_of: "refines cd rt es \<Longrightarrow> mem_ok cd (snd (err_of rt)) \<and> fst (err_of rt) = fst es \<and> abs_fs cd (snd (err_of rt)) = snd es"
  by (cases rt; cases "fst rt") (auto simp: refines_def err_of_def)

lemma MkdirAll_at:
  assumes m: "mem_ok cd t"
  shows "refines cd (MkdirAll env p mode t) (at_path p (spec_mkdirs mode []) (abs_fs cd t))"
proof (cases rule: op_path_cases [of p])
  case invalid
  then show ?thesis using m by (simp add: at_path_def MkdirAll_def)
next
  case root
  then show ?thesis using MkdirAll_refines [OF m root(3), of env mode] by (simp add: at_path_def)
next
  case (parts cs n)
  then show ?thesis using MkdirAll_refines [OF m parts(4), of env mode] by (simp add: at_path_def)
qed

lemma look_refines:
  assumes m: "mem_ok cd t"
  shows "refines cd (tree_Stat env p t) (at_path p spec_touch (abs_fs cd t))" "refines cd (Open env p t) (at_path p spec_touch (abs_fs cd t))"
  using lookup_cases [OF m, of p "ve_os env"]
  by (elim disjE exE conjE; use m in \<open>simp add: tree_Stat_def Open_def at_path_def spec_touch_def\<close>)+

lemma readdir_loop_same: "mem_ok cd t \<Longrightarrow> snd (readdir_loop os clean names t) = t"
proof (induction names)
  case (Cons name names)
  from lookup_cases [OF Cons.prems, of "joinPath clean name" os] Cons show ?case
    by (elim disjE exE conjE) (simp_all add: split_beta)
qed simp

lemma ReadDir_refines:
  assumes m: "mem_ok cd t"
  shows "refines cd (ReadDir env p t) (at_path p (\<lambda>cs fs. (spec_dir fs cs, fs)) (abs_fs cd t))"
  using lookup_cases [OF m, of p "ve_os env"]
proof (elim disjE exE conjE, goal_cases)
  case (3 cs n)
  then show ?case
    using abs_dir [OF 3(3), of cd] readdir_loop_same [OF m] m
    by (simp add: ReadDir_def at_path_def spec_dir_def Let_def split_beta)
qed (use m in \<open>simp_all add: ReadDir_def at_path_def spec_dir_def\<close>)

lemma subs_mem [simp]: "mem_ok cd (t\<lparr>tr_subs := u\<rparr>) = mem_ok cd t" "abs_fs cd (t\<lparr>tr_subs := u\<rparr>) = abs_fs cd t"
  by (simp_all add: mem_ok_def abs_fs_def fun_eq_iff)

lemmas op_refines = Mkdir_refines MkdirAll_at Symlink_refines Remove_refines RemoveAll_refines Rename_refines Chmod_refines
  Chtime_refines look_refines ReadDir_refines

lemma run_op_refines:
  assumes m: "mem_ok cd t" and cd: "codec_ok cd" and s: "step_ok cd (env, op)"
  shows "mem_ok cd (snd (run_op env op t)) \<and> fst (run_op env op t) = fst (spec_op (op_fits env op t) op (abs_fs cd t)) \<and>
    abs_fs cd (snd (run_op env op t)) = snd (spec_op (op_fits env op t) op (abs_fs cd t))"
proof -
  have env: "ve_codec env = cd" using s by (simp add: step_ok_def)
  obtain host where rd: "reader_ok host (ve_reader env)" using s by (auto simp: step_ok_def)
  note m' = m [folded env] and cd' = cd [folded env]
  show ?thesis
  proof (cases op)
    case (OWrite p content mode)
    then have "safe_content (ve_codec env) content" using s by (simp add: step_ok_def)
    from refines_err_of [OF Write_refines [OF m' cd' this, of p mode]] OWrite env show ?thesis
      by (simp add: run_op_def spec_op_def op_fits_def)
  next
    case (ORead p)
    then show ?thesis
      using Read_refines [OF m' cd' rd, of p] env
      by (cases "Read env p t"; cases "fst (Read env p t)") (simp_all add: run_op_def spec_op_def err_of_def)
  qed (simp_all add: run_op_def spec_op_def m refines_err_of [OF op_refines(1) [OF m]] refines_err_of [OF op_refines(2) [OF m]]
      refines_err_of [OF op_refines(3) [OF m]] refines_err_of [OF op_refines(4) [OF m]] refines_err_of [OF op_refines(5) [OF m]]
      refines_err_of [OF op_refines(6) [OF m]] refines_err_of [OF op_refines(7) [OF m]] refines_err_of [OF op_refines(8) [OF m]]
      refines_err_of [OF op_refines(9) [OF m]] refines_err_of [OF op_refines(10) [OF m]] refines_err_of [OF op_refines(11) [OF m]])
qed

lemma run_ops_mem: "mem_ok cd t \<Longrightarrow> codec_ok cd \<Longrightarrow> list_all (step_ok cd) steps \<Longrightarrow> mem_ok cd (run_ops steps t)"
proof (induction steps arbitrary: t)
  case (Cons step steps)
  obtain env op where [simp]: "step = (env, op)" by fastforce
  have "mem_ok cd (snd (run_op env op t))" using run_op_refines [of cd t env op] Cons.prems by simp
  from Cons.IH [OF this] Cons.prems show ?case by (simp add: run_ops_def)
qed (simp add: run_ops_def)

lemma NewTree_mem: "mem_ok cd (NewTree limit chunk [] now)" "abs_fs cd (NewTree limit chunk [] now) = [[] \<mapsto> new_dir 0x1ED]"
proof -
  have "tree_ok (NewTree limit chunk [] now)" by (rule NewTree_ok)
  moreover have "data_ok cd (tr_root (NewTree limit chunk [] now)) (tr_store (NewTree limit chunk [] now))"
    using chunk_inv_New by (auto simp: data_ok_def NewTree_def view_leaf RefCount_nonneg split: if_splits)
  ultimately show "mem_ok cd (NewTree limit chunk [] now)" by (simp add: mem_ok_def) (simp add: NewTree_def)
  show "abs_fs cd (NewTree limit chunk [] now) = [[] \<mapsto> new_dir 0x1ED]"
    by (rule ext) (simp add: abs_fs_def NewTree_def view_leaf)
qed

section \<open>Properties\<close>


text \<open>A directory with a file in two chunks is renamed; the file is then read under its new name.\<close>

definition sample_run :: "(vfs_env \<times> tree_op) list" where
  "sample_run = [(sample_env 10, OWrite ''/a/f'' ''hello'' 0x1A4), (sample_env 11, ORename ''/a'' ''/b''), (sample_env 12, OMkdir ''/a'' 0x1ED)]"


end
