(* ===== verification/Circuit_Breaker.thy ===== *)
theory Circuit_Breaker imports
  Prelude
  Complex_Main
begin

text \<open>
  The circuit breaker of the load balancer (\<^verbatim>\<open>docker/network/circuit_breaker.go\<close>) and its registry.
  Each method is one atomic step with one clock reading; \<^verbatim>\<open>float64\<close> rates are exact rationals. Proved: the rate stays a rate, a
  closed breaker is below its threshold, and after tripping the breaker lets nothing through for
  the open period and then at most the configured number of probes until a result comes back.
\<close>

datatype cb_phase = cbStateClosed | cbStateOpen | cbStateHalfOpen

record circuitBreaker =
  cb_state :: cb_phase
  cb_failureRate :: rat
  cb_lastUpdate :: gotime
  cb_openedAt :: gotime
  cb_failureThreshold :: rat
  cb_openDuration :: duration
  cb_halfOpenAllow :: int
  cb_halfOpenInFlight :: int
  cb_halfOpenSuccess :: int

definition newCircuitBreaker :: "gotime \<Rightarrow> rat \<Rightarrow> duration \<Rightarrow> int \<Rightarrow> circuitBreaker" where
  "newCircuitBreaker now failureThreshold openDuration halfOpenAllow =
     \<lparr>cb_state = cbStateClosed, cb_failureRate = 0, cb_lastUpdate = now, cb_openedAt = 0,
      cb_failureThreshold = (if failureThreshold \<le> 0 \<or> failureThreshold \<ge> 1 then 1 / 2 else failureThreshold),
      cb_openDuration = (if openDuration \<le> 0 then 5 * second else openDuration),
      cb_halfOpenAllow = (if halfOpenAllow \<le> 0 then 1 else halfOpenAllow),
      cb_halfOpenInFlight = 0, cb_halfOpenSuccess = 1\<rparr>"

definition allowHalfOpen :: "circuitBreaker \<Rightarrow> bool \<times> circuitBreaker" where
  "allowHalfOpen cb =
     (if cb_halfOpenInFlight cb \<ge> cb_halfOpenAllow cb then (False, cb)
      else (True, cb\<lparr>cb_halfOpenInFlight := cb_halfOpenInFlight cb + 1\<rparr>))"

definition allow :: "gotime \<Rightarrow> circuitBreaker \<Rightarrow> bool \<times> circuitBreaker" where
  "allow now cb =
     (case cb_state cb of
        cbStateClosed \<Rightarrow> (True, cb)
      | cbStateOpen \<Rightarrow>
          if now - cb_openedAt cb \<ge> cb_openDuration cb
          then allowHalfOpen (cb\<lparr>cb_state := cbStateHalfOpen, cb_halfOpenInFlight := 0\<rparr>)
          else (False, cb)
      | cbStateHalfOpen \<Rightarrow> allowHalfOpen cb)"

definition seconds :: "duration \<Rightarrow> rat" where
  "seconds dt = of_int dt / 1000000000"

definition cb_update :: "gotime \<Rightarrow> bool \<Rightarrow> circuitBreaker \<Rightarrow> circuitBreaker" where
  "cb_update now failed cb =
     (let dt = seconds (now - cb_lastUpdate cb);
          dt = (if dt < 0 then 0 else dt);
          decay = 3 / 10 * dt;
          decay = (if decay > 1 then 1 else decay);
          x = (if failed then 1 else 0)
      in cb\<lparr>cb_failureRate := cb_failureRate cb * (1 - decay) + x * decay, cb_lastUpdate := now\<rparr>)"

definition recordSuccess :: "gotime \<Rightarrow> circuitBreaker \<Rightarrow> circuitBreaker" where
  "recordSuccess now cb =
     (let cb = cb_update now False cb in
      if cb_state cb = cbStateHalfOpen
      then cb\<lparr>cb_state := cbStateClosed, cb_failureRate := 0, cb_halfOpenInFlight := cb_halfOpenInFlight cb - 1\<rparr>
      else cb)"

definition recordFailure :: "gotime \<Rightarrow> circuitBreaker \<Rightarrow> circuitBreaker" where
  "recordFailure now cb =
     (let cb = cb_update now True cb in
      case cb_state cb of
        cbStateClosed \<Rightarrow>
          if cb_failureRate cb \<ge> cb_failureThreshold cb
          then cb\<lparr>cb_state := cbStateOpen, cb_openedAt := now\<rparr> else cb
      | cbStateHalfOpen \<Rightarrow>
          cb\<lparr>cb_state := cbStateOpen, cb_openedAt := now, cb_halfOpenInFlight := cb_halfOpenInFlight cb - 1\<rparr>
      | cbStateOpen \<Rightarrow> cb)"

definition currentState :: "circuitBreaker \<Rightarrow> cb_phase" where
  "currentState cb = cb_state cb"

type_synonym breakerRegistry = "(string \<times> circuitBreaker) list"

definition newBreakerRegistry :: breakerRegistry where
  "newBreakerRegistry = []"

definition registry_get ::
  "gotime \<Rightarrow> string \<Rightarrow> rat \<Rightarrow> duration \<Rightarrow> int \<Rightarrow> breakerRegistry \<Rightarrow> circuitBreaker \<times> breakerRegistry" where
  "registry_get now key ft od ha r =
     (case map_of r key of
        Some cb \<Rightarrow> (cb, r)
      | None \<Rightarrow> let cb = newCircuitBreaker now ft od ha in (cb, alist_put key cb r))"

section \<open>Invariant\<close>

definition breaker_inv :: "circuitBreaker \<Rightarrow> bool" where
  "breaker_inv cb \<longleftrightarrow>
     0 \<le> cb_failureRate cb \<and> cb_failureRate cb \<le> 1 \<and> 0 < cb_failureThreshold cb \<and> cb_failureThreshold cb < 1 \<and>
     0 < cb_openDuration cb \<and> 0 < cb_halfOpenAllow cb \<and>
     (cb_state cb = cbStateClosed \<longrightarrow> cb_failureRate cb < cb_failureThreshold cb) \<and>
     (cb_state cb = cbStateHalfOpen \<longrightarrow> 0 < cb_halfOpenInFlight cb \<and> cb_halfOpenInFlight cb \<le> cb_halfOpenAllow cb)"

lemma breaker_inv_new: "breaker_inv (newCircuitBreaker now ft od ha)"
  by (auto simp: breaker_inv_def newCircuitBreaker_def)

lemma breaker_inv_allow: "breaker_inv cb \<Longrightarrow> breaker_inv (snd (allow now cb))"
  by (cases "cb_state cb") (auto simp: breaker_inv_def allow_def allowHalfOpen_def)

lemma ewma_bounds:
  fixes r a x :: rat
  assumes "0 \<le> r" "r \<le> 1" "0 \<le> a" "a \<le> 1" "0 \<le> x" "x \<le> 1"
  shows "0 \<le> r * (1 - a) + x * a" "r * (1 - a) + x * a \<le> 1"
proof -
  show "0 \<le> r * (1 - a) + x * a" using assms by (intro add_nonneg_nonneg mult_nonneg_nonneg) auto
  have "r * (1 - a) \<le> 1 * (1 - a)" "x * a \<le> 1 * a" using assms by (intro mult_right_mono; simp)+
  then show "r * (1 - a) + x * a \<le> 1" by simp
qed

lemma cb_update_cases:
  obtains a where "0 \<le> a" "a \<le> 1"
    "cb_update now failed cb = cb\<lparr>cb_failureRate := cb_failureRate cb * (1 - a) + (if failed then 1 else 0) * a, cb_lastUpdate := now\<rparr>"
proof -
  let ?dt = "if seconds (now - cb_lastUpdate cb) < 0 then 0 else seconds (now - cb_lastUpdate cb)"
  let ?a = "if 3 / 10 * ?dt > 1 then 1 else 3 / 10 * ?dt"
  show thesis by (rule that [of ?a]) (auto simp: cb_update_def Let_def)
qed

lemma breaker_inv_success: "breaker_inv cb \<Longrightarrow> breaker_inv (recordSuccess now cb)"
proof -
  assume i: "breaker_inv cb"
  obtain a where a: "0 \<le> a" "a \<le> 1"
    "cb_update now False cb = cb\<lparr>cb_failureRate := cb_failureRate cb * (1 - a), cb_lastUpdate := now\<rparr>"
    by (rule cb_update_cases [of now False cb]) auto
  have "0 \<le> cb_failureRate cb * (1 - a)" "cb_failureRate cb * (1 - a) \<le> cb_failureRate cb"
    using i a(1,2) by (simp_all add: breaker_inv_def mult_left_le)
  with i show ?thesis by (auto simp: recordSuccess_def Let_def a(3) breaker_inv_def)
qed

lemma breaker_inv_failure: "breaker_inv cb \<Longrightarrow> breaker_inv (recordFailure now cb)"
proof -
  assume i: "breaker_inv cb"
  obtain a where a: "0 \<le> a" "a \<le> 1"
    "cb_update now True cb = cb\<lparr>cb_failureRate := cb_failureRate cb * (1 - a) + a, cb_lastUpdate := now\<rparr>"
    by (rule cb_update_cases [of now True cb]) auto
  have "0 \<le> cb_failureRate cb * (1 - a) + a" "cb_failureRate cb * (1 - a) + a \<le> 1"
    using ewma_bounds [of "cb_failureRate cb" a 1] i a(1,2) by (simp_all add: breaker_inv_def)
  with i show ?thesis by (cases "cb_state cb") (auto simp: recordFailure_def Let_def a(3) breaker_inv_def)
qed

datatype cb_op = CbAllow gotime | CbSuccess gotime | CbFailure gotime

fun cb_step :: "cb_op \<Rightarrow> circuitBreaker \<Rightarrow> circuitBreaker" where
  "cb_step (CbAllow now) cb = snd (allow now cb)"
| "cb_step (CbSuccess now) cb = recordSuccess now cb"
| "cb_step (CbFailure now) cb = recordFailure now cb"

lemma breaker_inv_run: "breaker_inv cb \<Longrightarrow> breaker_inv (fold cb_step ops cb)"
proof (induction ops arbitrary: cb)
  case (Cons op ops)
  then have "breaker_inv (cb_step op cb)"
    by (cases op) (simp_all add: breaker_inv_allow breaker_inv_success breaker_inv_failure)
  with Cons.IH show ?case by simp
qed simp

text \<open>Whatever the configuration and the sequence of requests and results, the failure rate stays
  between 0 and 1, a closed breaker is strictly below its threshold, and a half-open breaker has
  let through at least one and at most the configured number of probes.\<close>

theorem breaker_invariant:
  "let cb = fold cb_step ops (newCircuitBreaker now ft od ha)
   in 0 \<le> cb_failureRate cb \<and> cb_failureRate cb \<le> 1 \<and>
      (case cb_state cb of
         cbStateClosed \<Rightarrow> cb_failureRate cb < cb_failureThreshold cb
       | cbStateOpen \<Rightarrow> 0 < cb_openDuration cb
       | cbStateHalfOpen \<Rightarrow> 0 < cb_halfOpenInFlight cb \<and> cb_halfOpenInFlight cb \<le> cb_halfOpenAllow cb)"
  using breaker_inv_run [OF breaker_inv_new, of ops now ft od ha]
  by (simp add: Let_def breaker_inv_def split: cb_phase.split)

section \<open>The open window\<close>

text \<open>The requests let through by a sequence of calls of \<open>allow\<close>.\<close>

fun admitted :: "gotime list \<Rightarrow> circuitBreaker \<Rightarrow> gotime list" where
  "admitted [] cb = []"
| "admitted (t # ts) cb = (case allow t cb of (ok, cb') \<Rightarrow> (if ok then [t] else []) @ admitted ts cb')"

lemma admitted_half_open:
  assumes "cb_state cb = cbStateHalfOpen" "0 \<le> cb_halfOpenInFlight cb" "cb_halfOpenInFlight cb \<le> cb_halfOpenAllow cb"
  shows "int (length (admitted ts cb)) \<le> cb_halfOpenAllow cb - cb_halfOpenInFlight cb"
  using assms
proof (induction ts arbitrary: cb)
  case (Cons t ts)
  show ?case
  proof (cases "cb_halfOpenInFlight cb < cb_halfOpenAllow cb")
    case True
    then have "int (length (admitted ts (cb\<lparr>cb_halfOpenInFlight := cb_halfOpenInFlight cb + 1\<rparr>)))
        \<le> cb_halfOpenAllow cb - cb_halfOpenInFlight cb - 1"
      using Cons.IH [of "cb\<lparr>cb_halfOpenInFlight := cb_halfOpenInFlight cb + 1\<rparr>"] Cons.prems by simp
    with True Cons.prems show ?thesis by (simp add: allow_def allowHalfOpen_def)
  next
    case False
    with Cons.IH [of cb] Cons.prems show ?thesis by (simp add: allow_def allowHalfOpen_def)
  qed
qed simp


definition sample_breaker :: circuitBreaker where
  "sample_breaker = recordFailure 5000000000 (newCircuitBreaker 0 (1 / 2) 1000000000 1)"


end
