(* ===== verification/Rate_Limiter.thy ===== *)
theory Rate_Limiter imports
  Prelude
  Complex_Main
begin

text \<open>
  The per-source rate limiter of the workflow server (\<^verbatim>\<open>ts/server/ratelimit.go\<close>): a token bucket per
  source with a sweep of idle entries. \<^verbatim>\<open>float64\<close> token counts are exact rationals. Proved: over any
  stretch of time a source gets at most the burst plus the rate times the elapsed time.
\<close>

record bucket =
  bk_tokens :: rat
  bk_updatedAt :: gotime

record RateLimiter =
  rl_buckets :: "(string \<times> bucket) list"
  rl_rate :: int
  rl_burst :: int
  rl_gcEvery :: duration
  rl_lastGC :: gotime

definition NewRateLimiter :: "gotime \<Rightarrow> int \<Rightarrow> int \<Rightarrow> RateLimiter" where
  "NewRateLimiter now ratePerSecond burst =
     (let ratePerSecond = (if ratePerSecond \<le> 0 then 1 else ratePerSecond);
          burst = (if burst \<le> 0 then ratePerSecond else burst)
      in \<lparr>rl_buckets = [], rl_rate = ratePerSecond, rl_burst = burst, rl_gcEvery = minute, rl_lastGC = now\<rparr>)"

definition rl_gcLocked :: "gotime \<Rightarrow> RateLimiter \<Rightarrow> RateLimiter" where
  "rl_gcLocked now r =
     (if now - rl_lastGC r < rl_gcEvery r then r
      else
        let cutoff = now + (- 5 * rl_gcEvery r)
        in r\<lparr>rl_buckets := filter (\<lambda>(ip, b). \<not> bk_updatedAt b < cutoff) (rl_buckets r), rl_lastGC := now\<rparr>)"

definition elapsed_seconds :: "gotime \<Rightarrow> gotime \<Rightarrow> rat" where
  "elapsed_seconds now t = of_int (now - t) / 1000000000"

definition refill :: "gotime \<Rightarrow> int \<Rightarrow> int \<Rightarrow> bucket \<Rightarrow> bucket" where
  "refill now rate burst b =
     (let elapsed = elapsed_seconds now (bk_updatedAt b) in
      if elapsed > 0 then
        let tokens = bk_tokens b + elapsed * of_int rate
        in \<lparr>bk_tokens = (if tokens > of_int burst then of_int burst else tokens), bk_updatedAt = now\<rparr>
      else b)"

definition Allow :: "gotime \<Rightarrow> string \<Rightarrow> RateLimiter \<Rightarrow> bool \<times> RateLimiter" where
  "Allow now sourceIP r =
     (let r = rl_gcLocked now r;
          b = (case map_of (rl_buckets r) sourceIP of
                 Some b \<Rightarrow> b | None \<Rightarrow> \<lparr>bk_tokens = of_int (rl_burst r), bk_updatedAt = now\<rparr>);
          b = refill now (rl_rate r) (rl_burst r) b
      in if bk_tokens b \<ge> 1
         then (True, r\<lparr>rl_buckets := alist_put sourceIP (b\<lparr>bk_tokens := bk_tokens b - 1\<rparr>) (rl_buckets r)\<rparr>)
         else (False, r\<lparr>rl_buckets := alist_put sourceIP b (rl_buckets r)\<rparr>))"

text \<open>The source of a request: \<open>split\<close> is \<^verbatim>\<open>net.SplitHostPort\<close>, \<open>xff\<close> the header, \<open>remote\<close> the peer.\<close>

definition is_blank :: "char \<Rightarrow> bool" where
  "is_blank c \<longleftrightarrow> c = CHR '' '' \<or> c = CHR 0x09"

definition trimSpace :: "string \<Rightarrow> string" where
  "trimSpace s = rev (dropWhile is_blank (rev (dropWhile is_blank s)))"

definition extractSourceIP :: "(string \<Rightarrow> string option) \<Rightarrow> string \<Rightarrow> string \<Rightarrow> bool \<Rightarrow> string" where
  "extractSourceIP split xff remote trustForwardedFor =
     (if trustForwardedFor \<and> xff \<noteq> []
      then trimSpace (takeWhile (\<lambda>c. c \<noteq> CHR '','') xff)
      else (case split remote of None \<Rightarrow> remote | Some host \<Rightarrow> host))"

text \<open>The middleware answers 429 itself or passes the request on to \<open>nxt\<close>.\<close>

record limited_response =
  lr_status :: int
  lr_header :: "(string \<times> string) list"
  lr_body :: string

definition rate_limited :: limited_response where
  \<open>rate_limited = \<lparr>lr_status = 429, lr_header = [(''Retry-After'', ''1'')],
     lr_body = ''{"error":"rate_limited","reason":"per-source rate limit exceeded"}''\<rparr>\<close>

definition Middleware ::
  "(string \<Rightarrow> string option) \<Rightarrow> gotime \<Rightarrow> bool \<Rightarrow> string \<Rightarrow> string \<Rightarrow> (unit \<Rightarrow> 'r) \<Rightarrow> RateLimiter \<Rightarrow>
    (limited_response + 'r) \<times> RateLimiter" where
  "Middleware split now trust xff remote nxt r =
     (case Allow now (extractSourceIP split xff remote trust) r of
        (False, r') \<Rightarrow> (Inl rate_limited, r')
      | (True, r') \<Rightarrow> (Inr (nxt ()), r'))"

section \<open>Available tokens\<close>

definition limiter_inv :: "RateLimiter \<Rightarrow> bool" where
  "limiter_inv r \<longleftrightarrow> distinct (map fst (rl_buckets r)) \<and> 0 < rl_rate r \<and> 0 < rl_burst r \<and> rl_gcEvery r = minute \<and>
     (\<forall>ip b. map_of (rl_buckets r) ip = Some b \<longrightarrow> 0 \<le> bk_tokens b \<and> bk_tokens b \<le> of_int (rl_burst r))"

text \<open>The tokens source \<open>ip\<close> would find at time \<open>now\<close>.\<close>

definition refilled :: "gotime \<Rightarrow> RateLimiter \<Rightarrow> bucket \<Rightarrow> rat" where
  "refilled now r b = min (of_int (rl_burst r)) (bk_tokens b + max 0 (elapsed_seconds now (bk_updatedAt b)) * of_int (rl_rate r))"

definition available :: "gotime \<Rightarrow> string \<Rightarrow> RateLimiter \<Rightarrow> rat" where
  "available now ip r =
     (case map_of (rl_buckets r) ip of None \<Rightarrow> of_int (rl_burst r) | Some b \<Rightarrow> refilled now r b)"

lemma refill_tokens: "bk_tokens b \<le> of_int (rl_burst r) \<Longrightarrow>
    bk_tokens (refill now (rl_rate r) (rl_burst r) b) = refilled now r b"
  by (auto simp: refill_def refilled_def Let_def min_def max_def)

lemma available_bounds:
  assumes "limiter_inv r"
  shows "0 \<le> available now ip r" "available now ip r \<le> of_int (rl_burst r)"
  using assms by (auto simp: available_def refilled_def limiter_inv_def split: option.split)

lemma refilled_later:
  assumes "now \<le> t" "0 < rl_rate r"
  shows "refilled t r b \<le> refilled now r b + elapsed_seconds t now * of_int (rl_rate r)"
proof -
  have e: "elapsed_seconds t (bk_updatedAt b) = elapsed_seconds now (bk_updatedAt b) + elapsed_seconds t now"
    by (simp add: elapsed_seconds_def field_simps)
  have "0 \<le> elapsed_seconds t now" using assms(1) by (simp add: elapsed_seconds_def)
  then have "max 0 (elapsed_seconds t (bk_updatedAt b)) \<le> max 0 (elapsed_seconds now (bk_updatedAt b)) + elapsed_seconds t now"
    unfolding e by (auto simp: max_def)
  then have "max 0 (elapsed_seconds t (bk_updatedAt b)) * of_int (rl_rate r) \<le>
      (max 0 (elapsed_seconds now (bk_updatedAt b)) + elapsed_seconds t now) * of_int (rl_rate r)"
    by (rule mult_right_mono) (use assms(2) in simp)
  moreover have "0 \<le> elapsed_seconds t now * of_int (rl_rate r)"
    using \<open>0 \<le> elapsed_seconds t now\<close> assms(2) by simp
  ultimately show ?thesis unfolding refilled_def by (auto simp: min_def field_simps)
qed

lemma available_later:
  assumes "now \<le> t" "limiter_inv r"
  shows "available t ip r \<le> available now ip r + elapsed_seconds t now * of_int (rl_rate r)"
proof (cases "map_of (rl_buckets r) ip")
  case None
  have "0 \<le> elapsed_seconds t now * of_int (rl_rate r)" using assms by (simp add: elapsed_seconds_def limiter_inv_def)
  with None show ?thesis by (simp add: available_def)
next
  case (Some b)
  with refilled_later [OF assms(1), of r b] assms(2) show ?thesis by (simp add: available_def limiter_inv_def)
qed

lemma map_of_filter_vals:
  "distinct (map fst xs) \<Longrightarrow> map_of (filter (\<lambda>(k, v). P v) xs) k =
    (case map_of xs k of None \<Rightarrow> None | Some v \<Rightarrow> if P v then Some v else None)"
proof (induction xs)
  case (Cons x xs)
  then show ?case
    by (cases x) (auto simp: map_of_eq_None_iff split: option.split dest: map_of_SomeD intro: rev_image_eqI)
qed simp

text \<open>Sweeping an entry loses nothing as long as it would be full again by then.\<close>

lemma gc_available:
  assumes "limiter_inv r" "rl_burst r \<le> 300 * rl_rate r"
  shows "available now ip (rl_gcLocked now r) = available now ip r \<and> limiter_inv (rl_gcLocked now r) \<and>
    rl_rate (rl_gcLocked now r) = rl_rate r \<and> rl_burst (rl_gcLocked now r) = rl_burst r"
proof (cases "now - rl_lastGC r < rl_gcEvery r")
  case True
  then show ?thesis using assms by (simp add: rl_gcLocked_def)
next
  case False
  define c where "c = now - 5 * minute"
  define bs where "bs = filter (\<lambda>(ip, b). \<not> bk_updatedAt b < c) (rl_buckets r)"
  have r': "rl_gcLocked now r = r\<lparr>rl_buckets := bs, rl_lastGC := now\<rparr>"
    using False assms(1) by (simp add: rl_gcLocked_def limiter_inv_def bs_def c_def)
  have look: "map_of bs k = (case map_of (rl_buckets r) k of None \<Rightarrow> None
      | Some b \<Rightarrow> if \<not> bk_updatedAt b < c then Some b else None)" for k
    using map_of_filter_vals [of "rl_buckets r" "\<lambda>b. \<not> bk_updatedAt b < c" k] assms(1)
    by (simp add: limiter_inv_def bs_def)
  have full: "refilled now r b = of_int (rl_burst r)" if "map_of (rl_buckets r) k = Some b" "bk_updatedAt b < c" for k b
  proof -
    have "300 \<le> elapsed_seconds now (bk_updatedAt b)" using that(2) by (simp add: elapsed_seconds_def c_def)
    then have "300 * of_int (rl_rate r) \<le> elapsed_seconds now (bk_updatedAt b) * of_int (rl_rate r)"
      using assms(1) by (intro mult_right_mono) (simp_all add: limiter_inv_def)
    moreover have "(of_int (rl_burst r) :: rat) \<le> 300 * of_int (rl_rate r)" using assms(2) by linarith
    moreover have "0 \<le> bk_tokens b" using assms(1) that(1) by (simp add: limiter_inv_def)
    ultimately show ?thesis using \<open>300 \<le> elapsed_seconds now (bk_updatedAt b)\<close> by (simp add: refilled_def)
  qed
  have "refilled now (rl_gcLocked now r) b = refilled now r b" for b by (simp add: r' refilled_def)
  then have "available now ip (rl_gcLocked now r) = available now ip r"
    using full [of ip] by (auto simp: available_def r' look refilled_def split: option.split)
  moreover have "limiter_inv (rl_gcLocked now r)"
    using assms(1) look by (auto simp: limiter_inv_def r' bs_def distinct_map_filter split: option.splits if_splits)
  ultimately show ?thesis by (simp add: r')
qed
lemma refill_bounds:
  assumes "0 \<le> bk_tokens b" "bk_tokens b \<le> of_int burst" "0 < rate" "0 < burst"
  shows "0 \<le> bk_tokens (refill now rate burst b)" "bk_tokens (refill now rate burst b) \<le> of_int burst"
    "elapsed_seconds now (bk_updatedAt (refill now rate burst b)) \<le> 0"
proof -
  have "0 \<le> bk_tokens b + elapsed_seconds now (bk_updatedAt b) * of_int rate" if "elapsed_seconds now (bk_updatedAt b) > 0"
    using assms that by simp
  then show "0 \<le> bk_tokens (refill now rate burst b)" "bk_tokens (refill now rate burst b) \<le> of_int burst"
    "elapsed_seconds now (bk_updatedAt (refill now rate burst b)) \<le> 0"
    using assms by (auto simp: refill_def Let_def elapsed_seconds_def)
qed

text \<open>A call lets the source through exactly if a token is available, takes it, and leaves the other
  sources alone.\<close>

lemma Allow_spec:
  assumes "limiter_inv r" "rl_burst r \<le> 300 * rl_rate r"
  shows "fst (Allow now ip r) = (1 \<le> available now ip r)" "limiter_inv (snd (Allow now ip r))"
    "rl_rate (snd (Allow now ip r)) = rl_rate r" "rl_burst (snd (Allow now ip r)) = rl_burst r"
    "available now j (snd (Allow now ip r)) =
       available now j r - (if j = ip \<and> fst (Allow now ip r) then 1 else 0)"
proof -
  define g where "g = rl_gcLocked now r"
  have g: "available now k g = available now k r" "limiter_inv g" "rl_rate g = rl_rate r" "rl_burst g = rl_burst r" for k
    using gc_available [OF assms, of now] by (simp_all add: g_def)
  define b0 where "b0 = (case map_of (rl_buckets g) ip of
    Some b \<Rightarrow> b | None \<Rightarrow> \<lparr>bk_tokens = of_int (rl_burst g), bk_updatedAt = now\<rparr>)"
  define b where "b = refill now (rl_rate g) (rl_burst g) b0"
  define b' where "b' = (if bk_tokens b \<ge> 1 then b\<lparr>bk_tokens := bk_tokens b - 1\<rparr> else b)"
  have A: "Allow now ip r = (bk_tokens b \<ge> 1, g\<lparr>rl_buckets := alist_put ip b' (rl_buckets g)\<rparr>)"
    unfolding Allow_def Let_def g_def [symmetric] b0_def [symmetric] b_def [symmetric] by (simp add: b'_def)
  have gi: "0 < rl_rate g" "0 < rl_burst g" "distinct (map fst (rl_buckets g))" using g(2) by (auto simp: limiter_inv_def)
  have b0: "0 \<le> bk_tokens b0" "bk_tokens b0 \<le> of_int (rl_burst g)"
    using g(2) by (auto simp: b0_def limiter_inv_def split: option.split)
  have "available now ip g = refilled now g b0"
    by (auto simp: available_def b0_def refilled_def elapsed_seconds_def split: option.split)
  then have av: "bk_tokens b = available now ip r"
    using refill_tokens [OF b0(2)] g(1) by (simp add: b_def)
  note bb = refill_bounds [OF b0 gi(1,2), of now, folded b_def]
  show "fst (Allow now ip r) = (1 \<le> available now ip r)" by (simp add: A av)
  have b': "0 \<le> bk_tokens b'" "bk_tokens b' \<le> of_int (rl_burst g)" "bk_updatedAt b' = bk_updatedAt b"
    using bb by (auto simp: b'_def)
  have "0 \<le> bk_tokens c \<and> bk_tokens c \<le> of_int (rl_burst g)"
    if "map_of (alist_put ip b' (rl_buckets g)) k = Some c" for k c
    using that g(2) b'(1,2) by (cases "k = ip") (simp_all add: limiter_inv_def)
  then show "limiter_inv (snd (Allow now ip r))" using g(2) gi(3) unfolding A limiter_inv_def by simp
  show "rl_rate (snd (Allow now ip r)) = rl_rate r" "rl_burst (snd (Allow now ip r)) = rl_burst r" by (simp_all add: A g)
  have rf: "refilled now (g\<lparr>rl_buckets := x\<rparr>) c = refilled now g c" for x c by (simp add: refilled_def)
  have "elapsed_seconds now (bk_updatedAt b') \<le> 0" using bb(3) b'(3) by simp
  then have rb: "refilled now g b' = bk_tokens b'" using b'(2) by (simp add: refilled_def min_def max_def)
  show "available now j (snd (Allow now ip r)) =
       available now j r - (if j = ip \<and> fst (Allow now ip r) then 1 else 0)"
  proof (cases "j = ip")
    case True
    then have "available now j (snd (Allow now ip r)) = bk_tokens b'" by (simp add: A available_def rf rb)
    also have "\<dots> = bk_tokens b - (if 1 \<le> bk_tokens b then 1 else 0)" by (simp add: b'_def)
    finally show ?thesis using True by (simp add: A av)
  next
    case False
    then have "available now j (snd (Allow now ip r)) = available now j g"
      by (simp add: A available_def rf split: option.split)
    with False g(1) show ?thesis by simp
  qed
qed

section \<open>The bound\<close>

fun served :: "string \<Rightarrow> (gotime \<times> string) list \<Rightarrow> RateLimiter \<Rightarrow> nat" where
  "served ip [] r = 0"
| "served ip ((t, j) # reqs) r =
     (case Allow t j r of (ok, r') \<Rightarrow> (if ok \<and> j = ip then 1 else 0) + served ip reqs r')"

fun after_requests :: "(gotime \<times> string) list \<Rightarrow> RateLimiter \<Rightarrow> RateLimiter" where
  "after_requests [] r = r"
| "after_requests ((t, j) # reqs) r = after_requests reqs (snd (Allow t j r))"

lemma after_requests_inv:
  "limiter_inv r \<Longrightarrow> rl_burst r \<le> 300 * rl_rate r \<Longrightarrow> limiter_inv (after_requests reqs r) \<and>
    rl_rate (after_requests reqs r) = rl_rate r \<and> rl_burst (after_requests reqs r) = rl_burst r"
proof (induction reqs r rule: after_requests.induct)
  case (2 t j reqs r)
  note A = Allow_spec [OF 2(2,3), of t j]
  show ?case using 2(1) A(2-4) 2(3) by simp
qed simp

lemma served_bound:
  assumes "limiter_inv r" "rl_burst r \<le> 300 * rl_rate r" "sorted (map fst reqs)" "\<forall>q \<in> set reqs. now \<le> fst q \<and> fst q \<le> t1" "now \<le> t1"
  shows "of_nat (served ip reqs r) \<le> available now ip r + elapsed_seconds t1 now * of_int (rl_rate r)"
  using assms
proof (induction reqs arbitrary: r now)
  case Nil
  have "0 \<le> available now ip r" by (rule available_bounds(1) [OF Nil.prems(1)])
  moreover have "0 \<le> elapsed_seconds t1 now * of_int (rl_rate r)"
    using Nil.prems by (simp add: elapsed_seconds_def limiter_inv_def)
  ultimately show ?case by simp
next
  case (Cons q reqs)
  obtain t j where q: "q = (t, j)" by (cases q)
  note A = Allow_spec [OF Cons.prems(1,2), where now = t and ip = j]
  let ?r = "snd (Allow t j r)"
  have t: "now \<le> t" "t \<le> t1" using Cons.prems(4) q by auto
  have "of_nat (served ip reqs ?r) \<le> available t ip ?r + elapsed_seconds t1 t * of_int (rl_rate ?r)"
    by (rule Cons.IH) (use Cons.prems A(2-4) q t in auto)
  moreover have "available t ip r \<le> available now ip r + elapsed_seconds t now * of_int (rl_rate r)"
    by (rule available_later [OF t(1) Cons.prems(1)])
  moreover have "elapsed_seconds t1 now = elapsed_seconds t1 t + elapsed_seconds t now"
    by (simp add: elapsed_seconds_def field_simps)
  then have "elapsed_seconds t1 now * of_int (rl_rate r) =
      elapsed_seconds t1 t * of_int (rl_rate r) + elapsed_seconds t now * of_int (rl_rate r)" by (simp add: distrib_right)
  moreover have "available t ip ?r = available t ip r - (if ip = j \<and> fst (Allow t j r) then 1 else 0)"
    by (rule A(5))
  moreover have "(of_nat (served ip (q # reqs) r) :: rat) =
      (if ip = j \<and> fst (Allow t j r) then 1 else 0) + of_nat (served ip reqs ?r)"
    by (auto simp: q split_beta)
  ultimately show ?case unfolding A(3) by linarith
qed

text \<open>C29: The limiter limits: whatever came before, between the times \<open>t0\<close> and \<open>t1\<close> a source gets at most
  the burst plus the rate times the elapsed seconds, provided five minutes of refilling cover the
  burst (idle entries are forgotten after that time, and a forgotten source starts full).\<close>

theorem limiter_bound:
  assumes "0 < rate" "0 < burst" "burst \<le> 300 * rate" "sorted (map fst reqs)"
    "\<forall>q \<in> set reqs. t0 \<le> fst q \<and> fst q \<le> t1" "t0 \<le> t1"
  shows "of_nat (served ip reqs (after_requests before (NewRateLimiter now rate burst)))
    \<le> (of_int burst :: rat) + of_int (t1 - t0) / 1000000000 * of_int rate"
proof -
  let ?n = "NewRateLimiter now rate burst" and ?r = "after_requests before (NewRateLimiter now rate burst)"
  have n: "limiter_inv ?n" "rl_burst ?n = burst" "rl_rate ?n = rate"
    using assms(1,2) by (simp_all add: NewRateLimiter_def limiter_inv_def Let_def)
  have r: "limiter_inv ?r" "rl_rate ?r = rate" "rl_burst ?r = burst"
    using after_requests_inv [OF n(1), of before] n(2,3) assms(3) by simp_all
  have "of_nat (served ip reqs ?r) \<le> available t0 ip ?r + elapsed_seconds t1 t0 * of_int (rl_rate ?r)"
    by (rule served_bound [OF r(1) _ assms(4-6)]) (use r assms(3) in simp)
  with available_bounds(2) [OF r(1), of t0 ip] r(2,3) show ?thesis by (simp add: elapsed_seconds_def)
qed

definition sample_requests :: "(gotime \<times> string) list" where
  "sample_requests = [(1000000000, ''a''), (1000000000, ''a''), (1000000000, ''a''), (1000000000, ''a''), (2000000000, ''b'')]"

theorem limiter_bound_witness:
  "(of_nat (served ''a'' sample_requests (after_requests [] (NewRateLimiter 0 1 3))) :: rat) \<le> 4"
proof -
  have "sorted (map fst sample_requests)" "\<forall>q \<in> set sample_requests. 1000000000 \<le> fst q \<and> fst q \<le> 2000000000"
    by (simp_all add: sample_requests_def)
  from limiter_bound [of 1 3, OF _ _ _ this, of "''a''" "[]" 0] show ?thesis by simp
qed

end
