(* ===== verification/Net_Egress.thy ===== *)
theory Net_Egress imports
  Go_Strings
  "HOL-Library.Word"
begin

text \<open>
  Egress policies and ingress source rules (\<^verbatim>\<open>docker/network/egress.go\<close> and the rules of \<^verbatim>\<open>ingress.go\<close>): address
  blocks, domain patterns, and the decisions on names and addresses. An address is a byte string as in
  Go's \<^verbatim>\<open>net.IP\<close>, of four or sixteen bytes; the parsing of textual addresses is an argument.
\<close>

unbundle bit_operations_syntax

section \<open>Addresses\<close>

definition To4 :: "bytes \<Rightarrow> bytes option" where
  "To4 ip =
     (if length ip = 4 then Some ip
      else if length ip = 16 \<and> list_all (\<lambda>b. b = CHR 0x00) (take 10 ip) \<and> ip ! 10 = CHR 0xFF \<and> ip ! 11 = CHR 0xFF then Some (drop 12 ip)
      else None)"

definition To16 :: "bytes \<Rightarrow> bytes option" where
  "To16 ip =
     (if length ip = 4 then Some (replicate 10 (CHR 0x00) @ [CHR 0xFF, CHR 0xFF] @ ip)
      else if length ip = 16 then Some ip else None)"

record IPNet =
  net_IP :: bytes
  net_Mask :: bytes

definition networkNumberAndMask :: "IPNet \<Rightarrow> bytes \<times> bytes" where
  "networkNumberAndMask n =
     (case (case To4 (net_IP n) of Some ip \<Rightarrow> Some ip | None \<Rightarrow> if length (net_IP n) = 16 then Some (net_IP n) else None) of
        None \<Rightarrow> ([], [])
      | Some ip \<Rightarrow>
          let m = net_Mask n in
          if length m = 4 then (if length ip \<noteq> 4 then ([], []) else (ip, m))
          else if length m = 16 then (ip, if length ip = 4 then drop 12 m else m)
          else ([], []))"

definition byte_and :: "byte \<Rightarrow> byte \<Rightarrow> 8 word" where
  "byte_and a b = of_nat (of_char a) AND of_nat (of_char b)"

definition Contains :: "IPNet \<Rightarrow> bytes \<Rightarrow> bool" where
  "Contains n addr =
     (let (nn, m) = networkNumberAndMask n; ip = (case To4 addr of Some x \<Rightarrow> x | None \<Rightarrow> addr) in
      length ip = length nn \<and> list_all (\<lambda>i. byte_and (nn ! i) (m ! i) = byte_and (ip ! i) (m ! i)) [0..<length ip])"

section \<open>Egress policies\<close>

record EgressPolicy =
  ep_AllowCIDRs :: "string list"
  ep_DenyCIDRs :: "string list"
  ep_AllowDomains :: "string list"
  ep_DenyDomains :: "string list"

definition AllowAll :: EgressPolicy where
  "AllowAll = \<lparr>ep_AllowCIDRs = [], ep_DenyCIDRs = [], ep_AllowDomains = [], ep_DenyDomains = []\<rparr>"

definition AllowOnly :: "string list \<Rightarrow> string list \<Rightarrow> EgressPolicy" where
  "AllowOnly cidrs domains = \<lparr>ep_AllowCIDRs = cidrs, ep_DenyCIDRs = [], ep_AllowDomains = domains, ep_DenyDomains = []\<rparr>"

record domainPattern =
  dp_raw :: string
  dp_parts :: "string list"
  dp_deep :: bool

record compiledEgress =
  ce_allowNets :: "IPNet list"
  ce_denyNets :: "IPNet list"
  ce_allowDomains :: "domainPattern list"
  ce_denyDomains :: "domainPattern list"
  ce_defaultAllow :: bool

datatype egress_error = BadAllowCIDR string | BadDenyCIDR string | BadAllowDomain string | BadDenyDomain string

definition compileDomainPattern :: "string \<Rightarrow> domainPattern option" where
  "compileDomainPattern s =
     (if s = [] then None
      else
        let deep = prefix ''**.'' s; rest = (if deep then drop 3 s else s)
        in Some \<lparr>dp_raw = s, dp_parts = rev (split_on (CHR ''.'') rest), dp_deep = deep\<rparr>)"

text \<open>The four loops of \<^verbatim>\<open>compileEgress\<close> stop at the first text that does not parse.\<close>

fun parse_all :: "(string \<Rightarrow> 'a option) \<Rightarrow> (string \<Rightarrow> 'e) \<Rightarrow> string list \<Rightarrow> 'e + 'a list" where
  "parse_all parse bad [] = Inr []"
| "parse_all parse bad (s # ss) =
     (case parse s of
        None \<Rightarrow> Inl (bad s)
      | Some x \<Rightarrow> (case parse_all parse bad ss of Inl e \<Rightarrow> Inl e | Inr xs \<Rightarrow> Inr (x # xs)))"

definition compileEgress :: "(string \<Rightarrow> IPNet option) \<Rightarrow> EgressPolicy option \<Rightarrow> egress_error + compiledEgress" where
  "compileEgress ParseCIDR mp =
     (case mp of
        None \<Rightarrow> Inr \<lparr>ce_allowNets = [], ce_denyNets = [], ce_allowDomains = [], ce_denyDomains = [], ce_defaultAllow = True\<rparr>
      | Some p \<Rightarrow>
          (case parse_all ParseCIDR BadAllowCIDR (ep_AllowCIDRs p) of
             Inl e \<Rightarrow> Inl e
           | Inr an \<Rightarrow>
               (case parse_all ParseCIDR BadDenyCIDR (ep_DenyCIDRs p) of
                  Inl e \<Rightarrow> Inl e
                | Inr dn \<Rightarrow>
                    (case parse_all compileDomainPattern BadAllowDomain (ep_AllowDomains p) of
                       Inl e \<Rightarrow> Inl e
                     | Inr ad \<Rightarrow>
                         (case parse_all compileDomainPattern BadDenyDomain (ep_DenyDomains p) of
                            Inl e \<Rightarrow> Inl e
                          | Inr dd \<Rightarrow>
                              Inr \<lparr>ce_allowNets = an, ce_denyNets = dn, ce_allowDomains = ad, ce_denyDomains = dd,
                                   ce_defaultAllow = (ep_AllowCIDRs p = [] \<and> ep_AllowDomains p = [])\<rparr>)))))"

definition labelMatch :: "string \<Rightarrow> string \<Rightarrow> bool" where
  "labelMatch label pattern = (if pattern = ''*'' then label \<noteq> [] else EqualFold label pattern)"

definition matchDomain :: "string \<Rightarrow> domainPattern \<Rightarrow> bool" where
  "matchDomain name dp =
     (let nameLabels = rev (split_on (CHR ''.'') (ToLower (trim_suffix name ''.''))); parts = dp_parts dp in
      if dp_deep dp then
        (if length nameLabels < length parts then False
         else list_all (\<lambda>i. labelMatch (nameLabels ! i) (parts ! i)) [0..<length parts])
      else if length nameLabels \<noteq> length parts \<and> (parts = [] \<or> last parts \<noteq> ''*'') then False
      else list_all (\<lambda>i. i < length nameLabels \<and> labelMatch (nameLabels ! i) (parts ! i)) [0..<length parts])"

definition AllowsName :: "string \<Rightarrow> compiledEgress \<Rightarrow> bool" where
  "AllowsName name c =
     (if list_ex (matchDomain name) (ce_denyDomains c) then False
      else if ce_defaultAllow c then True
      else list_ex (matchDomain name) (ce_allowDomains c))"

definition AllowsIP :: "bytes \<Rightarrow> compiledEgress \<Rightarrow> bool" where
  "AllowsIP ip c =
     (if list_ex (\<lambda>n. Contains n ip) (ce_denyNets c) then False
      else if ce_defaultAllow c then True
      else list_ex (\<lambda>n. Contains n ip) (ce_allowNets c))"

text \<open>A holder is the policy it holds, or nothing.\<close>

definition allowAllHolder :: "compiledEgress option" where
  "allowAllHolder =
     Some \<lparr>ce_allowNets = [], ce_denyNets = [], ce_allowDomains = [], ce_denyDomains = [], ce_defaultAllow = True\<rparr>"

text \<open>\<^verbatim>\<open>Stack.AllowsEgress\<close> (\<^verbatim>\<open>stack.go\<close>): by name or by address, and allowed when the service has no policy.\<close>

definition AllowsEgress :: "(string \<Rightarrow> bytes option) \<Rightarrow> (string \<times> compiledEgress option) list \<Rightarrow> string \<Rightarrow> string \<Rightarrow> bool" where
  "AllowsEgress ParseIP egress serviceName target =
     (case map_of egress serviceName of
        None \<Rightarrow> True
      | Some None \<Rightarrow> True
      | Some (Some c) \<Rightarrow> (case ParseIP target of Some ip \<Rightarrow> AllowsIP ip c | None \<Rightarrow> AllowsName target c))"

section \<open>Ingress source rules\<close>

record ruleSet =
  rs_allows :: "IPNet list"
  rs_denies :: "IPNet list"

datatype rule_verdict = RuleAllowed | DeniedBy IPNet | NoAllowRule

definition rules_allowed :: "bytes \<Rightarrow> ruleSet \<Rightarrow> rule_verdict" where
  "rules_allowed ip rs =
     (case find (\<lambda>n. Contains n ip) (rs_denies rs) of
        Some n \<Rightarrow> DeniedBy n
      | None \<Rightarrow>
          if rs_allows rs = [] then RuleAllowed
          else if list_ex (\<lambda>n. Contains n ip) (rs_allows rs) then RuleAllowed else NoAllowRule)"

definition parseCIDR :: "(string \<Rightarrow> IPNet option) \<Rightarrow> (string \<Rightarrow> bytes option) \<Rightarrow> string \<Rightarrow> IPNet option" where
  "parseCIDR ParseCIDR ParseIP s =
     (case ParseCIDR s of
        Some n \<Rightarrow> Some n
      | None \<Rightarrow>
          (case ParseIP s of
             None \<Rightarrow> None
           | Some ip \<Rightarrow> if To4 ip \<noteq> None then ParseCIDR (s @ ''/32'') else ParseCIDR (s @ ''/128'')))"

definition SetRules ::
  "(string \<Rightarrow> IPNet option) \<Rightarrow> (string \<Rightarrow> bytes option) \<Rightarrow> string list \<Rightarrow> string list \<Rightarrow> ruleSet \<Rightarrow> string option \<times> ruleSet"
where
  "SetRules ParseCIDR ParseIP allows denies rs =
     (case parse_all (parseCIDR ParseCIDR ParseIP) (\<lambda>s. s) allows of
        Inl bad \<Rightarrow> (Some bad, rs)
      | Inr an \<Rightarrow>
          (case parse_all (parseCIDR ParseCIDR ParseIP) (\<lambda>s. s) denies of
             Inl bad \<Rightarrow> (Some bad, rs)
           | Inr dn \<Rightarrow> (None, \<lparr>rs_allows = an, rs_denies = dn\<rparr>)))"

section \<open>What the patterns mean\<close>

text \<open>
  A pattern is read against the labels of the name from the right. Labels may be left over on the left
  only of a pattern that starts with \<^verbatim>\<open>**.\<close> or whose leftmost label is a star.
\<close>

definition name_labels :: "string \<Rightarrow> string list" where
  "name_labels name = split_on (CHR ''.'') (trim_suffix name ''.'')"

definition label_ok :: "string \<Rightarrow> string \<Rightarrow> bool" where
  "label_ok label pattern \<longleftrightarrow> (if pattern = ''*'' then label \<noteq> [] else ToLower label = ToLower pattern)"

definition pattern_covers :: "string \<Rightarrow> string \<Rightarrow> bool" where
  "pattern_covers pattern name \<longleftrightarrow>
     (let deep = prefix ''**.'' pattern; ls = split_on (CHR ''.'') (if deep then drop 3 pattern else pattern) in
      \<exists>front rear. name_labels name = front @ rear \<and> list_all2 label_ok rear ls \<and> (front = [] \<or> deep \<or> hd ls = ''*''))"

lemma split_on_lower:
  assumes "lower_char sep = sep" "\<And>c. lower_char c = sep \<longleftrightarrow> c = sep"
  shows "split_on sep (ToLower s) = map ToLower (split_on sep s)"
proof (induction s)
  case (Cons c s)
  obtain p ps where "split_on sep s = p # ps" by (cases "split_on sep s") auto
  then show ?case using Cons assms by (auto simp: ToLower_def)
qed (simp add: ToLower_def)

lemma lower_char_dot: "lower_char c = CHR ''.'' \<longleftrightarrow> c = CHR ''.''"
proof -
  have "(of_char c :: nat) < 256" by (rule nat_of_char_less_256)
  then show ?thesis by (auto simp: lower_char_def char_of_eq_iff take_bit_nat_eq_self)
qed

lemma labelMatch_ok [simp]: "labelMatch (ToLower l) p \<longleftrightarrow> label_ok l p"
  by (auto simp: labelMatch_def label_ok_def EqualFold_def)

lemma prefix_match:
  "(length ps \<le> length ls \<and> list_all (\<lambda>i. f (rev ls ! i) (rev ps ! i)) [0..<length ps]) \<longleftrightarrow>
   (\<exists>front rear. ls = front @ rear \<and> list_all2 f rear ps)"
proof
  assume a: "length ps \<le> length ls \<and> list_all (\<lambda>i. f (rev ls ! i) (rev ps ! i)) [0..<length ps]"
  let ?k = "length ls - length ps"
  have "list_all2 f (drop ?k ls) ps"
  proof (rule list_all2_all_nthI)
    show "length (drop ?k ls) = length ps" using a by simp
    fix i assume i: "i < length (drop ?k ls)"
    then have "length ps - Suc i < length ps" using a by simp
    with a have "f (rev ls ! (length ps - Suc i)) (rev ps ! (length ps - Suc i))" by (simp add: list_all_iff)
    moreover have "rev ls ! (length ps - Suc i) = drop ?k ls ! i" "rev ps ! (length ps - Suc i) = ps ! i"
      using i a by (auto simp: rev_nth intro!: arg_cong [where f = "nth ls"])
    ultimately show "f (drop ?k ls ! i) (ps ! i)" by simp
  qed
  then show "\<exists>front rear. ls = front @ rear \<and> list_all2 f rear ps" by (metis append_take_drop_id)
next
  assume "\<exists>front rear. ls = front @ rear \<and> list_all2 f rear ps"
  then obtain front rear where ls: "ls = front @ rear" and b: "list_all2 f rear ps" by blast
  have len: "length rear = length ps" using b by (rule list_all2_lengthD)
  have "f (rev ls ! i) (rev ps ! i)" if "i < length ps" for i
    using that len list_all2_nthD [OF b, of "length ps - Suc i"] by (simp add: ls nth_append rev_nth)
  then show "length ps \<le> length ls \<and> list_all (\<lambda>i. f (rev ls ! i) (rev ps ! i)) [0..<length ps]"
    using ls len by (simp add: list_all_iff)
qed

lemma matchDomain_covers:
  assumes "compileDomainPattern s = Some dp"
  shows "matchDomain name dp \<longleftrightarrow> pattern_covers s name"
proof -
  define ls where "ls = split_on (CHR ''.'') (if prefix ''**.'' s then drop 3 s else s)"
  have dp: "dp_parts dp = rev ls" "dp_deep dp = prefix ''**.'' s" "ls \<noteq> []"
    using assms by (auto simp: compileDomainPattern_def ls_def Let_def split: if_splits)
  have lab: "split_on (CHR ''.'') (ToLower (trim_suffix name ''.'')) = map ToLower (name_labels name)"
    unfolding name_labels_def by (rule split_on_lower) (simp_all add: lower_char_dot)
  let ?n = "name_labels name"
  have m: "labelMatch (rev (map ToLower ?n) ! i) (rev ls ! i) \<longleftrightarrow> label_ok (rev ?n ! i) (rev ls ! i)" if "i < length ?n" for i
    using that by (simp add: rev_map)
  have all: "(length ls \<le> length ?n \<and> list_all (\<lambda>i. labelMatch (rev (map ToLower ?n) ! i) (rev ls ! i)) [0..<length ls]) \<longleftrightarrow>
      (\<exists>front rear. ?n = front @ rear \<and> list_all2 label_ok rear ls)"
    unfolding prefix_match [of ls ?n label_ok, symmetric] using m by (auto simp: list_all_iff)
  have len: "?n = front @ rear \<Longrightarrow> list_all2 label_ok rear ls \<Longrightarrow> front = [] \<longleftrightarrow> length ?n = length ls" for front rear
    by (auto dest: list_all2_lengthD)
  have cov: "pattern_covers s name \<longleftrightarrow> (\<exists>front rear. ?n = front @ rear \<and> list_all2 label_ok rear ls) \<and>
      (length ?n = length ls \<or> prefix ''**.'' s \<or> hd ls = ''*'')"
    unfolding pattern_covers_def Let_def ls_def [symmetric] using len by blast
  show ?thesis
  proof (cases "prefix ''**.'' s")
    case True
    then show ?thesis unfolding cov all [symmetric] by (auto simp: matchDomain_def Let_def dp lab)
  next
    case False
    have "last (rev ls) = hd ls" using dp(3) by (simp add: last_rev)
    moreover have "list_all (\<lambda>i. i < length ?n \<and> labelMatch (rev (map ToLower ?n) ! i) (rev ls ! i)) [0..<length ls] \<longleftrightarrow>
        length ls \<le> length ?n \<and> list_all (\<lambda>i. labelMatch (rev (map ToLower ?n) ! i) (rev ls ! i)) [0..<length ls]"
      using dp(3) by (auto simp: list_all_iff)
    ultimately show ?thesis unfolding cov all [symmetric] using False dp(3) by (auto simp: matchDomain_def Let_def dp lab)
  qed
qed

lemma parse_all_Inr: "parse_all parse bad ss = Inr xs \<Longrightarrow> map parse ss = map Some xs"
  by (induction ss arbitrary: xs) (auto split: option.splits sum.splits)

lemma list_ex_parsed:
  assumes "map parse ss = map Some xs"
  shows "list_ex P xs \<longleftrightarrow> (\<exists>s x. s \<in> set ss \<and> parse s = Some x \<and> P x)"
  using assms
proof (induction ss arbitrary: xs)
  case (Cons s ss)
  then show ?case by (cases xs) auto
qed simp

section \<open>Properties\<close>


definition sample_egress :: EgressPolicy where
  "sample_egress = \<lparr>ep_AllowCIDRs = [], ep_DenyCIDRs = [], ep_AllowDomains = [''*.Example.com''], ep_DenyDomains = [''secret.example.com'']\<rparr>"


text \<open>A pattern with two stars also covers the domain itself, not only what is below it.\<close>

lemma deep_pattern_covers_apex: "list_all2 label_ok (name_labels name) (split_on (CHR ''.'') d) \<Longrightarrow> pattern_covers (''**.'' @ d) name"
  by (simp add: pattern_covers_def Let_def) (metis append_Nil)

end
