(* ===== verification/Net_Dns.thy ===== *)
theory Net_Dns imports
  Net_Egress
begin

text \<open>
  The resolver of a stack (\<^verbatim>\<open>docker/network/dns.go\<close>): decoding a query, answering for services of the stack,
  refusing names the egress policy of the asking container does not allow, and asking the upstream
  resolver for the rest. Every index and slice expression is checked: a result of \<open>None\<close> is a panic of
  the Go program. Queries are arbitrary byte strings from the network.
\<close>

section \<open>Byte access\<close>

definition slice :: "bytes \<Rightarrow> nat \<Rightarrow> nat \<Rightarrow> bytes option" where
  "slice b lo hi = (if lo \<le> hi \<and> hi \<le> length b then Some (take (hi - lo) (drop lo b)) else None)"

definition Uint16 :: "bytes \<Rightarrow> 16 word option" where
  "Uint16 b = (if length b < 2 then None else Some (word_of_int (of_char (b ! 0) * 256 + of_char (b ! 1))))"

definition uint16_at :: "bytes \<Rightarrow> nat \<Rightarrow> 16 word option" where
  "uint16_at b off = Option.bind (slice b off (off + 2)) Uint16"

definition uint16_bytes :: "16 word \<Rightarrow> bytes" where
  "uint16_bytes v = [char_of (uint v div 256), char_of (uint v)]"

definition put_uint16 :: "nat \<Rightarrow> 16 word \<Rightarrow> bytes \<Rightarrow> bytes option" where
  "put_uint16 off v b =
     (if off + 2 \<le> length b then Some (b[off := uint16_bytes v ! 0, off + 1 := uint16_bytes v ! 1]) else None)"

section \<open>Messages\<close>

definition dnsTypeA :: "16 word" where "dnsTypeA = 1"
definition dnsTypeAAAA :: "16 word" where "dnsTypeAAAA = 28"
definition dnsClassIN :: "16 word" where "dnsClassIN = 1"

definition dnsRCodeFormErr :: "16 word" where "dnsRCodeFormErr = 1"
definition dnsRCodeNXDomain :: "16 word" where "dnsRCodeNXDomain = 3"
definition dnsRCodeNotImpl :: "16 word" where "dnsRCodeNotImpl = 4"

record dnsHeader =
  dh_ID :: "16 word"
  dh_Flags :: "16 word"
  dh_QDCount :: "16 word"

datatype decode_error = DecodeShort | DecodeBadLabel | DecodeShortType

record question =
  q_name :: string
  q_type :: "16 word"
  q_class :: "16 word"
  q_end :: nat

function decode_labels :: "bytes \<Rightarrow> nat \<Rightarrow> string list \<Rightarrow> (decode_error + string list \<times> nat) option" where
  "decode_labels buf off labels =
     (if off \<ge> length buf then Some (Inl DecodeShort)
      else
        let l = of_char (buf ! off); off' = off + 1 in
        if l = 0 then Some (Inr (labels, off'))
        else if l > 63 \<or> off' + l > length buf then Some (Inl DecodeBadLabel)
        else case slice buf off' (off' + l) of
            None \<Rightarrow> None
          | Some label \<Rightarrow> decode_labels buf (off' + l) (labels @ [label]))"
  by pat_completeness auto
termination by (relation "measure (\<lambda>(buf, off, _). length buf - off)") auto

declare decode_labels.simps [simp del]

definition decodeQuestion :: "bytes \<Rightarrow> nat \<Rightarrow> (decode_error + question) option" where
  "decodeQuestion buf off =
     (case decode_labels buf off [] of
        None \<Rightarrow> None
      | Some (Inl e) \<Rightarrow> Some (Inl e)
      | Some (Inr (labels, off)) \<Rightarrow>
          if off + 4 > length buf then Some (Inl DecodeShortType)
          else (case (uint16_at buf off, uint16_at buf (off + 2)) of
              (Some qtype, Some qclass) \<Rightarrow>
                Some (Inr \<lparr>q_name = join_on (CHR ''.'') labels @ ''.'', q_type = qtype, q_class = qclass, q_end = off + 4\<rparr>)
            | _ \<Rightarrow> None))"

definition respondError :: "dnsHeader \<Rightarrow> bytes \<Rightarrow> 16 word \<Rightarrow> bytes option" where
  "respondError hdr query rcode =
     (let flags = 0x8000 OR (dh_Flags hdr AND 0x0100) OR 0x0480 OR (rcode AND 0xF) in
      Option.bind (put_uint16 0 (dh_ID hdr) query) (\<lambda>out.
      Option.bind (put_uint16 2 flags out) (\<lambda>out.
      Option.bind (put_uint16 6 0 out) (\<lambda>out.
      Option.bind (put_uint16 8 0 out) (put_uint16 10 0)))))"

definition encodeName :: "string \<Rightarrow> bytes" where
  "encodeName name =
     (let clean = trim_suffix name ''.'' in
      if clean = [] then [CHR 0x00]
      else concat (map (\<lambda>label. let label = take 63 label in char_of (length label) # label) (split_on (CHR ''.'') clean)) @ [CHR 0x00])"

function question_end :: "bytes \<Rightarrow> nat \<Rightarrow> nat" where
  "question_end query qEnd =
     (if qEnd < length query then
        let l = of_char (query ! qEnd); qEnd = qEnd + 1 in
        if l = 0 then qEnd + 4 else question_end query (qEnd + l)
      else qEnd)"
  by pat_completeness auto
termination by (relation "measure (\<lambda>(query, qEnd). length query - qEnd)") auto

declare question_end.simps [simp del]

definition rdata_of :: "16 word \<Rightarrow> bytes \<Rightarrow> (16 word \<times> bytes) option" where
  "rdata_of qtype ip =
     (if qtype = dnsTypeA then map_option (Pair dnsTypeA) (To4 ip)
      else if qtype = dnsTypeAAAA then (if To4 ip \<noteq> None then None else map_option (Pair dnsTypeAAAA) (To16 ip))
      else None)"

definition answer_record :: "string \<Rightarrow> 16 word \<Rightarrow> bytes \<Rightarrow> bytes" where
  "answer_record name rtype rdata =
     encodeName name @ uint16_bytes rtype @ uint16_bytes dnsClassIN @ big_endian 4 30 @ uint16_bytes (of_nat (length rdata)) @ rdata"

definition respondAnswers :: "dnsHeader \<Rightarrow> bytes \<Rightarrow> string \<Rightarrow> 16 word \<Rightarrow> bytes list \<Rightarrow> bytes option" where
  "respondAnswers hdr query name qtype ips =
     (let answers = List.map_filter (rdata_of qtype) ips; flags = 0x8000 OR (dh_Flags hdr AND 0x0100) OR 0x0480 in
      Option.bind (slice query 0 12) (\<lambda>header.
      Option.bind (slice query 12 (question_end query 12)) (\<lambda>question.
      let out = header @ question @ concat (map (\<lambda>(rtype, rdata). answer_record name rtype rdata) answers) in
      Option.bind (put_uint16 0 (dh_ID hdr) out) (\<lambda>out.
      Option.bind (put_uint16 2 flags out) (\<lambda>out.
      Option.bind (put_uint16 6 (of_nat (length answers)) out) (\<lambda>out.
      Option.bind (put_uint16 8 0 out) (put_uint16 10 0)))))))"

section \<open>Resolution\<close>

text \<open>
  The stack's containers and policies, the daemon's inspection of a container (the addresses of its
  endpoints, or an error), and the parts of the \<^verbatim>\<open>net\<close> package that read texts or ask other hosts.
\<close>

record dns_env =
  de_containers :: "(string \<times> string list) list"
  de_egress :: "(string \<times> compiledEgress option) list"
  de_inspect :: "string \<Rightarrow> string list option"
  de_ParseIP :: "string \<Rightarrow> bytes option"
  de_SplitHost :: "string \<Rightarrow> string"
  de_LookupIP :: "bool \<Rightarrow> string \<Rightarrow> bytes list option"

definition inspected_ips :: "dns_env \<Rightarrow> string \<Rightarrow> bytes list" where
  "inspected_ips env cid =
     (case de_inspect env cid of
        None \<Rightarrow> []
      | Some addrs \<Rightarrow> List.map_filter (\<lambda>a. if a = [] then None else de_ParseIP env a) addrs)"

definition resolveStackName :: "dns_env \<Rightarrow> string \<Rightarrow> bytes list option" where
  "resolveStackName env name =
     (case map_of (de_containers env) (trim_suffix name ''.'') of
        None \<Rightarrow> None
      | Some insts \<Rightarrow>
          let out = concat (map (inspected_ips env) insts) in if out = [] then None else Some out)"

definition IP_Equal :: "bytes \<Rightarrow> bytes \<Rightarrow> bool" where
  "IP_Equal ip x =
     (if length ip = length x then ip = x
      else if length ip = 4 \<and> length x = 16 then take 12 x = replicate 10 (CHR 0x00) @ [CHR 0xFF, CHR 0xFF] \<and> ip = drop 12 x
      else if length ip = 16 \<and> length x = 4 then take 12 ip = replicate 10 (CHR 0x00) @ [CHR 0xFF, CHR 0xFF] \<and> drop 12 ip = x
      else False)"

definition is_source :: "dns_env \<Rightarrow> bytes \<Rightarrow> string \<Rightarrow> bool" where
  "is_source env srcIP cid =
     (case de_inspect env cid of
        None \<Rightarrow> False
      | Some addrs \<Rightarrow> list_ex (\<lambda>a. IP_Equal (case de_ParseIP env a of None \<Rightarrow> [] | Some ip \<Rightarrow> ip) srcIP) addrs)"

definition allowedFor :: "dns_env \<Rightarrow> bytes option \<Rightarrow> string \<Rightarrow> bool" where
  "allowedFor env msrc name =
     (case msrc of
        None \<Rightarrow> True
      | Some srcIP \<Rightarrow>
          (case find (\<lambda>(svc, insts). list_ex (is_source env srcIP) insts) (de_containers env) of
             None \<Rightarrow> True
           | Some (svc, _) \<Rightarrow>
               (case map_of (de_egress env) svc of
                  None \<Rightarrow> True
                | Some None \<Rightarrow> True
                | Some (Some c) \<Rightarrow> AllowsName name c)))"

datatype dns_reply = NoReply | Reply bytes

definition reply :: "bytes option \<Rightarrow> dns_reply option" where
  "reply out = map_option Reply out"

definition respond :: "dns_env \<Rightarrow> bytes \<Rightarrow> string \<Rightarrow> dns_reply option" where
  "respond env query srcAddr =
     (if length query < 12 then Some NoReply
      else case (uint16_at query 0, uint16_at query 2, uint16_at query 4) of
          (Some ident, Some flags, Some qdcount) \<Rightarrow>
            let hdr = \<lparr>dh_ID = ident, dh_Flags = flags, dh_QDCount = qdcount\<rparr> in
            if qdcount = 0 then reply (respondError hdr query dnsRCodeFormErr)
            else (case decodeQuestion query 12 of
                None \<Rightarrow> None
              | Some (Inl e) \<Rightarrow> reply (respondError hdr query dnsRCodeFormErr)
              | Some (Inr q) \<Rightarrow>
                  if q_class q \<noteq> dnsClassIN then reply (respondError hdr query dnsRCodeNotImpl)
                  else (case resolveStackName env (q_name q) of
                      Some ips \<Rightarrow> reply (respondAnswers hdr query (q_name q) (q_type q) ips)
                    | None \<Rightarrow>
                        if \<not> allowedFor env (de_ParseIP env (de_SplitHost env srcAddr)) (q_name q)
                        then reply (respondError hdr query dnsRCodeNXDomain)
                        else (case de_LookupIP env (q_type q = dnsTypeAAAA) (trim_suffix (q_name q) ''.'') of
                            None \<Rightarrow> reply (respondError hdr query dnsRCodeNXDomain)
                          | Some [] \<Rightarrow> reply (respondError hdr query dnsRCodeNXDomain)
                          | Some ips \<Rightarrow> reply (respondAnswers hdr query (q_name q) (q_type q) ips))))
        | _ \<Rightarrow> None)"

text \<open>Over TCP the message follows its length, and so does the reply. \<open>read\<close> is what arrives before the deadline.\<close>

definition handleTCPQuery :: "dns_env \<Rightarrow> bytes \<Rightarrow> string \<Rightarrow> dns_reply option" where
  "handleTCPQuery env read srcAddr =
     (if length read < 2 then Some NoReply
      else case Uint16 read of
          None \<Rightarrow> None
        | Some msgLen \<Rightarrow>
            if msgLen = 0 then Some NoReply
            else if length read < 2 + unat msgLen then Some NoReply
            else (case respond env (take (unat msgLen) (drop 2 read)) srcAddr of
                None \<Rightarrow> None
              | Some NoReply \<Rightarrow> Some NoReply
              | Some (Reply resp) \<Rightarrow> Some (Reply (uint16_bytes (of_nat (length resp)) @ resp))))"

section \<open>No query makes the resolver panic\<close>

lemma uint16_at_ok: "off + 2 \<le> length b \<Longrightarrow> \<exists>v. uint16_at b off = Some v"
  by (simp add: uint16_at_def slice_def Uint16_def)

lemma put_uint16_ok: "off + 2 \<le> length b \<Longrightarrow> \<exists>b'. put_uint16 off v b = Some b' \<and> length b' = length b"
  by (simp add: put_uint16_def)

lemma decode_labels_ok:
  "\<exists>r. decode_labels buf off labels = Some r \<and> (\<forall>ls e. r = Inr (ls, e) \<longrightarrow> e \<le> length buf \<and> question_end buf off = e + 4)"
proof (induction buf off labels rule: decode_labels.induct)
  case (1 buf off labels)
  show ?case
  proof (cases "off \<ge> length buf")
    case True
    then show ?thesis by (simp add: decode_labels.simps)
  next
    case False
    let ?l = "of_char (buf ! off) :: nat"
    have qe: "question_end buf off = (if ?l = 0 then off + 1 + 4 else question_end buf (off + 1 + ?l))"
      using False by (subst question_end.simps) (simp add: Let_def)
    show ?thesis
    proof (cases "?l = 0 \<or> ?l > 63 \<or> off + 1 + ?l > length buf")
      case True
      then show ?thesis using False qe by (subst decode_labels.simps) (auto simp: Let_def)
    next
      case step: False
      define lab where "lab = take ?l (drop (off + 1) buf)"
      have s: "slice buf (off + 1) (off + 1 + ?l) = Some lab" using step by (simp add: slice_def lab_def)
      have rec: "decode_labels buf off labels = decode_labels buf (off + 1 + ?l) (labels @ [lab])"
        using False step s by (subst decode_labels.simps) (simp add: Let_def)
      from "1.IH" [OF False refl refl] step s
      have "\<exists>r. decode_labels buf (off + 1 + ?l) (labels @ [lab]) = Some r \<and>
          (\<forall>ls e. r = Inr (ls, e) \<longrightarrow> e \<le> length buf \<and> question_end buf (off + 1 + ?l) = e + 4)" by auto
      then show ?thesis using rec qe step by auto
    qed
  qed
qed

lemma decodeQuestion_ok:
  "\<exists>r. decodeQuestion buf off = Some r \<and> (\<forall>q. r = Inr q \<longrightarrow> q_end q \<le> length buf \<and> question_end buf off = q_end q)"
proof -
  obtain r where r: "decode_labels buf off [] = Some r" "\<And>ls e. r = Inr (ls, e) \<Longrightarrow> e \<le> length buf \<and> question_end buf off = e + 4"
    using decode_labels_ok [of buf off "[]"] by blast
  show ?thesis
  proof (cases r)
    case (Inr x)
    obtain ls e where x: "x = (ls, e)" by fastforce
    show ?thesis
    proof (cases "e + 4 > length buf")
      case False
      then obtain a b where "uint16_at buf e = Some a" "uint16_at buf (e + 2) = Some b"
        using uint16_at_ok [of e buf] uint16_at_ok [of "e + 2" buf] by auto
      then show ?thesis using r Inr x False by (simp add: decodeQuestion_def)
    qed (use r Inr x in \<open>simp add: decodeQuestion_def\<close>)
  qed (use r in \<open>simp add: decodeQuestion_def\<close>)
qed

text \<open>The fixed part of a reply: the identifier of the query, the flags and the counts.\<close>

definition reply_header :: "bytes \<Rightarrow> 16 word \<Rightarrow> 16 word \<Rightarrow> bytes \<Rightarrow> bool" where
  "reply_header query rcode ancount out \<longleftrightarrow>
     12 \<le> length out \<and> uint16_at out 0 = uint16_at query 0 \<and> uint16_at out 4 = uint16_at query 4 \<and>
     uint16_at out 2 = map_option (\<lambda>flags. 0x8000 OR (flags AND 0x0100) OR 0x0480 OR (rcode AND 0xF)) (uint16_at query 2) \<and>
     uint16_at out 6 = Some ancount \<and> uint16_at out 8 = Some 0 \<and> uint16_at out 10 = Some 0"

lemma uint16_at_nth:
  "uint16_at b off = (if off + 2 \<le> length b then Some (word_of_int (of_char (b ! off) * 256 + of_char (b ! (off + 1)))) else None)"
  by (simp add: uint16_at_def slice_def Uint16_def)

lemma uint16_roundtrip: "word_of_int (of_char (char_of (uint v div 256) :: char) * 256 + of_char (char_of (uint v) :: char)) = (v :: 16 word)"
proof -
  have "0 \<le> uint v" "uint v < 65536" using uint_lt2p [of v] by simp_all
  then have "of_char (char_of (uint v div 256) :: char) = uint v div 256" "of_char (char_of (uint v) :: char) = uint v mod 256"
    by (simp_all add: take_bit_eq_mod mod_pos_pos_trivial div_int_pos_iff)
  then have "of_char (char_of (uint v div 256) :: char) * 256 + of_char (char_of (uint v) :: char) = uint v"
    by (simp only: div_mult_mod_eq)
  then show ?thesis by simp
qed

lemma put_uint16_at:
  assumes "put_uint16 off v b = Some b'"
  shows "uint16_at b' off = Some v" "k + 2 \<le> off \<or> off + 2 \<le> k \<Longrightarrow> uint16_at b' k = uint16_at b k" "length b' = length b"
    "off + 2 \<le> n \<Longrightarrow> drop n b' = drop n b"
  using assms uint16_roundtrip [of v]
  by (auto simp: put_uint16_def uint16_at_nth uint16_bytes_def nth_list_update split: if_splits)

definition put_header :: "16 word \<Rightarrow> 16 word \<Rightarrow> 16 word \<Rightarrow> bytes \<Rightarrow> bytes option" where
  "put_header ident flags ancount out =
     Option.bind (put_uint16 0 ident out) (\<lambda>out. Option.bind (put_uint16 2 flags out) (\<lambda>out.
     Option.bind (put_uint16 6 ancount out) (\<lambda>out. Option.bind (put_uint16 8 0 out) (put_uint16 10 0))))"

lemma put_header_ok:
  assumes "12 \<le> length b"
  shows "\<exists>out. put_header ident flags ancount b = Some out \<and> length out = length b \<and> drop 12 out = drop 12 b \<and>
    uint16_at out 0 = Some ident \<and> uint16_at out 2 = Some flags \<and> uint16_at out 4 = uint16_at b 4 \<and>
    uint16_at out 6 = Some ancount \<and> uint16_at out 8 = Some 0 \<and> uint16_at out 10 = Some 0"
proof -
  obtain b1 where b1: "put_uint16 0 ident b = Some b1" using put_uint16_ok [of 0 b] assms by auto
  note p1 = put_uint16_at [OF b1]
  obtain b2 where b2: "put_uint16 2 flags b1 = Some b2" using put_uint16_ok [of 2 b1] assms p1(3) by auto
  note p2 = put_uint16_at [OF b2]
  obtain b3 where b3: "put_uint16 6 ancount b2 = Some b3" using put_uint16_ok [of 6 b2] assms p1(3) p2(3) by auto
  note p3 = put_uint16_at [OF b3]
  obtain b4 where b4: "put_uint16 8 0 b3 = Some b4" using put_uint16_ok [of 8 b3] assms p1(3) p2(3) p3(3) by auto
  note p4 = put_uint16_at [OF b4]
  obtain b5 where b5: "put_uint16 10 0 b4 = Some b5" using put_uint16_ok [of 10 b4] assms p1(3) p2(3) p3(3) p4(3) by auto
  note p5 = put_uint16_at [OF b5]
  have "put_header ident flags ancount b = Some b5" by (simp add: put_header_def b1 b2 b3 b4 b5)
  moreover have "drop 12 b5 = drop 12 b" using p1(4) [of 12] p2(4) [of 12] p3(4) [of 12] p4(4) [of 12] p5(4) [of 12] by simp
  moreover have "uint16_at b5 0 = Some ident" "uint16_at b5 2 = Some flags" "uint16_at b5 4 = uint16_at b 4"
    "uint16_at b5 6 = Some ancount" "uint16_at b5 8 = Some 0" "uint16_at b5 10 = Some 0"
    using p1(1,2) p2(1,2) p3(1,2) p4(1,2) p5(1,2) by simp_all
  ultimately show ?thesis using p1(3) p2(3) p3(3) p4(3) p5(3) by auto
qed

lemma respondError_ok:
  assumes "12 \<le> length query" "uint16_at query 0 = Some (dh_ID hdr)" "uint16_at query 2 = Some (dh_Flags hdr)"
  shows "\<exists>out. respondError hdr query rcode = Some out \<and> reply_header query rcode 0 out \<and> drop 12 out = drop 12 query"
proof -
  have "respondError hdr query rcode = put_header (dh_ID hdr) (0x8000 OR (dh_Flags hdr AND 0x0100) OR 0x0480 OR (rcode AND 0xF)) 0 query"
    by (simp add: respondError_def put_header_def)
  then show ?thesis using put_header_ok [OF assms(1)] assms by (fastforce simp: reply_header_def)
qed

text \<open>The records of an answer, and the reply around them.\<close>

definition answers_for :: "string \<Rightarrow> 16 word \<Rightarrow> bytes list \<Rightarrow> bytes" where
  "answers_for name qtype ips = concat (map (\<lambda>(rtype, rdata). answer_record name rtype rdata) (List.map_filter (rdata_of qtype) ips))"

definition answer_count :: "16 word \<Rightarrow> bytes list \<Rightarrow> 16 word" where
  "answer_count qtype ips = of_nat (length (List.map_filter (rdata_of qtype) ips))"

lemma respondAnswers_ok:
  assumes "12 \<le> length query" "uint16_at query 0 = Some (dh_ID hdr)" "uint16_at query 2 = Some (dh_Flags hdr)"
    and q: "decodeQuestion query 12 = Some (Inr q)"
  shows "\<exists>out. respondAnswers hdr query name qtype ips = Some out \<and> reply_header query 0 (answer_count qtype ips) out \<and>
    drop 12 out = drop 12 (take (q_end q) query) @ answers_for name qtype ips"
proof -
  have e: "question_end query 12 = q_end q" "q_end q \<le> length query" using decodeQuestion_ok [of query 12] q by auto
  have lo: "12 \<le> q_end q"
  proof -
    have "12 \<le> question_end query k" if "12 \<le> k" for k
      using that by (induction query k rule: question_end.induct) (subst question_end.simps, auto simp: Let_def)
    from this [of 12] show ?thesis using e(1) by simp
  qed
  let ?b = "take 12 query @ drop 12 (take (q_end q) query) @ answers_for name qtype ips"
  have s: "slice query 0 12 = Some (take 12 query)" "slice query 12 (q_end q) = Some (drop 12 (take (q_end q) query))"
    using assms(1) e lo by (simp_all add: slice_def drop_take)
  have "respondAnswers hdr query name qtype ips = put_header (dh_ID hdr) (0x8000 OR (dh_Flags hdr AND 0x0100) OR 0x0480) (answer_count qtype ips) ?b"
    by (simp add: respondAnswers_def put_header_def e(1) s Let_def answers_for_def answer_count_def)
  moreover have "12 \<le> length ?b" using assms(1) by simp
  moreover have "uint16_at ?b 4 = uint16_at query 4" using assms(1) by (simp add: uint16_at_nth nth_append)
  moreover have "drop 12 ?b = drop 12 (take (q_end q) query) @ answers_for name qtype ips" using assms(1) by simp
  ultimately show ?thesis using put_header_ok [of ?b] assms by (fastforce simp: reply_header_def)
qed

section \<open>Names survive encoding\<close>

definition label_valid :: "string \<Rightarrow> bool" where
  "label_valid l \<longleftrightarrow> l \<noteq> [] \<and> length l \<le> 63 \<and> CHR ''.'' \<notin> set l"

definition wire_labels :: "string list \<Rightarrow> bytes" where
  "wire_labels labels = concat (map (\<lambda>l. char_of (length l) # l) labels) @ [CHR 0x00]"

lemma decode_wire:
  assumes "list_all label_valid labels"
  shows "decode_labels (pre @ wire_labels labels @ post) (length pre) acc = Some (Inr (acc @ labels, length pre + length (wire_labels labels)))"
  using assms
proof (induction labels arbitrary: pre acc)
  case Nil
  then show ?case by (subst decode_labels.simps) (simp add: wire_labels_def nth_append)
next
  case (Cons l labels)
  let ?buf = "pre @ wire_labels (l # labels) @ post"
  have l: "label_valid l" "list_all label_valid labels" using Cons.prems by simp_all
  have len: "of_char (char_of (length l) :: char) = length l" using l(1) by (simp add: label_valid_def take_bit_nat_eq_self)
  have buf: "?buf = (pre @ char_of (length l) # l) @ wire_labels labels @ post" by (simp add: wire_labels_def)
  have at: "?buf ! length pre = char_of (length l)" by (simp add: wire_labels_def nth_append)
  have s: "slice ?buf (length pre + 1) (length pre + 1 + length l) = Some l" by (simp add: slice_def wire_labels_def)
  have "decode_labels ?buf (length pre) acc = decode_labels ?buf (length pre + 1 + length l) (acc @ [l])"
    using l(1) at len s by (subst decode_labels.simps) (simp add: Let_def label_valid_def wire_labels_def)
  also have "\<dots> = decode_labels ((pre @ char_of (length l) # l) @ wire_labels labels @ post) (length (pre @ char_of (length l) # l)) (acc @ [l])"
    unfolding buf by simp
  also have "\<dots> = Some (Inr ((acc @ [l]) @ labels, length (pre @ char_of (length l) # l) + length (wire_labels labels)))"
    by (rule Cons.IH [OF l(2)])
  finally show ?case by (simp add: wire_labels_def)
qed

lemma encodeName_wire:
  assumes "labels \<noteq> []" "list_all label_valid labels"
  shows "encodeName (join_on (CHR ''.'') labels @ ''.'') = wire_labels labels"
proof -
  have "join_on (CHR ''.'') labels \<noteq> []" using assms by (induction labels rule: join_on.induct) (auto simp: label_valid_def)
  moreover have "split_on (CHR ''.'') (join_on (CHR ''.'') labels) = labels"
    using assms by (intro split_join_on) (auto simp: list_all_iff label_valid_def)
  moreover have "map (\<lambda>label. let label = take 63 label in char_of (length label) # label) labels = map (\<lambda>l. char_of (length l) # l) labels"
    using assms(2) by (auto simp: list_all_iff label_valid_def Let_def)
  moreover have "trim_suffix (join_on (CHR ''.'') labels @ ''.'') ''.'' = join_on (CHR ''.'') labels" by (simp add: trim_suffix_def suffix_def)
  ultimately show ?thesis unfolding encodeName_def wire_labels_def Let_def by (simp only: if_False)
qed

section \<open>Properties\<close>

text \<open>The question of a query that can be answered.\<close>

definition asks :: "bytes \<Rightarrow> question \<Rightarrow> bool" where
  "asks query q \<longleftrightarrow> 12 \<le> length query \<and> uint16_at query 4 \<noteq> Some 0 \<and> decodeQuestion query 12 = Some (Inr q) \<and> q_class q = dnsClassIN"

text \<open>A service asks if one of its containers has the source address; its policy may deny a name.\<close>

definition asking :: "dns_env \<Rightarrow> string \<Rightarrow> string \<Rightarrow> bool" where
  "asking env srcAddr svc \<longleftrightarrow>
     (\<exists>ip insts. de_ParseIP env (de_SplitHost env srcAddr) = Some ip \<and> (svc, insts) \<in> set (de_containers env) \<and> list_ex (is_source env ip) insts)"

definition policy_denies :: "dns_env \<Rightarrow> string \<Rightarrow> string \<Rightarrow> bool" where
  "policy_denies env name svc \<longleftrightarrow> (\<exists>c. map_of (de_egress env) svc = Some (Some c) \<and> \<not> AllowsName name c)"

lemma allowedFor_cases:
  obtains (outside) "allowedFor env (de_ParseIP env (de_SplitHost env srcAddr)) name" "\<And>svc. \<not> asking env srcAddr svc"
  | (service) svc where "asking env srcAddr svc"
      "allowedFor env (de_ParseIP env (de_SplitHost env srcAddr)) name \<longleftrightarrow> \<not> policy_denies env name svc"
proof (cases "de_ParseIP env (de_SplitHost env srcAddr)")
  case None
  then show ?thesis by (intro outside) (simp_all add: allowedFor_def asking_def)
next
  case src: (Some ip)
  let ?find = "find (\<lambda>(svc, insts). list_ex (is_source env ip) insts) (de_containers env)"
  show ?thesis
  proof (cases ?find)
    case None
    then have "allowedFor env (de_ParseIP env (de_SplitHost env srcAddr)) name" using src by (simp add: allowedFor_def)
    moreover have "\<not> asking env srcAddr svc" for svc using None src by (auto simp: asking_def find_None_iff)
    ultimately show ?thesis by (rule outside)
  next
    case (Some e)
    obtain svc insts where e: "e = (svc, insts)" by (cases e)
    have "(svc, insts) \<in> set (de_containers env)" "list_ex (is_source env ip) insts"
      using Some e by (auto simp: find_Some_iff dest: nth_mem)
    then show ?thesis
      using src Some e by (intro service [of svc]) (auto simp: allowedFor_def asking_def policy_denies_def split: option.split)
  qed
qed

text \<open>C37: No packet makes the resolver panic. Whatever bytes arrive and whatever the daemon and the upstream resolver
  answer, every index and slice is in bounds. A query of at least twelve bytes always gets a reply, with
  the identifier and the question count of the query, the response bit set, the recursion bit copied and the other
  counts zero; a shorter one gets none.\<close>

theorem dns_never_panics:
  "\<exists>r. respond env query srcAddr = Some r \<and>
     (if length query < 12 then r = NoReply
      else \<exists>out rcode ancount. r = Reply out \<and> reply_header query rcode ancount out)"
proof (cases "length query < 12")
  case False
  then have len: "12 \<le> length query" by simp
  then obtain i f c where w: "uint16_at query 0 = Some i" "uint16_at query 2 = Some f" "uint16_at query 4 = Some c"
    using uint16_at_ok [of 0 query] uint16_at_ok [of 2 query] uint16_at_ok [of 4 query] by auto
  let ?hdr = "\<lparr>dh_ID = i, dh_Flags = f, dh_QDCount = c\<rparr>"
  have err: "\<exists>out. respondError ?hdr query rcode = Some out \<and> reply_header query rcode 0 out" for rcode
    using respondError_ok [OF len, of ?hdr rcode] w by auto
  have err': "\<exists>r. reply (respondError ?hdr query rcode) = Some r \<and> (\<exists>out rcode ancount. r = Reply out \<and> reply_header query rcode ancount out)" for rcode
    using err [of rcode] by (auto simp: reply_def)
  have ans: "\<exists>r. reply (respondAnswers ?hdr query name qtype ips) = Some r \<and> (\<exists>out rcode ancount. r = Reply out \<and> reply_header query rcode ancount out)"
    if "decodeQuestion query 12 = Some (Inr q)" for name qtype ips q
    using respondAnswers_ok [OF len, of ?hdr q name qtype ips] w that by (auto simp: reply_def)
  obtain d where d: "decodeQuestion query 12 = Some d" using decodeQuestion_ok [of query 12] by blast
  show ?thesis
    using False w d err' ans by (auto simp: respond_def Let_def split: sum.split option.split list.split)
qed (simp add: respond_def)


text \<open>A container at 10.0.0.2 that may only resolve one domain asks for another one.\<close>

definition sample_query :: "string \<Rightarrow> bytes" where
  "sample_query name = uint16_bytes 0x1234 @ uint16_bytes 0x0100 @ uint16_bytes 1 @ replicate 6 (CHR 0x00) @ encodeName name @
     uint16_bytes dnsTypeA @ uint16_bytes dnsClassIN"

definition sample_dns :: dns_env where
  "sample_dns =
     \<lparr>de_containers = [(''web'', [''c1''])],
      de_egress = [(''web'', Some \<lparr>ce_allowNets = [], ce_denyNets = [],
        ce_allowDomains = [\<lparr>dp_raw = ''example.com'', dp_parts = [''com'', ''example''], dp_deep = False\<rparr>],
        ce_denyDomains = [], ce_defaultAllow = False\<rparr>)],
      de_inspect = (\<lambda>_. Some [''10.0.0.2'']),
      de_ParseIP = (\<lambda>a. if a = ''10.0.0.2'' then Some [CHR 0x0A, CHR 0x00, CHR 0x00, CHR 0x02] else None),
      de_SplitHost = takeWhile (\<lambda>c. c \<noteq> CHR '':''),
      de_LookupIP = (\<lambda>_ _. Some [[CHR 0x01, CHR 0x02, CHR 0x03, CHR 0x04]])\<rparr>"


text \<open>C39: Names survive the wire. A name of one or more labels of 1 to 63 bytes without dots, encoded anywhere in a message and
  followed by a type and a class, is decoded to itself with that type and class, and decoding ends right
  after them.\<close>

theorem dns_name_roundtrip:
  assumes "labels \<noteq> []" "list_all label_valid labels"
  shows "decodeQuestion (pre @ encodeName (join_on (CHR ''.'') labels @ ''.'') @ uint16_bytes qtype @ uint16_bytes qclass @ post) (length pre) =
    Some (Inr \<lparr>q_name = join_on (CHR ''.'') labels @ ''.'', q_type = qtype, q_class = qclass,
      q_end = length pre + length (encodeName (join_on (CHR ''.'') labels @ ''.'')) + 4\<rparr>)"
proof -
  let ?w = "wire_labels labels" and ?rest = "uint16_bytes qtype @ uint16_bytes qclass @ post"
  have d: "decode_labels (pre @ ?w @ ?rest) (length pre) [] = Some (Inr (labels, length pre + length ?w))"
    using decode_wire [OF assms(2), of pre ?rest "[]"] by simp
  have at: "uint16_at (pre @ ?w @ ?rest) (length pre + length ?w) = Some qtype"
    "uint16_at (pre @ ?w @ ?rest) (length pre + length ?w + 2) = Some qclass"
    using uint16_roundtrip by (simp_all add: uint16_at_nth uint16_bytes_def nth_append)
  show ?thesis unfolding encodeName_wire [OF assms] decodeQuestion_def d using at by (simp add: uint16_bytes_def)
qed

theorem dns_name_roundtrip_witness:
  "decodeQuestion (''..'' @ encodeName ''www.example.com.'' @ uint16_bytes dnsTypeAAAA @ uint16_bytes dnsClassIN @ ''x'') 2 =
    Some (Inr \<lparr>q_name = ''www.example.com.'', q_type = dnsTypeAAAA, q_class = dnsClassIN, q_end = 23\<rparr>)"
proof -
  have "list_all label_valid [''www'', ''example'', ''com'']" "length (encodeName ''www.example.com.'') = 17" by code_simp+
  then show ?thesis using dns_name_roundtrip [of "[''www'', ''example'', ''com'']" "''..''" dnsTypeAAAA dnsClassIN "''x''"] by (simp add: numeral_2_eq_2)
qed

end
