(* ===== verification/Net_Service.thy ===== *)
theory Net_Service imports
  Complex_Main
  Net_Egress
  Retry_Backoff
begin

text \<open>
  Definitions of services (\<^verbatim>\<open>docker/network/service.go\<close>), probes (\<^verbatim>\<open>probe.go\<close>), image pins (\<^verbatim>\<open>image_pin.go\<close>) and container
  labels (\<^verbatim>\<open>labels.go\<close>): the records, every option and setter, the defaults and the validation. A hook is the
  identity of a user function; what it does is decided where it runs.
\<close>

section \<open>Probes\<close>

datatype ProbeMode = ProbeModeUnset | ProbeReadiness | ProbeLiveness

datatype ProbeKind = ProbeKindUnset | ProbeTCP | ProbeHTTP | ProbeUDP | ProbeGRPC | ProbeExec

datatype ProbeLocation = ProbeLocationAuto | ProbeLocationLoopback | ProbeLocationContainerIP | ProbeLocationExec

record Probe =
  pb_Kind :: ProbeKind
  pb_Port :: int
  pb_HTTPPath :: string
  pb_HTTPMethod :: string
  pb_HTTPHeaders :: "(string \<times> string) list"
  pb_HTTPExpectCode :: int
  pb_HTTPExpectBody :: string
  pb_UDPSend :: bytes
  pb_UDPExpectReply :: bool
  pb_UDPExpectBytes :: bytes
  pb_GRPCService :: string
  pb_ExecCmd :: "string list"
  pb_Location :: ProbeLocation
  pb_InitialDelay :: duration
  pb_Interval :: duration
  pb_Timeout :: duration
  pb_FailureThreshold :: int
  pb_SuccessThreshold :: int
  pb_Jitter :: duration

definition zero_probe :: Probe where
  "zero_probe =
     \<lparr>pb_Kind = ProbeKindUnset, pb_Port = 0, pb_HTTPPath = [], pb_HTTPMethod = [], pb_HTTPHeaders = [], pb_HTTPExpectCode = 0,
      pb_HTTPExpectBody = [], pb_UDPSend = [], pb_UDPExpectReply = False, pb_UDPExpectBytes = [], pb_GRPCService = [],
      pb_ExecCmd = [], pb_Location = ProbeLocationAuto, pb_InitialDelay = 0, pb_Interval = 0, pb_Timeout = 0,
      pb_FailureThreshold = 0, pb_SuccessThreshold = 0, pb_Jitter = 0\<rparr>"

definition TCPProbe :: "int \<Rightarrow> Probe" where
  "TCPProbe port = zero_probe\<lparr>pb_Kind := ProbeTCP, pb_Port := port\<rparr>"

definition HTTPProbe :: "int \<Rightarrow> string \<Rightarrow> Probe" where
  "HTTPProbe port path = zero_probe\<lparr>pb_Kind := ProbeHTTP, pb_Port := port, pb_HTTPPath := path\<rparr>"

definition UDPProbe :: "int \<Rightarrow> bytes \<Rightarrow> Probe" where
  "UDPProbe port send = zero_probe\<lparr>pb_Kind := ProbeUDP, pb_Port := port, pb_UDPSend := send, pb_UDPExpectReply := True\<rparr>"

definition GRPCProbe :: "int \<Rightarrow> string \<Rightarrow> Probe" where
  "GRPCProbe port service = zero_probe\<lparr>pb_Kind := ProbeGRPC, pb_Port := port, pb_GRPCService := service\<rparr>"

definition ExecProbe :: "string list \<Rightarrow> Probe" where
  "ExecProbe cmd = zero_probe\<lparr>pb_Kind := ProbeExec, pb_ExecCmd := cmd, pb_Location := ProbeLocationExec\<rparr>"

definition WithMethod :: "string \<Rightarrow> Probe \<Rightarrow> Probe" where "WithMethod m p = p\<lparr>pb_HTTPMethod := m\<rparr>"
definition WithHeader :: "string \<Rightarrow> string \<Rightarrow> Probe \<Rightarrow> Probe" where "WithHeader k v p = p\<lparr>pb_HTTPHeaders := alist_put k v (pb_HTTPHeaders p)\<rparr>"
definition WithExpectStatus :: "int \<Rightarrow> Probe \<Rightarrow> Probe" where "WithExpectStatus code p = p\<lparr>pb_HTTPExpectCode := code\<rparr>"
definition WithExpectBody :: "string \<Rightarrow> Probe \<Rightarrow> Probe" where "WithExpectBody s p = p\<lparr>pb_HTTPExpectBody := s\<rparr>"
definition WithUDPExpect :: "bytes \<Rightarrow> Probe \<Rightarrow> Probe" where "WithUDPExpect want p = p\<lparr>pb_UDPExpectReply := True, pb_UDPExpectBytes := want\<rparr>"
definition WithLocation :: "ProbeLocation \<Rightarrow> Probe \<Rightarrow> Probe" where "WithLocation loc p = p\<lparr>pb_Location := loc\<rparr>"
definition WithInitialDelay :: "duration \<Rightarrow> Probe \<Rightarrow> Probe" where "WithInitialDelay d p = p\<lparr>pb_InitialDelay := d\<rparr>"
definition WithInterval :: "duration \<Rightarrow> Probe \<Rightarrow> Probe" where "WithInterval d p = p\<lparr>pb_Interval := d\<rparr>"
definition WithTimeout :: "duration \<Rightarrow> Probe \<Rightarrow> Probe" where "WithTimeout d p = p\<lparr>pb_Timeout := d\<rparr>"
definition WithFailureThreshold :: "int \<Rightarrow> Probe \<Rightarrow> Probe" where "WithFailureThreshold n p = p\<lparr>pb_FailureThreshold := n\<rparr>"
definition WithSuccessThreshold :: "int \<Rightarrow> Probe \<Rightarrow> Probe" where "WithSuccessThreshold n p = p\<lparr>pb_SuccessThreshold := n\<rparr>"
definition WithJitter :: "duration \<Rightarrow> Probe \<Rightarrow> Probe" where "WithJitter d p = p\<lparr>pb_Jitter := d\<rparr>"

definition probe_withDefaults :: "Probe \<Rightarrow> Probe" where
  "probe_withDefaults p =
     (let interval = (if pb_Interval p \<le> 0 then second else pb_Interval p) in
      p\<lparr>pb_Interval := interval,
        pb_Timeout := (if pb_Timeout p \<le> 0 then second else pb_Timeout p),
        pb_FailureThreshold := (if pb_FailureThreshold p \<le> 0 then 3 else pb_FailureThreshold p),
        pb_SuccessThreshold := (if pb_SuccessThreshold p \<le> 0 then 1 else pb_SuccessThreshold p),
        pb_Jitter := (if pb_Jitter p \<le> 0 then interval div 4 else pb_Jitter p),
        pb_HTTPMethod := (if pb_HTTPMethod p = [] \<and> pb_Kind p = ProbeHTTP then ''GET'' else pb_HTTPMethod p)\<rparr>)"

datatype probe_error = ProbeNeedsPort ProbeKind | ProbeNeedsPath | ProbeNeedsSend | ProbeNeedsCmd | ProbeNeedsExecLocation
  | ProbeUnknownKind | ProbeNegative

definition bad_port :: "int \<Rightarrow> bool" where "bad_port port \<longleftrightarrow> port \<le> 0 \<or> port > 65535"

definition probe_validate :: "Probe \<Rightarrow> probe_error option" where
  "probe_validate p =
     (let kind = (case pb_Kind p of
            ProbeTCP \<Rightarrow> if bad_port (pb_Port p) then Some (ProbeNeedsPort ProbeTCP) else None
          | ProbeHTTP \<Rightarrow>
              if bad_port (pb_Port p) then Some (ProbeNeedsPort ProbeHTTP)
              else if pb_HTTPPath p = [] then Some ProbeNeedsPath else None
          | ProbeUDP \<Rightarrow>
              if bad_port (pb_Port p) then Some (ProbeNeedsPort ProbeUDP)
              else if pb_UDPSend p = [] then Some ProbeNeedsSend else None
          | ProbeGRPC \<Rightarrow> if bad_port (pb_Port p) then Some (ProbeNeedsPort ProbeGRPC) else None
          | ProbeExec \<Rightarrow>
              if pb_ExecCmd p = [] then Some ProbeNeedsCmd
              else if pb_Location p \<noteq> ProbeLocationExec \<and> pb_Location p \<noteq> ProbeLocationAuto then Some ProbeNeedsExecLocation else None
          | ProbeKindUnset \<Rightarrow> Some ProbeUnknownKind)
      in case kind of
           Some e \<Rightarrow> Some e
         | None \<Rightarrow>
             if pb_Interval p < 0 \<or> pb_Timeout p < 0 \<or> pb_FailureThreshold p < 0 \<or> pb_SuccessThreshold p < 0
             then Some ProbeNegative else None)"

section \<open>Services\<close>

record ServicePort =
  po_Port :: int
  po_Protocol :: string

record ServiceMount =
  mo_Type :: string
  mo_Source :: string
  mo_Target :: string
  mo_ReadOnly :: bool

record SecretRef =
  sr_Name :: string
  sr_MountPath :: string
  sr_Mode :: "32 word"

record ResourceLimits =
  rl_CPUShares :: int
  rl_CPUPercent :: rat
  rl_MemoryBytes :: int
  rl_MemoryReservationBytes :: int
  rl_PidsLimit :: int

type_synonym hook = nat

record Service =
  sv_name :: string
  sv_image :: string
  sv_cmd :: "string list"
  sv_entrypoint :: "string list"
  sv_env :: "(string \<times> string) list"
  sv_workDir :: string
  sv_user :: string
  sv_ports :: "ServicePort list"
  sv_mounts :: "ServiceMount list"
  sv_depends :: "string list"
  sv_replicas :: int
  sv_probe :: "Probe option"
  sv_probeMode :: ProbeMode
  sv_restart :: RestartPolicy
  sv_resources :: ResourceLimits
  sv_role :: string
  sv_preStart :: "hook list"
  sv_postStart :: "hook list"
  sv_preStop :: "hook list"
  sv_secrets :: "SecretRef list"
  sv_egress :: "EgressPolicy option"
  sv_initBefore :: "string list"
  sv_extraLabels :: "(string \<times> string) list"
  sv_capAdd :: "string list"
  sv_capDrop :: "string list"
  sv_stopTimeout :: duration

definition RoleService :: string where "RoleService = ''service''"
definition RoleInit :: string where "RoleInit = ''init''"
definition RoleSidecar :: string where "RoleSidecar = ''sidecar''"

definition new_service :: "string \<Rightarrow> Service" where
  "new_service name =
     \<lparr>sv_name = name, sv_image = [], sv_cmd = [], sv_entrypoint = [], sv_env = [], sv_workDir = [], sv_user = [], sv_ports = [],
      sv_mounts = [], sv_depends = [], sv_replicas = 0, sv_probe = None, sv_probeMode = ProbeModeUnset, sv_restart = \<lparr>rs_Kind = RestartNever, rs_MaxAttempts = 0, rs_Backoff = None\<rparr>,
      sv_resources = \<lparr>rl_CPUShares = 0, rl_CPUPercent = 0, rl_MemoryBytes = 0, rl_MemoryReservationBytes = 0, rl_PidsLimit = 0\<rparr>,
      sv_role = [], sv_preStart = [], sv_postStart = [], sv_preStop = [], sv_secrets = [], sv_egress = None, sv_initBefore = [],
      sv_extraLabels = [], sv_capAdd = [], sv_capDrop = [], sv_stopTimeout = 0\<rparr>"

type_synonym ServiceOption = "Service \<Rightarrow> Service"

definition opt_Image :: "string \<Rightarrow> ServiceOption" where "opt_Image img s = s\<lparr>sv_image := img\<rparr>"
definition opt_Cmd :: "string list \<Rightarrow> ServiceOption" where "opt_Cmd args s = s\<lparr>sv_cmd := args\<rparr>"
definition opt_Entrypoint :: "string list \<Rightarrow> ServiceOption" where "opt_Entrypoint args s = s\<lparr>sv_entrypoint := args\<rparr>"
definition opt_Env :: "string \<Rightarrow> string \<Rightarrow> ServiceOption" where "opt_Env key v s = s\<lparr>sv_env := alist_put key v (sv_env s)\<rparr>"
definition opt_EnvMap :: "(string \<times> string) list \<Rightarrow> ServiceOption" where "opt_EnvMap vars s = s\<lparr>sv_env := fold (\<lambda>(k, v). alist_put k v) vars (sv_env s)\<rparr>"
definition opt_WorkDir :: "string \<Rightarrow> ServiceOption" where "opt_WorkDir dir s = s\<lparr>sv_workDir := dir\<rparr>"
definition opt_User :: "string \<Rightarrow> ServiceOption" where "opt_User user s = s\<lparr>sv_user := user\<rparr>"

definition opt_Port :: "int \<Rightarrow> string list \<Rightarrow> ServiceOption" where
  "opt_Port port protocol s =
     s\<lparr>sv_ports := sv_ports s @ [\<lparr>po_Port = port, po_Protocol = (if protocol \<noteq> [] \<and> hd protocol \<noteq> [] then hd protocol else ''tcp'')\<rparr>]\<rparr>"

definition opt_Volume :: "string \<Rightarrow> string \<Rightarrow> bool list \<Rightarrow> ServiceOption" where
  "opt_Volume name target readOnly s =
     s\<lparr>sv_mounts := sv_mounts s @ [\<lparr>mo_Type = ''volume'', mo_Source = name, mo_Target = target, mo_ReadOnly = (readOnly \<noteq> [] \<and> hd readOnly)\<rparr>]\<rparr>"

definition opt_Bind :: "string \<Rightarrow> string \<Rightarrow> bool list \<Rightarrow> ServiceOption" where
  "opt_Bind hostPath target readOnly s =
     s\<lparr>sv_mounts := sv_mounts s @ [\<lparr>mo_Type = ''bind'', mo_Source = hostPath, mo_Target = target, mo_ReadOnly = (readOnly \<noteq> [] \<and> hd readOnly)\<rparr>]\<rparr>"

definition opt_DependsOn :: "string list \<Rightarrow> ServiceOption" where "opt_DependsOn services s = s\<lparr>sv_depends := sv_depends s @ services\<rparr>"
definition opt_Replicas :: "int \<Rightarrow> ServiceOption" where "opt_Replicas n s = s\<lparr>sv_replicas := (if n < 1 then 1 else n)\<rparr>"
definition opt_WithProbe :: "Probe option \<Rightarrow> ProbeMode \<Rightarrow> ServiceOption" where "opt_WithProbe p mode s = s\<lparr>sv_probe := p, sv_probeMode := mode\<rparr>"
definition opt_Restart :: "RestartPolicy \<Rightarrow> ServiceOption" where "opt_Restart p s = s\<lparr>sv_restart := p\<rparr>"
definition opt_Resources :: "ResourceLimits \<Rightarrow> ServiceOption" where "opt_Resources r s = s\<lparr>sv_resources := r\<rparr>"
definition opt_PreStart :: "hook \<Rightarrow> ServiceOption" where "opt_PreStart h s = s\<lparr>sv_preStart := sv_preStart s @ [h]\<rparr>"
definition opt_PostStart :: "hook \<Rightarrow> ServiceOption" where "opt_PostStart h s = s\<lparr>sv_postStart := sv_postStart s @ [h]\<rparr>"
definition opt_PreStop :: "hook \<Rightarrow> ServiceOption" where "opt_PreStop h s = s\<lparr>sv_preStop := sv_preStop s @ [h]\<rparr>"

definition opt_UseSecret :: "string \<Rightarrow> string \<Rightarrow> 32 word list \<Rightarrow> ServiceOption" where
  "opt_UseSecret name mountPath mode s =
     s\<lparr>sv_secrets := sv_secrets s @ [\<lparr>sr_Name = name, sr_MountPath = mountPath, sr_Mode = (if mode \<noteq> [] then hd mode else 0x100)\<rparr>]\<rparr>"

definition opt_Egress :: "EgressPolicy option \<Rightarrow> ServiceOption" where "opt_Egress p s = s\<lparr>sv_egress := p\<rparr>"
definition opt_InitContainer :: ServiceOption where "opt_InitContainer s = s\<lparr>sv_role := RoleInit\<rparr>"
definition opt_AfterInit :: "string list \<Rightarrow> ServiceOption" where "opt_AfterInit names s = s\<lparr>sv_initBefore := sv_initBefore s @ names\<rparr>"
definition opt_CapAdd :: "string \<Rightarrow> ServiceOption" where "opt_CapAdd c s = s\<lparr>sv_capAdd := sv_capAdd s @ [c]\<rparr>"
definition opt_CapDrop :: "string \<Rightarrow> ServiceOption" where "opt_CapDrop c s = s\<lparr>sv_capDrop := sv_capDrop s @ [c]\<rparr>"
definition opt_StopTimeout :: "duration \<Rightarrow> ServiceOption" where "opt_StopTimeout d s = s\<lparr>sv_stopTimeout := d\<rparr>"
definition opt_ServiceLabel :: "string \<Rightarrow> string \<Rightarrow> ServiceOption" where "opt_ServiceLabel key v s = s\<lparr>sv_extraLabels := alist_put key v (sv_extraLabels s)\<rparr>"

definition svc_Replicas :: "Service \<Rightarrow> int" where
  "svc_Replicas s = (if sv_replicas s \<le> 0 then 1 else sv_replicas s)"

definition svc_Role :: "Service \<Rightarrow> string" where
  "svc_Role s = (if sv_role s = [] then RoleService else sv_role s)"

datatype service_error = SvcNoName | SvcNoImage string | SvcBadPort string int | SvcBadProtocol string string
  | SvcMountNoTarget string | SvcMountNoSource string | SvcMountType string string | SvcSecretRef string
  | SvcProbe string probe_error | SvcProbeMode string | SvcReplicas string | SvcRole string string | SvcInitReplicas string

definition port_error :: "string \<Rightarrow> ServicePort \<Rightarrow> service_error option" where
  "port_error name p =
     (if po_Port p < 1 \<or> po_Port p > 65535 then Some (SvcBadPort name (po_Port p))
      else if po_Protocol p \<in> {''tcp'', ''udp'', ''sctp''} then None else Some (SvcBadProtocol name (po_Protocol p)))"

definition mount_error :: "string \<Rightarrow> ServiceMount \<Rightarrow> service_error option" where
  "mount_error name m =
     (if mo_Target m = [] then Some (SvcMountNoTarget name)
      else if mo_Source m = [] then Some (SvcMountNoSource name)
      else if mo_Type m \<in> {''volume'', ''bind''} then None else Some (SvcMountType name (mo_Type m)))"

definition secret_error :: "string \<Rightarrow> SecretRef \<Rightarrow> service_error option" where
  "secret_error name sec = (if sr_Name sec = [] \<or> sr_MountPath sec = [] then Some (SvcSecretRef name) else None)"

text \<open>The first error of a loop.\<close>

fun first_error :: "('a \<Rightarrow> 'e option) \<Rightarrow> 'a list \<Rightarrow> 'e option" where
  "first_error f [] = None"
| "first_error f (x # xs) = (case f x of Some e \<Rightarrow> Some e | None \<Rightarrow> first_error f xs)"

definition svc_probe_error :: "Service \<Rightarrow> service_error option" where
  "svc_probe_error s =
     (case sv_probe s of
        None \<Rightarrow> None
      | Some p \<Rightarrow>
          (case probe_validate p of
             Some e \<Rightarrow> Some (SvcProbe (sv_name s) e)
           | None \<Rightarrow> if sv_probeMode s = ProbeModeUnset then Some (SvcProbeMode (sv_name s)) else None))"

definition service_validate :: "Service \<Rightarrow> service_error option" where
  "service_validate s =
     (if sv_name s = [] then Some SvcNoName
      else if sv_image s = [] then Some (SvcNoImage (sv_name s))
      else case first_error (port_error (sv_name s)) (sv_ports s) of
          Some e \<Rightarrow> Some e
        | None \<Rightarrow>
            (case first_error (mount_error (sv_name s)) (sv_mounts s) of
               Some e \<Rightarrow> Some e
             | None \<Rightarrow>
                 (case first_error (secret_error (sv_name s)) (sv_secrets s) of
                    Some e \<Rightarrow> Some e
                  | None \<Rightarrow>
                      (case svc_probe_error s of
                         Some e \<Rightarrow> Some e
                       | None \<Rightarrow>
                           if sv_replicas s < 0 then Some (SvcReplicas (sv_name s))
                           else if sv_role s \<noteq> [] \<and> sv_role s \<noteq> RoleService \<and> sv_role s \<noteq> RoleInit \<and> sv_role s \<noteq> RoleSidecar
                           then Some (SvcRole (sv_name s) (sv_role s))
                           else if sv_role s = RoleInit \<and> sv_replicas s > 1 then Some (SvcInitReplicas (sv_name s))
                           else None))))"

section \<open>Image pins\<close>

record pinTable =
  pt_pins :: "(string \<times> string) list"
  pt_required :: bool

definition newPinTable :: pinTable where "newPinTable = \<lparr>pt_pins = [], pt_required = False\<rparr>"

datatype pin_error = PinEmptyRef | PinBadDigest | PinAlreadyPinned string | ImageNotPinned string

definition PinImage :: "string \<Rightarrow> string \<Rightarrow> pinTable \<Rightarrow> pin_error option \<times> pinTable" where
  "PinImage ref digest t =
     (if ref = [] then (Some PinEmptyRef, t)
      else if \<not> prefix ''sha256:'' digest \<or> length digest < 15 then (Some PinBadDigest, t)
      else if CHR ''@'' \<in> set ref then (Some (PinAlreadyPinned ref), t)
      else (None, t\<lparr>pt_pins := alist_put ref digest (pt_pins t)\<rparr>))"

definition RequireDigestPinning :: "bool \<Rightarrow> pinTable \<Rightarrow> pinTable" where
  "RequireDigestPinning required t = t\<lparr>pt_required := required\<rparr>"

definition stripTag :: "string \<Rightarrow> string" where
  "stripTag ref =
     (let pre = (if CHR ''/'' \<in> set ref then takeWhile (\<lambda>c. c \<noteq> CHR ''/'') ref @ ''/'' else []);
          rest = drop (length pre) ref
      in if CHR '':'' \<in> set rest then pre @ rev (tl (dropWhile (\<lambda>c. c \<noteq> CHR '':'') (rev rest))) else ref)"

definition resolveImage :: "pinTable \<Rightarrow> string \<Rightarrow> pin_error + string" where
  "resolveImage t ref =
     (if sublist ''@sha256:'' ref then Inr ref
      else case map_of (pt_pins t) ref of
          Some digest \<Rightarrow> Inr (stripTag ref @ ''@'' @ digest)
        | None \<Rightarrow> if pt_required t then Inl (ImageNotPinned ref) else Inr ref)"

section \<open>Labels\<close>

definition stackLabels :: "string \<Rightarrow> string \<Rightarrow> string \<Rightarrow> string \<Rightarrow> (string \<times> string) list" where
  "stackLabels engineID stackID stackName kind =
     [(''mkfst.managed-by'', ''mkfst-network''), (''mkfst.engine'', engineID), (''mkfst.stack'', stackID),
      (''mkfst.stack-name'', stackName), (''mkfst.kind'', kind)]"

fun decimal :: "nat \<Rightarrow> string \<Rightarrow> string" where
  "decimal n acc = (if n = 0 then acc else decimal (n div 10) (char_of (48 + n mod 10) # acc))"

definition formatReplica :: "int \<Rightarrow> string" where
  "formatReplica n =
     (if n = 0 then ''0'' else if n < 0 then ''-'' @ decimal (nat (- n)) [] else decimal (nat n) [])"

definition withServiceLabels :: "(string \<times> string) list \<Rightarrow> string \<Rightarrow> int \<Rightarrow> string \<Rightarrow> (string \<times> string) list" where
  "withServiceLabels base service replica role =
     alist_put ''mkfst.role'' role (alist_put ''mkfst.replica'' (formatReplica replica) (alist_put ''mkfst.service'' service base))"

declare decimal.simps [simp del]

section \<open>Facts\<close>

lemma first_error_None: "first_error f xs = None \<longleftrightarrow> list_all (\<lambda>x. f x = None) xs"
  by (induction xs) (auto split: option.split)

text \<open>A probe with its defaults is usable: positive timings and thresholds, and a jitter within the interval when it was not set.\<close>

lemma probe_withDefaults_positive:
  "0 < pb_Interval (probe_withDefaults p)" "0 < pb_Timeout (probe_withDefaults p)"
  "0 < pb_FailureThreshold (probe_withDefaults p)" "0 < pb_SuccessThreshold (probe_withDefaults p)"
  "pb_Jitter p \<le> 0 \<Longrightarrow> pb_Jitter (probe_withDefaults p) = pb_Interval (probe_withDefaults p) div 4"
  by (simp_all add: probe_withDefaults_def Let_def)

text \<open>What a valid service guarantees.\<close>

definition service_ok :: "Service \<Rightarrow> bool" where
  "service_ok s \<longleftrightarrow>
     sv_name s \<noteq> [] \<and> sv_image s \<noteq> [] \<and>
     list_all (\<lambda>p. 1 \<le> po_Port p \<and> po_Port p \<le> 65535 \<and> po_Protocol p \<in> {''tcp'', ''udp'', ''sctp''}) (sv_ports s) \<and>
     list_all (\<lambda>m. mo_Target m \<noteq> [] \<and> mo_Source m \<noteq> [] \<and> mo_Type m \<in> {''volume'', ''bind''}) (sv_mounts s) \<and>
     list_all (\<lambda>sec. sr_Name sec \<noteq> [] \<and> sr_MountPath sec \<noteq> []) (sv_secrets s) \<and>
     (\<forall>p. sv_probe s = Some p \<longrightarrow> probe_validate p = None \<and> sv_probeMode s \<noteq> ProbeModeUnset) \<and>
     0 \<le> sv_replicas s \<and> svc_Role s \<in> {RoleService, RoleInit, RoleSidecar} \<and>
     (svc_Role s = RoleInit \<longrightarrow> svc_Replicas s = 1)"

lemma port_error_None: "port_error name p = None \<longleftrightarrow> 1 \<le> po_Port p \<and> po_Port p \<le> 65535 \<and> po_Protocol p \<in> {''tcp'', ''udp'', ''sctp''}"
  by (auto simp: port_error_def)

lemma mount_error_None: "mount_error name m = None \<longleftrightarrow> mo_Target m \<noteq> [] \<and> mo_Source m \<noteq> [] \<and> mo_Type m \<in> {''volume'', ''bind''}"
  by (auto simp: mount_error_def)

lemma secret_error_None: "secret_error name sec = None \<longleftrightarrow> sr_Name sec \<noteq> [] \<and> sr_MountPath sec \<noteq> []"
  by (auto simp: secret_error_def)

lemma svc_probe_error_None:
  "svc_probe_error s = None \<longleftrightarrow> (\<forall>p. sv_probe s = Some p \<longrightarrow> probe_validate p = None \<and> sv_probeMode s \<noteq> ProbeModeUnset)"
  by (simp add: svc_probe_error_def split: option.split)

lemma role_ok: "svc_Role s \<in> {RoleService, RoleInit, RoleSidecar} \<longleftrightarrow>
    \<not> (sv_role s \<noteq> [] \<and> sv_role s \<noteq> RoleService \<and> sv_role s \<noteq> RoleInit \<and> sv_role s \<noteq> RoleSidecar)"
  by (auto simp: svc_Role_def)

lemma init_ok: "0 \<le> sv_replicas s \<Longrightarrow> (svc_Role s = RoleInit \<longrightarrow> svc_Replicas s = 1) \<longleftrightarrow> \<not> (sv_role s = RoleInit \<and> sv_replicas s > 1)"
  by (auto simp: svc_Role_def svc_Replicas_def RoleService_def RoleInit_def)

lemma service_validate_exact: "service_validate s = None \<longleftrightarrow> service_ok s"
proof -
  have v: "service_validate s = None \<longleftrightarrow>
      sv_name s \<noteq> [] \<and> sv_image s \<noteq> [] \<and> first_error (port_error (sv_name s)) (sv_ports s) = None \<and>
      first_error (mount_error (sv_name s)) (sv_mounts s) = None \<and> first_error (secret_error (sv_name s)) (sv_secrets s) = None \<and>
      svc_probe_error s = None \<and> 0 \<le> sv_replicas s \<and> svc_Role s \<in> {RoleService, RoleInit, RoleSidecar} \<and>
      \<not> (sv_role s = RoleInit \<and> sv_replicas s > 1)"
    unfolding service_validate_def role_ok by (simp add: not_less split: option.split)
  show ?thesis
    unfolding v service_ok_def first_error_None port_error_None mount_error_None secret_error_None svc_probe_error_None
    using init_ok [of s] by blast
qed

text \<open>Every digest in the table of a stack came through \<^verbatim>\<open>PinImage\<close>.\<close>

definition pin_all :: "(string \<times> string) list \<Rightarrow> pinTable \<Rightarrow> pinTable" where
  "pin_all requests t = fold (\<lambda>(ref, digest) t. snd (PinImage ref digest t)) requests t"

definition pins_ok :: "pinTable \<Rightarrow> bool" where
  "pins_ok t \<longleftrightarrow> (\<forall>ref digest. map_of (pt_pins t) ref = Some digest \<longrightarrow> prefix ''sha256:'' digest \<and> CHR ''@'' \<notin> set ref)"

lemma pins_ok_PinImage: "pins_ok t \<Longrightarrow> pins_ok (snd (PinImage ref digest t))"
  by (auto simp: pins_ok_def PinImage_def)

lemma pins_ok_all: "pins_ok t \<Longrightarrow> pins_ok (pin_all requests t)"
  by (induction requests arbitrary: t) (auto simp: pin_all_def pins_ok_PinImage)

lemma not_pinned_inside: "CHR ''@'' \<notin> set ref \<Longrightarrow> \<not> sublist ''@sha256:'' ref"
  by (auto simp: sublist_def)

section \<open>Properties\<close>

text \<open>C40: Whatever pins were requested, in any order: once digests are required, every image reference that
  resolves contains a digest, and a reference with neither a digest nor a pin is refused. Required or not,
  a pinned reference resolves to its image name without the tag followed by the digest it was pinned to.\<close>

theorem image_pinning:
  "(resolveImage (RequireDigestPinning True (pin_all requests newPinTable)) ref = Inr img \<longrightarrow> sublist ''@sha256:'' img) \<and>
   (\<not> sublist ''@sha256:'' ref \<and> map_of (pt_pins (pin_all requests newPinTable)) ref = None \<longrightarrow>
      resolveImage (RequireDigestPinning True (pin_all requests newPinTable)) ref = Inl (ImageNotPinned ref)) \<and>
   (map_of (pt_pins (pin_all requests newPinTable)) ref = Some digest \<longrightarrow>
      resolveImage (RequireDigestPinning required (pin_all requests newPinTable)) ref = Inr (stripTag ref @ ''@'' @ digest) \<and>
      prefix ''sha256:'' digest)"
proof -
  have ok: "pins_ok (pin_all requests newPinTable)" by (rule pins_ok_all) (simp add: pins_ok_def newPinTable_def)
  have sub: "prefix ''sha256:'' d \<Longrightarrow> sublist ''@sha256:'' (base @ ''@'' @ d)" for d base :: string
    by (auto simp: prefix_def sublist_def)
  show ?thesis
    using ok sub not_pinned_inside
    by (auto simp: resolveImage_def RequireDigestPinning_def pins_ok_def split: if_splits option.splits)
qed

theorem image_pinning_witness:
  "map_of (pt_pins (pin_all [(''reg:5000/nginx:alpine'', ''sha256:0123456789''), (''x'', ''md5:0'')] newPinTable)) ''reg:5000/nginx:alpine'' = Some ''sha256:0123456789'' \<and>
   resolveImage (RequireDigestPinning True (pin_all [(''reg:5000/nginx:alpine'', ''sha256:0123456789''), (''x'', ''md5:0'')] newPinTable)) ''reg:5000/nginx:alpine'' =
     Inr ''reg:5000/nginx@sha256:0123456789'' \<and>
   sublist ''@sha256:'' ''reg:5000/nginx@sha256:0123456789''"
proof -
  let ?r = "[(''reg:5000/nginx:alpine'', ''sha256:0123456789''), (''x'', ''md5:0'')]"
  have m: "map_of (pt_pins (pin_all ?r newPinTable)) ''reg:5000/nginx:alpine'' = Some ''sha256:0123456789''"
    "stripTag ''reg:5000/nginx:alpine'' @ ''@'' @ ''sha256:0123456789'' = ''reg:5000/nginx@sha256:0123456789''" by code_simp+
  then show ?thesis
    using image_pinning [of ?r "''reg:5000/nginx:alpine''" "''reg:5000/nginx@sha256:0123456789''" "''sha256:0123456789''" True] by simp
qed

end
