(* ===== verification/Spec2Isabelle.thy ===== *)
theory Spec2Isabelle imports Task_Store Cache_Memory Workflow_Live Task_Fleet Vfs_Refine Circuit_Breaker Rate_Limiter Net_Dns Net_Service
begin

text \<open>
  Verification of mkfst, a Go framework for HTTP services with task queues, workflows, a virtual file
  system and container stacks. Paths below are relative to \<^verbatim>\<open>src/providers\<close> unless they say otherwise.

  \<^bold>\<open>How the parts interact.\<close> Tasks are enqueued through the scheduler into a store, claimed by worker
  processes and completed, retried or failed; maintenance passes promote scheduled tasks and reclaim
  expired leases. The workflow engine keeps the state of every instance in a cache and turns the nodes
  that are ready into tasks. The virtual file system is a tree of inodes over an optional host directory;
  file contents are lists of extents over a content-addressed chunk store, and changes are published to
  subscribers. Container stacks are built from services, each with a probe, an egress policy and an image
  reference that may have to be pinned; they rely on probes with hysteresis, a circuit breaker per replica
  and restarts with backoff, and a name server enforces the egress policies. The workflow server is
  protected by a rate limiter.

  \<^bold>\<open>Conventions\<close> (\<open>Prelude\<close>). A struct is a record with the fields of the source, an error return is the
  left side of a sum or an option, a mutex-protected method is one function of the state, and code that
  runs concurrently is a step relation whose steps are the critical sections. Instants and durations are
  nanoseconds as integers; every reading of the clock is an argument. Arithmetic that can overflow is
  kept at its width (backoffs, file modes, identifiers); float64 is an exact rational. What the code takes
  from outside, such as SHA-256 and DEFLATE, the operating system, JSON, handlers and random numbers, is an
  argument, with what is relied on as named hypotheses: \<open>codec_ok\<close> (decompression inverts compression),
  \<open>collision_free\<close> (no second content with the same digest), \<open>reader_ok\<close> (a reader of host files returns what
  the host holds).

  \<^bold>\<open>Standard library.\<close> \<open>Go_Heap\<close> models \<^verbatim>\<open>container/heap\<close> with its sift loops, over the locale \<open>heap_order\<close>;
  \<open>Go_Sort\<close> models \<^verbatim>\<open>sort.Search\<close> and stable sorting; \<open>Go_Text\<close> the text encodings; \<open>Go_Strings\<close> the functions of \<^verbatim>\<open>strings\<close> that split, join and fold the case
  of ASCII texts. \<open>Net_Egress\<close> holds the address arithmetic of \<^verbatim>\<open>net.IPNet\<close>.

  \<^bold>\<open>Tasks\<close> (\<^verbatim>\<open>tasks\<close>). \<open>Task_Types\<close>: \<^verbatim>\<open>tasks.go\<close>. \<open>Task_Memory\<close>: every method of \<^verbatim>\<open>MemoryStore\<close> in \<^verbatim>\<open>memory.go\<close>, its
  three heaps per queue and the table of records. \<open>Task_Invariant\<close>, \<open>Task_Claim\<close> and \<open>Task_Maintenance\<close>: the
  invariant of heaps and records, kept by every operation, and what claims and maintenance passes do
  exactly. \<open>Task_Store\<close>: the store as a transition system and its properties: the life cycle, priorities,
  ownership, promotion, reclaiming, deduplication and statistics. \<open>Task_Worker\<close>: \<^verbatim>\<open>worker.go\<close> over any backend
  (the record \<open>store_ops\<close>). \<open>Task_Fleet\<close>: any interleaving of any number of workers on one store; attempts
  are bounded, a dispatch does what the outcome says, and no queue starves (locale \<open>claim_store\<close>).

  \<^bold>\<open>Cache\<close> (\<^verbatim>\<open>cache\<close>). \<open>Cache_Memory\<close>: \<^verbatim>\<open>memory.go\<close> with eviction by recency and bytes; the interface is the locale
  \<open>cache_backend\<close>, extended by \<open>lossless_cache\<close> when there is no byte limit. A hit is the last value stored.

  \<^bold>\<open>Workflows\<close> (\<^verbatim>\<open>workflows\<close>). \<open>Workflow_Def\<close>: \<^verbatim>\<open>workflows.go\<close>, validation and cycle detection. \<open>Workflow_Engine\<close>:
  \<^verbatim>\<open>engine.go\<close> and \<^verbatim>\<open>state.go\<close>, every method over an arbitrary cache and scheduler. \<open>Workflow_Spec\<close>: the abstract
  instance and the locales \<open>task_queue\<close> and \<open>engine_client\<close> in which the engine is shown to implement it.
  \<open>Workflow_Run\<close>: the invariant of runs and the measure that bounds them. \<open>Workflow_Live\<close>: both locales
  interpreted on the memory cache and the memory store, and the properties of whole runs: they end, and in
  dependency order.

  \<^bold>\<open>Virtual file system\<close> (\<^verbatim>\<open>vfs\<close>). \<open>Chunk_Store\<close>: the reference-counted store of \<^verbatim>\<open>storage.go\<close> and the transparent
  compression of \<^verbatim>\<open>compression.go\<close>; its contract is the locale \<open>chunk_provider\<close>. \<open>File_Body\<close> and \<open>File_Spec\<close>: extents and
  every read and edit, refined to byte strings. \<open>Vfs_Path\<close>: path cleaning and splitting. \<open>Vfs_Events\<close>: \<^verbatim>\<open>events.go\<close>,
  the publisher, the coalescing loop in three interleaving phases, and that no change goes unnoticed.
  \<open>Vfs_Tree\<close>: \<^verbatim>\<open>tree.go\<close>, \<^verbatim>\<open>overlay.go\<close> and \<^verbatim>\<open>inode.go\<close>; a pointer to a node is the path it stands at, or the key of a
  host node, and an assignment into a nil children map is the error value \<open>PanicNilMap\<close>. \<open>Vfs_Nodes\<close>, \<open>Vfs_Wf\<close>,
  \<open>Vfs_Safe\<close>: the well-formedness of trees and that every operation keeps it on every host. \<open>Vfs_Refs\<close>: the
  references the store holds cover those of the tree. \<open>Vfs_Spec\<close>, \<open>Vfs_Refine\<close>: a tree without an overlay
  refines an abstract file system, every operation and every error included, on top of a second
  interpretation of \<open>chunk_provider\<close> whose invariant counts references.

  \<^bold>\<open>Container networks\<close> (\<^verbatim>\<open>docker/network\<close>). \<open>Circuit_Breaker\<close>: \<^verbatim>\<open>circuit_breaker.go\<close>. \<open>Probe_State\<close>: \<^verbatim>\<open>probe_state.go\<close>.
  \<open>Retry_Backoff\<close>: \<^verbatim>\<open>retry.go\<close> and the restart loop of \<^verbatim>\<open>restart.go\<close> with 64-bit shifts, and the attempt from which
  the shift is zero and the code panics. \<open>Net_Egress\<close>: \<^verbatim>\<open>egress.go\<close> and the source rules of \<^verbatim>\<open>ingress.go\<close>; a compiled
  policy allows exactly the names and addresses its patterns and networks say. \<open>Net_Dns\<close>: the name server
  of \<^verbatim>\<open>dns.go\<close> on wire bytes, where a slice out of range is a panic; it never panics, an outside name that the
  policy of the asking service denies is answered NXDOMAIN, and names survive encoding and decoding. The
  container table, the answers of the Docker daemon and the upstream resolver are the fields of
  \<open>dns_env\<close>. \<open>Net_Service\<close>: \<^verbatim>\<open>service.go\<close>, \<^verbatim>\<open>probe.go\<close>, \<^verbatim>\<open>image_pin.go\<close> and \<^verbatim>\<open>labels.go\<close>: options, defaults,
  validation and the resolution of image references. \<^bold>\<open>Workflow server\<close> (\<^verbatim>\<open>ts/server\<close>). \<open>Rate_Limiter\<close>: \<^verbatim>\<open>ratelimit.go\<close>.

  \<^bold>\<open>Bounds and fuel.\<close> Loops are structural recursions or have termination proofs, and are total. The only fuel is
  in \<open>walkLocked\<close>, where it bounds the depth of a walk: a walk of a host with a cycle of directories does
  not end, and running out of fuel is the result \<open>None\<close>. Runs of workers, engines and subscribers
  are unbounded; the measure of \<open>Workflow_Run\<close> bounds the attempts of one instance.

  \<^bold>\<open>Not modelled.\<close> Code whose behaviour is that of a library or a service: the HTTP layer (\<^verbatim>\<open>src/router\<close>,
  \<^verbatim>\<open>src/tonic\<close>, \<^verbatim>\<open>src/service\<close>: reflection on gin), OpenAPI generation (\<^verbatim>\<open>src/fizz\<close>: reflection on Go types),
  authentication (\<^verbatim>\<open>src/auth\<close>: OAuth, tokens), tracing (\<^verbatim>\<open>src/middleware/opentel\<close>, \<^verbatim>\<open>src/telemetry\<close>), the Docker client
  and the orchestration and proxying on top of it, the SQL and Redis backends, AWS clients, FUSE mounts, the TypeScript
  runtime (QuickJS in WebAssembly), downloads and processes, the command line and the examples. Within the
  modelled parts: spans, metrics and log lines, and the sleeping of background loops, whose wake-ups
  are instead allowed at any time.
\<close>

end
